(* ===== verification/Prelude.thy ===== *)
theory Prelude
  imports Main "HOL-Library.Word"
begin

text \<open>
  Shared vocabulary of the development: the outcomes of C code that the model
  makes explicit (undefined behaviour as a value of \<open>c_error\<close>), sequencing of
  fallible steps, checked \<open>int\<close> arithmetic, array accesses, pthread mutexes as
  seen by one critical section, and pointers, and the interfaces of the
  program's queues and of its step relations, with the lemmas their clients use.

  C \<open>char\<close> is HOL's 256-valued \<open>char\<close>; a C array of characters is a \<open>char list\<close>
  whose length is the size of the block; \<open>int\<close> is a mathematical integer whose
  overflow is an error; \<open>unsigned int\<close> is \<open>32 word\<close>; \<open>size_t\<close> is 32 bits wide (the
  program is built for a 32-bit MIPS target).
\<close>

named_theorems c_exec \<open>definitions that evaluate a step of the C model\<close>

subsection \<open>Outcomes of C code\<close>

datatype c_error =
    Null_deref        \<comment> \<open>access through a null pointer\<close>
  | Bad_pointer       \<comment> \<open>access to a block that is not (or no longer) allocated\<close>
  | Out_of_bounds     \<comment> \<open>access outside an allocated block\<close>
  | Overlap           \<comment> \<open>\<open>memcpy\<close> between overlapping blocks\<close>
  | Signed_overflow   \<comment> \<open>overflow of a signed \<open>int\<close>\<close>
  | Div_by_zero       \<comment> \<open>division or remainder by zero\<close>
  | Deadlock          \<comment> \<open>a thread locks a mutex it already holds\<close>
  | Bad_mutex         \<comment> \<open>use of a mutex that is not initialised, or unlock of a free one\<close>
  | Format_directive  \<comment> \<open>a conversion specification in a string used as a format\<close>
  | Bad_vararg        \<comment> \<open>\<open>va_arg\<close> without a further argument\<close>
  | No_return_value   \<comment> \<open>the end of a non-void function is reached\<close>

type_synonym 'a res = "c_error + 'a"

primrec bind_ok :: "'a res \<Rightarrow> ('a \<Rightarrow> 'b res) \<Rightarrow> 'b res" where
  "bind_ok (Inl e) f = Inl e"
| "bind_ok (Inr x) f = f x"

definition guard_ok :: "bool \<Rightarrow> c_error \<Rightarrow> unit res" where
  "guard_ok b e = (if b then Inr () else Inl e)"

subsection \<open>Signed integers and arrays\<close>

definition INT_MAX :: int where
  "INT_MAX = 2147483647"

definition int_inc :: "int \<Rightarrow> int res" where
  "int_inc i = (if i < INT_MAX then Inr (i + 1) else Inl Signed_overflow)"

definition int_add :: "int \<Rightarrow> int \<Rightarrow> int res" where
  "int_add a b = (if - INT_MAX - 1 \<le> a + b \<and> a + b \<le> INT_MAX then Inr (a + b) else Inl Signed_overflow)"

definition u_mod :: "32 word \<Rightarrow> 32 word \<Rightarrow> 32 word res" where
  "u_mod a b = (if b = 0 then Inl Div_by_zero else Inr (a mod b))"

definition rd_at :: "'a list \<Rightarrow> int \<Rightarrow> 'a res" where
  "rd_at xs i = (if 0 \<le> i \<and> i < int (length xs) then Inr (xs ! nat i) else Inl Out_of_bounds)"

definition wr_at :: "'a list \<Rightarrow> int \<Rightarrow> 'a \<Rightarrow> 'a list res" where
  "wr_at xs i x =
     (if 0 \<le> i \<and> i < int (length xs) then Inr (xs[nat i := x]) else Inl Out_of_bounds)"

definition size_of_int :: "int \<Rightarrow> nat" where
  \<comment> \<open>the conversion of an \<open>int\<close> to \<open>size_t\<close>\<close>
  "size_of_int n = nat (n mod 2 ^ 32)"

subsection \<open>Mutexes\<close>

text \<open>
  The state of a pthread mutex as the thread that runs a critical section sees it.
  Locking a mutex held by another thread only delays the thread, so an operation is
  described from a state where the mutex is free; locking it twice never returns.
\<close>

datatype mutex = Uninit | Unlocked | Locked

primrec mutex_lock :: "mutex \<Rightarrow> mutex res" where
  "mutex_lock Uninit = Inl Bad_mutex"
| "mutex_lock Unlocked = Inr Locked"
| "mutex_lock Locked = Inl Deadlock"

primrec mutex_unlock :: "mutex \<Rightarrow> mutex res" where
  "mutex_unlock Uninit = Inl Bad_mutex"
| "mutex_unlock Unlocked = Inl Bad_mutex"
| "mutex_unlock Locked = Inr Unlocked"

subsection \<open>Pointers\<close>

type_synonym addr = nat   \<comment> \<open>0 is \<open>NULL\<close>\<close>

definition deref :: "(addr \<Rightarrow> 'a option) \<Rightarrow> addr \<Rightarrow> 'a res" where
  "deref h a =
     (if a = 0 then Inl Null_deref
      else case h a of None \<Rightarrow> Inl Bad_pointer | Some x \<Rightarrow> Inr x)"

subsection \<open>Scripts of queue operations\<close>

datatype 'a qop = Put 'a | Get

text \<open>
  \<open>run_queue put get ops s\<close> performs the operations in order and returns what was
  accepted, what was taken out, and the final state.
\<close>

fun run_queue :: "('a \<Rightarrow> 's \<Rightarrow> (bool \<times> 's) res) \<Rightarrow> ('s \<Rightarrow> ('a option \<times> 's) res)
    \<Rightarrow> 'a qop list \<Rightarrow> 's \<Rightarrow> ('a list \<times> 'a list \<times> 's) res" where
  "run_queue put get [] s = Inr ([], [], s)"
| "run_queue put get (Put x # ops) s =
     bind_ok (put x s) (\<lambda>(accepted, s1).
     bind_ok (run_queue put get ops s1) (\<lambda>(ins, outs, s2).
       Inr (if accepted then x # ins else ins, outs, s2)))"
| "run_queue put get (Get # ops) s =
     bind_ok (get s) (\<lambda>(r, s1).
     bind_ok (run_queue put get ops s1) (\<lambda>(ins, outs, s2).
       Inr (ins, (case r of None \<Rightarrow> outs | Some x \<Rightarrow> x # outs), s2)))"

subsection \<open>Sequencing\<close>

lemma bind_ok_cong [fundef_cong]:
  "m = m' \<Longrightarrow> (\<And>x. m' = Inr x \<Longrightarrow> f x = f' x) \<Longrightarrow> bind_ok m f = bind_ok m' f'"
  by (cases m') auto

lemma bind_ok_eq_Inr [simp]:
  "bind_ok m f = Inr y \<longleftrightarrow> (\<exists>x. m = Inr x \<and> f x = Inr y)"
  by (cases m) auto

lemma bind_ok_assoc: "bind_ok (bind_ok m f) g = bind_ok m (\<lambda>x. bind_ok (f x) g)"
  by (cases m) auto

lemma bind_ok_Inr_right [simp]: "bind_ok m Inr = m"
  by (cases m) auto

lemma deref_Some: "a \<noteq> 0 \<Longrightarrow> h a = Some x \<Longrightarrow> deref h a = Inr x"
  by (simp add: deref_def)

lemma deref_Inr: "deref h a = Inr x \<longleftrightarrow> a \<noteq> 0 \<and> h a = Some x"
  by (auto simp: deref_def split: option.splits)

lemma guard_ok_Inr [simp]: "guard_ok b e = Inr u \<longleftrightarrow> b"
  by (simp add: guard_ok_def)

lemma guard_ok_True [simp]: "b \<Longrightarrow> guard_ok b e = Inr ()"
  by (simp add: guard_ok_def)

lemma int_inc_Inr: "int_inc i = Inr j \<longleftrightarrow> i < INT_MAX \<and> j = i + 1"
  by (auto simp: int_inc_def)

lemma int_inc_ok: "i < INT_MAX \<Longrightarrow> int_inc i = Inr (i + 1)"
  by (simp add: int_inc_def)

lemma rd_at_ok: "0 \<le> i \<Longrightarrow> i < int (length xs) \<Longrightarrow> rd_at xs i = Inr (xs ! nat i)"
  by (simp add: rd_at_def)

lemma wr_at_ok: "0 \<le> i \<Longrightarrow> i < int (length xs) \<Longrightarrow> wr_at xs i x = Inr (xs[nat i := x])"
  by (simp add: wr_at_def)

lemma size_of_int_small [simp]: "0 \<le> n \<Longrightarrow> n \<le> INT_MAX \<Longrightarrow> size_of_int n = nat n"
  by (simp add: size_of_int_def INT_MAX_def)

text \<open>A non-negative \<open>int\<close> converted to \<open>unsigned int\<close> keeps its value.\<close>

lemma uint_of_int: "0 \<le> i \<Longrightarrow> i \<le> INT_MAX \<Longrightarrow> uint (word_of_int i :: 32 word) = i"
  by (simp add: INT_MAX_def unsigned_of_int take_bit_int_eq_self)

lemma unat_of_int:
  assumes "0 \<le> i" and "i \<le> INT_MAX"
  shows "unat (word_of_int i :: 32 word) = nat i"
  using uint_of_int [OF assms] by (metis nat_uint_eq)

lemma int_less_unsigned:
  assumes "0 \<le> i" and "i \<le> INT_MAX"
  shows "(word_of_int i :: 32 word) < n \<longleftrightarrow> nat i < unat n"
  by (simp add: word_less_nat_alt unat_of_int [OF assms])

lemma sint_of_small:
  assumes "int (unat (w :: 32 word)) \<le> INT_MAX"
  shows "sint w = int (unat w)"
proof -
  from assms have "uint w < 2 ^ 31" by (simp add: INT_MAX_def)
  moreover have "- (2 ^ 31) \<le> uint w" by (rule order_trans [OF _ uint_ge_0]) simp
  ultimately have "signed_take_bit 31 (uint w) = uint w"
    by (intro signed_take_bit_int_eq_self)
  then show ?thesis by (simp add: sint_uint)
qed

subsection \<open>The contract of a queue\<close>

text \<open>
  What every client of a queue relies on: while there is room an element that is put in is
  appended, and taking one out removes the oldest.  What happens without room differs: the
  byte FIFO and the pool refuse (\<open>fifo_service\<close>), the message lists have no such test and
  are only used below a bound (\<open>bounded_queue\<close>).
\<close>

locale queue_service =
  fixes inv :: "'s \<Rightarrow> bool"
    and contents :: "'s \<Rightarrow> 'a list"
    and room :: "'s \<Rightarrow> bool"
    and admissible :: "'a \<Rightarrow> bool"
    and put :: "'a \<Rightarrow> 's \<Rightarrow> (bool \<times> 's) res"
    and get :: "'s \<Rightarrow> ('a option \<times> 's) res"
  assumes put_law: "inv s \<Longrightarrow> admissible x \<Longrightarrow> room s \<Longrightarrow>
      \<exists>s'. put x s = Inr (True, s') \<and> inv s' \<and> contents s' = contents s @ [x]"
    and get_law: "inv s \<Longrightarrow>
      \<exists>s'. get s = Inr (case contents s of [] \<Rightarrow> None | x # _ \<Rightarrow> Some x, s') \<and> inv s' \<and>
           contents s' = tl (contents s)"
begin

lemma step_of_get:
  assumes "inv s"
    and "\<And>s1. inv s1 \<Longrightarrow> contents s1 = tl (contents s) \<Longrightarrow>
      \<exists>ins outs s'. run_queue put get ops s1 = Inr (ins, outs, s') \<and> inv s' \<and>
        outs @ contents s' = contents s1 @ ins \<and> P ins"
  shows "\<exists>ins outs s'. run_queue put get (Get # ops) s = Inr (ins, outs, s') \<and> inv s' \<and>
      outs @ contents s' = contents s @ ins \<and> P ins"
proof -
  from get_law [OF assms(1)] obtain s1 where
    s1: "get s = Inr (case contents s of [] \<Rightarrow> None | x # _ \<Rightarrow> Some x, s1)" "inv s1"
    "contents s1 = tl (contents s)" by blast
  from assms(2) [OF s1(2,3)] obtain ins outs s' where
    "run_queue put get ops s1 = Inr (ins, outs, s')"
    "inv s'" "outs @ contents s' = contents s1 @ ins" "P ins" by blast
  with s1 show ?thesis by (cases "contents s") simp_all
qed

lemma step_of_put:
  assumes "put x s = Inr (b, s1)" and "inv s1" and "contents s1 = (if b then contents s @ [x] else contents s)"
    and "\<exists>ins outs s'. run_queue put get ops s1 = Inr (ins, outs, s') \<and> inv s' \<and>
        outs @ contents s' = contents s1 @ ins \<and> P (if b then x # ins else ins)"
  shows "\<exists>ins outs s'. run_queue put get (Put x # ops) s = Inr (ins, outs, s') \<and> inv s' \<and>
      outs @ contents s' = contents s @ ins \<and> P ins"
proof -
  from assms(4) obtain ins outs s' where
    "run_queue put get ops s1 = Inr (ins, outs, s')"
    "inv s'" "outs @ contents s' = contents s1 @ ins" "P (if b then x # ins else ins)" by blast
  with assms(1-3) show ?thesis by (cases b) simp_all
qed

lemma put_then_get_singleton:
  assumes "inv s" and "admissible x" and "contents s = []" and "room s"
  shows "\<exists>s' s''. put x s = Inr (True, s') \<and> get s' = Inr (Some x, s'') \<and> contents s'' = []"
proof -
  from put_law [OF assms(1,2,4)] assms(3) obtain s' where
    "put x s = Inr (True, s')" "inv s'" "contents s' = [x]" by auto
  moreover from get_law [OF this(2)] this(3) obtain s'' where
    "get s' = Inr (Some x, s'')" "contents s'' = []" by auto
  ultimately show ?thesis by blast
qed

end

locale fifo_service = queue_service +
  assumes refuse_law: "inv s \<Longrightarrow> admissible x \<Longrightarrow> \<not> room s \<Longrightarrow>
      \<exists>s'. put x s = Inr (False, s') \<and> inv s' \<and> contents s' = contents s"
begin

text \<open>
  Whatever a client does, a run never goes wrong, keeps the invariant, and what has
  come out followed by what is still inside is what was inside followed by what was
  accepted: nothing is lost, duplicated, invented or reordered.
\<close>

lemma run_fifo:
  assumes "inv s" and "\<forall>x. Put x \<in> set ops \<longrightarrow> admissible x"
  shows "\<exists>ins outs s'. run_queue put get ops s = Inr (ins, outs, s') \<and> inv s' \<and>
           outs @ contents s' = contents s @ ins"
  using assms
proof (induction ops arbitrary: s)
  case Nil
  then show ?case by simp
next
  case (Cons op ops)
  then have ops: "\<forall>x. Put x \<in> set ops \<longrightarrow> admissible x" by simp
  show ?case
  proof (cases op)
    case (Put x)
    with Cons.prems have "admissible x" by simp
    from put_law [OF Cons.prems(1) this] refuse_law [OF Cons.prems(1) this] obtain b s1 where
      s1: "put x s = Inr (b, s1)" "inv s1" "contents s1 = (if b then contents s @ [x] else contents s)"
      by (cases "room s") fastforce+
    show ?thesis unfolding Put
      by (rule step_of_put [OF s1, where P = "\<lambda>_. True", unfolded simp_thms])
        (rule Cons.IH [OF s1(2) ops])
  next
    case Get
    show ?thesis unfolding Get
      by (rule step_of_get [OF Cons.prems(1), where P = "\<lambda>_. True", unfolded simp_thms])
        (rule Cons.IH [OF _ ops])
  qed
qed

end

fun puts :: "'a qop list \<Rightarrow> 'a list" where
  "puts [] = []"
| "puts (Put x # ops) = x # puts ops"
| "puts (Get # ops) = puts ops"

locale bounded_queue = queue_service +
  fixes bound :: nat
  assumes room_below: "inv s \<Longrightarrow> length (contents s) < bound \<Longrightarrow> room s"
begin

text \<open>Below the bound everything is accepted.\<close>

lemma run_bounded:
  assumes "inv s" and "\<forall>x \<in> set (puts ops). admissible x"
    and "length (contents s) + length (puts ops) \<le> bound"
  shows "\<exists>ins outs s'. run_queue put get ops s = Inr (ins, outs, s') \<and> inv s' \<and>
           outs @ contents s' = contents s @ ins \<and> ins = puts ops"
  using assms
proof (induction ops arbitrary: s)
  case Nil
  then show ?case by simp
next
  case (Cons op ops)
  show ?case
  proof (cases op)
    case (Put x)
    with Cons.prems have x: "admissible x" "length (contents s) < bound" by simp_all
    from put_law [OF Cons.prems(1) x(1) room_below [OF Cons.prems(1) x(2)]] obtain s1 where
      s1: "put x s = Inr (True, s1)" "inv s1" "contents s1 = contents s @ [x]" by blast
    with Put Cons.prems Cons.IH [OF s1(2)] show ?thesis
      unfolding Put by (intro step_of_put [OF s1(1,2)]) simp_all
  next
    case Get
    show ?thesis unfolding Get
    proof (rule step_of_get [OF Cons.prems(1)])
      fix s1 assume "inv s1" "contents s1 = tl (contents s)"
      with Cons.prems(2,3) Get Cons.IH [OF this(1)]
      show "\<exists>ins outs s'. run_queue put get ops s1 = Inr (ins, outs, s') \<and> inv s' \<and>
          outs @ contents s' = contents s1 @ ins \<and> ins = puts (Get # ops)" by simp
    qed
  qed
qed

end

subsection \<open>Step relations\<close>

text \<open>
  The threads of the program are step relations.  An invariant of the steps holds in every
  reachable state; and if every state with something left to do has a step that leaves
  less to do, then from every state there is a run after which nothing is left.
\<close>

locale invariant_steps =
  fixes step :: "'s \<Rightarrow> 's \<Rightarrow> bool"
    and inv :: "'s \<Rightarrow> bool"
  assumes inv_step: "step s s' \<Longrightarrow> inv s \<Longrightarrow> inv s'"
begin

lemma inv_steps: "step\<^sup>*\<^sup>* s s' \<Longrightarrow> inv s \<Longrightarrow> inv s'"
  by (induction rule: rtranclp_induct) (auto intro: inv_step)

end

locale draining_steps = invariant_steps +
  fixes left :: "'s \<Rightarrow> nat"
  assumes progress: "inv s \<Longrightarrow> 0 < left s \<Longrightarrow> \<exists>s'. step s s' \<and> left s' < left s"
begin

lemma drained: "inv s \<Longrightarrow> \<exists>s'. step\<^sup>*\<^sup>* s s' \<and> inv s' \<and> left s' = 0"
proof (induction "left s" arbitrary: s rule: less_induct)
  case less
  show ?case
  proof (cases "left s = 0")
    case True
    with less.prems show ?thesis by auto
  next
    case False
    with progress [OF less.prems] obtain s1 where s1: "step s s1" "left s1 < left s" by auto
    from less.hyps [OF s1(2) inv_step [OF s1(1) less.prems]] obtain s' where
      "step\<^sup>*\<^sup>* s1 s'" "inv s'" "left s' = 0" by blast
    with s1(1) show ?thesis by (meson converse_rtranclp_into_rtranclp)
  qed
qed

end

end
