(* ===== verification/Data_Fifo.thy ===== *)
theory Data_Fifo
  imports Prelude "HOL-Library.Multiset"
begin

text \<open>
  \<^verbatim>\<open>data_fifo.c\<close>: a byte ring buffer behind a mutex.  \<open>head\<close> is where the next byte is
  put, \<open>tail\<close> where the next byte is taken, \<open>data_len\<close> how many bytes are stored.

  Every operation is modelled with its lock, its index arithmetic (\<open>int\<close> indices, an
  unsigned remainder, the conversion back to \<open>int\<close>) and its array accesses.  The lemmas
  show that on a well-formed FIFO no operation goes wrong and that it refines a bounded
  list: \<open>fifo_list\<close> is the abstraction, \<open>fifo_inv\<close> the representation invariant.
\<close>

subsection \<open>State and operations\<close>

record fifo =
  buffer :: "char list"
  buf_size :: "32 word"
  head :: int
  tail :: int
  data_len :: "32 word"
  rwlock :: mutex

text \<open>
  The two heap blocks of a FIFO, so that what is still allocated after a call can be
  stated.  The outcome of each \<open>calloc\<close> is an argument.
\<close>

datatype fifo_block = Fifo_struct | Fifo_buffer

definition fifo_alloc :: "bool \<Rightarrow> bool \<Rightarrow> 32 word \<Rightarrow> fifo option \<times> fifo_block list" where
  "fifo_alloc struct_ok buffer_ok len =
     (if \<not> struct_ok then (None, [])
      else if \<not> buffer_ok then (None, remove1 Fifo_struct [Fifo_struct])
      else (Some \<lparr>buffer = replicate (unat len) (CHR 0x00), buf_size = 0, head = 0, tail = 0,
                  data_len = 0, rwlock = Uninit\<rparr>, [Fifo_struct, Fifo_buffer]))"

definition fifo_free :: "fifo option \<Rightarrow> fifo_block list \<Rightarrow> fifo_block list" where
  "fifo_free f blocks =
     (case f of None \<Rightarrow> blocks
      | Some _ \<Rightarrow> remove1 Fifo_struct (remove1 Fifo_buffer blocks))"

definition init_data_fifo ::
    "bool \<Rightarrow> bool \<Rightarrow> 32 word \<Rightarrow> int \<times> fifo option \<times> fifo_block list" where
  "init_data_fifo struct_ok buffer_ok len =
     (case fifo_alloc struct_ok buffer_ok len of
        (None, blocks) \<Rightarrow> (-1, None, blocks)
      | (Some f, blocks) \<Rightarrow>
          (0, Some (f\<lparr>buf_size := len, data_len := 0, head := 0, tail := 0, rwlock := Unlocked\<rparr>),
           blocks))"

function fifo_put_loop :: "fifo \<Rightarrow> char list \<Rightarrow> 32 word \<Rightarrow> int \<Rightarrow> (int \<times> fifo) res" where
  "fifo_put_loop f data len i =
     (if (word_of_int i :: 32 word) < len then
        if data_len f = buf_size f then Inr (i, f)
        else
          bind_ok (rd_at data i) (\<lambda>c.
          bind_ok (wr_at (buffer f) (head f) c) (\<lambda>b.
          bind_ok (int_inc (head f)) (\<lambda>h.
          bind_ok (u_mod (word_of_int h) (buf_size f)) (\<lambda>h'.
          bind_ok (int_inc i) (\<lambda>i'.
            fifo_put_loop
              (f\<lparr>buffer := b, data_len := data_len f + 1, head := sint h'\<rparr>) data len i')))))
      else Inr (i, f))"
  by pat_completeness auto
termination
  by (relation "measure (\<lambda>(f, data, len, i). nat (INT_MAX - i))") (auto simp: int_inc_Inr)

definition fifo_put :: "fifo \<Rightarrow> char list \<Rightarrow> 32 word \<Rightarrow> (int \<times> fifo) res" where
  "fifo_put f data len =
     bind_ok (mutex_lock (rwlock f)) (\<lambda>l.
     bind_ok (fifo_put_loop (f\<lparr>rwlock := l\<rparr>) data len 0) (\<lambda>(i, f1).
     bind_ok (mutex_unlock (rwlock f1)) (\<lambda>u.
       Inr (i, f1\<lparr>rwlock := u\<rparr>))))"

function fifo_pop_loop ::
    "fifo \<Rightarrow> char list \<Rightarrow> 32 word \<Rightarrow> int \<Rightarrow> (int \<times> char list \<times> fifo) res" where
  "fifo_pop_loop f buf maxlen i =
     (if (word_of_int i :: 32 word) < maxlen then
        if data_len f = 0 then Inr (i, buf, f)
        else
          bind_ok (rd_at (buffer f) (tail f)) (\<lambda>c.
          bind_ok (int_inc (tail f)) (\<lambda>t.
          bind_ok (wr_at buf i c) (\<lambda>buf'.
          bind_ok (u_mod (word_of_int t) (buf_size f)) (\<lambda>t'.
          bind_ok (int_inc i) (\<lambda>i'.
            fifo_pop_loop (f\<lparr>data_len := data_len f - 1, tail := sint t'\<rparr>) buf' maxlen i')))))
      else Inr (i, buf, f))"
  by pat_completeness auto
termination
  by (relation "measure (\<lambda>(f, buf, maxlen, i). nat (INT_MAX - i))") (auto simp: int_inc_Inr)

definition fifo_pop :: "fifo \<Rightarrow> char list \<Rightarrow> 32 word \<Rightarrow> (int \<times> char list \<times> fifo) res" where
  "fifo_pop f buf maxlen =
     bind_ok (mutex_lock (rwlock f)) (\<lambda>l.
     bind_ok (fifo_pop_loop (f\<lparr>rwlock := l\<rparr>) buf maxlen 0) (\<lambda>(i, buf1, f1).
     bind_ok (mutex_unlock (rwlock f1)) (\<lambda>u.
       Inr (i, buf1, f1\<lparr>rwlock := u\<rparr>))))"

definition is_fifo_full :: "fifo option \<Rightarrow> (int \<times> fifo option) res" where
  "is_fifo_full fp =
     (case fp of None \<Rightarrow> Inr (-1, None)
      | Some f \<Rightarrow>
          bind_ok (mutex_lock (rwlock f)) (\<lambda>l.
          bind_ok (Inr (if data_len f = buf_size f then 1 else 0)) (\<lambda>ret.
          bind_ok (mutex_unlock l) (\<lambda>u.
            Inr (ret, Some (f\<lparr>rwlock := u\<rparr>))))))"

definition is_fifo_empty :: "fifo option \<Rightarrow> (int \<times> fifo option) res" where
  "is_fifo_empty fp =
     (case fp of None \<Rightarrow> Inr (-1, None)
      | Some f \<Rightarrow>
          bind_ok (mutex_lock (rwlock f)) (\<lambda>l.
          bind_ok (Inr (if data_len f = 0 then 1 else 0)) (\<lambda>ret.
          bind_ok (mutex_unlock l) (\<lambda>u.
            Inr (ret, Some (f\<lparr>rwlock := u\<rparr>))))))"

subsection \<open>Abstraction and representation invariant\<close>

definition fifo_cap :: "fifo \<Rightarrow> nat" where
  "fifo_cap f = unat (buf_size f)"

definition fifo_count :: "fifo \<Rightarrow> nat" where
  "fifo_count f = unat (data_len f)"

definition fifo_list :: "fifo \<Rightarrow> char list" where
  "fifo_list f =
     map (\<lambda>k. buffer f ! ((nat (tail f) + k) mod fifo_cap f)) [0..<fifo_count f]"

text \<open>
  The invariant bounds the capacity by \<open>INT_MAX\<close>: \<open>head\<close> and \<open>tail\<close> are of type \<open>int\<close>
  and reach the capacity just before the remainder is taken.
\<close>

definition fifo_wf :: "fifo \<Rightarrow> bool" where
  "fifo_wf f \<longleftrightarrow>
     length (buffer f) = fifo_cap f \<and> int (fifo_cap f) \<le> INT_MAX \<and>
     fifo_count f \<le> fifo_cap f \<and>
     0 \<le> tail f \<and> nat (tail f) < max 1 (fifo_cap f) \<and>
     head f = int ((nat (tail f) + fifo_count f) mod fifo_cap f)"

definition fifo_inv :: "fifo \<Rightarrow> bool" where
  "fifo_inv f \<longleftrightarrow> fifo_wf f \<and> rwlock f = Unlocked"

definition fifo_room :: "fifo \<Rightarrow> bool" where
  "fifo_room f \<longleftrightarrow> fifo_count f < fifo_cap f"

text \<open>One byte in, one byte out, as a client of the FIFO calls it.\<close>

definition put_byte :: "char \<Rightarrow> fifo \<Rightarrow> (bool \<times> fifo) res" where
  "put_byte c f = bind_ok (fifo_put f [c] 1) (\<lambda>(n, f'). Inr (n = 1, f'))"

definition get_byte :: "fifo \<Rightarrow> (char option \<times> fifo) res" where
  "get_byte f =
     bind_ok (fifo_pop f [CHR 0x00] 1) (\<lambda>(n, buf, f').
       Inr (if n = 1 then Some (buf ! 0) else None, f'))"

declare fifo_put_loop.simps [simp del] fifo_pop_loop.simps [simp del]

subsection \<open>Index arithmetic\<close>

lemma ring_slot_neq:
  fixes t :: nat
  assumes "k < n" and "n < s"
  shows "(t + k) mod s \<noteq> (t + n) mod s"
proof
  assume "(t + k) mod s = (t + n) mod s"
  then have "s dvd (t + n) - (t + k)"
    using assms by (metis add_le_cancel_left less_imp_le mod_eq_dvd_iff_nat)
  with assms show False by (auto dest: dvd_imp_le)
qed

text \<open>
  One increment of an index that is inside the buffer: the remainder is taken on
  unsigned values and converted back, and the result is the next index modulo the size.
\<close>

lemma next_index:
  assumes "0 \<le> h" and "h < int (unat sz)" and "int (unat sz) \<le> INT_MAX"
  shows "u_mod (word_of_int (h + 1)) sz = Inr (word_of_int (h + 1) mod sz)"
    and "sint ((word_of_int (h + 1) :: 32 word) mod sz) = int (Suc (nat h) mod unat sz)"
proof -
  from assms have "sz \<noteq> 0" by auto
  then show "u_mod (word_of_int (h + 1)) sz = Inr (word_of_int (h + 1) mod sz)"
    by (simp only: u_mod_def if_False)
  let ?r = "(word_of_int (h + 1) :: 32 word) mod sz"
  from assms have "unat (word_of_int (h + 1) :: 32 word) = nat (h + 1)"
    by (intro unat_of_int) auto
  with assms(1) have r: "unat ?r = Suc (nat h) mod unat sz"
    by (simp only: unat_mod Suc_nat_eq_nat_zadd1 add.commute)
  also have "\<dots> < unat sz" using assms by (intro mod_less_divisor) linarith
  finally have "int (unat ?r) \<le> INT_MAX" using assms by linarith
  then have "sint ?r = int (unat ?r)" by (rule sint_of_small)
  with r show "sint ?r = int (Suc (nat h) mod unat sz)" by (simp only:)
qed

lemma count_inc:
  assumes "fifo_wf f" and "data_len f \<noteq> buf_size f"
  shows "unat (data_len f + 1) = Suc (fifo_count f)" and "fifo_count f < fifo_cap f"
proof -
  from assms show lt: "fifo_count f < fifo_cap f"
    unfolding fifo_wf_def fifo_count_def fifo_cap_def
    using word_unat_eq_iff by (metis le_neq_implies_less)
  show "unat (data_len f + 1) = Suc (fifo_count f)" 
   using lt unsigned_less [where 'a = nat and w = "buf_size f"] unfolding fifo_count_def fifo_cap_def
   by (simp add: unat_word_ariths)
qed
lemma count_dec:
  assumes "data_len f \<noteq> 0"
  shows "unat (data_len f - 1) = fifo_count f - 1" "0 < fifo_count f"
  using assms by (simp_all add: fifo_count_def unat_gt_0 measure_unat unat_minus_one)

subsection \<open>One iteration of each loop\<close>

lemma put_step:
  fixes f :: fifo and c :: char
  assumes wf: "fifo_wf f" and nf: "data_len f \<noteq> buf_size f"
  defines "f' \<equiv> f\<lparr>buffer := (buffer f)[nat (head f) := c], data_len := data_len f + 1,
                  head := sint ((word_of_int (head f + 1) :: 32 word) mod buf_size f)\<rparr>"
  shows "0 \<le> head f" "head f < int (fifo_cap f)" "head f < int (length (buffer f))"
    and "fifo_wf f'" "fifo_list f' = fifo_list f @ [c]" "fifo_count f' = Suc (fifo_count f)"
proof -
  let ?s = "fifo_cap f" and ?n = "fifo_count f" and ?t = "nat (tail f)"
  note n = count_inc [OF wf nf]
  from wf have h: "head f = int ((?t + ?n) mod ?s)" and len: "length (buffer f) = ?s"
    and cap: "int ?s \<le> INT_MAX" and t: "0 \<le> tail f" "?t < max 1 ?s"
    by (auto simp: fifo_wf_def)
  show h0: "0 \<le> head f" and hs: "head f < int ?s" and "head f < int (length (buffer f))"
    using h n(2) len by auto
  from next_index(2) [OF h0, of "buf_size f"] hs cap
  have h': "head f' = int (Suc ((?t + ?n) mod ?s) mod ?s)"
    by (simp add: f'_def fifo_cap_def h)
  have [simp]: "fifo_cap f' = ?s" "tail f' = tail f" "buffer f' = (buffer f)[nat (head f) := c]"
    by (simp_all add: f'_def fifo_cap_def)
  show c': "fifo_count f' = Suc ?n" using n(1) by (simp add: f'_def fifo_count_def)
  show "fifo_wf f'"
    using wf n(2) unfolding fifo_wf_def c' h' by (simp add: mod_Suc_eq)
  have "map (\<lambda>k. buffer f' ! ((?t + k) mod ?s)) [0..<?n] = fifo_list f"
    unfolding fifo_list_def
  proof (rule map_cong)
    fix k assume "k \<in> set [0..<?n]"
    then have "(?t + k) mod ?s \<noteq> nat (head f)" using ring_slot_neq n(2) h by simp
    then show "buffer f' ! ((?t + k) mod ?s) = buffer f ! ((?t + k) mod ?s)" by simp
  qed simp
  moreover have "buffer f' ! ((?t + ?n) mod ?s) = c" using h n(2) len by simp
  ultimately show "fifo_list f' = fifo_list f @ [c]"
    unfolding fifo_list_def [of f'] c' by simp
qed

lemma pop_step:
  fixes f :: fifo
  assumes wf: "fifo_wf f" and ne: "data_len f \<noteq> 0"
  defines "f' \<equiv> f\<lparr>data_len := data_len f - 1,
                  tail := sint ((word_of_int (tail f + 1) :: 32 word) mod buf_size f)\<rparr>"
  shows "0 \<le> tail f" "tail f < int (fifo_cap f)" "tail f < int (length (buffer f))"
    and "fifo_wf f'" "fifo_list f = buffer f ! nat (tail f) # fifo_list f'"
    and "fifo_count f = Suc (fifo_count f')"
proof -
  let ?s = "fifo_cap f" and ?n = "fifo_count f" and ?t = "nat (tail f)"
  note n = count_dec [OF ne]
  from wf n(2) have h: "head f = int ((?t + ?n) mod ?s)" and len: "length (buffer f) = ?s"
    and cap: "int ?s \<le> INT_MAX" and t: "0 \<le> tail f" "?t < ?s" "?n \<le> ?s"
    by (auto simp: fifo_wf_def)
  then show t0: "0 \<le> tail f" and ts: "tail f < int ?s" and "tail f < int (length (buffer f))"
    by auto
  from next_index(2) [OF t0, of "buf_size f"] ts cap
  have t': "tail f' = int (Suc ?t mod ?s)" by (simp add: f'_def fifo_cap_def)
  have [simp]: "fifo_cap f' = ?s" "head f' = head f" "buffer f' = buffer f"
    by (simp_all add: f'_def fifo_cap_def)
  show c': "?n = Suc (fifo_count f')" using n by (simp add: f'_def fifo_count_def)
  have shift: "(Suc ?t mod ?s + k) mod ?s = (?t + Suc k) mod ?s" for k
    by (simp add: mod_add_left_eq)
  have "Suc ?t mod ?s < ?s" using t by simp
  then show "fifo_wf f'"
    using h t len cap shift [of "fifo_count f'"] unfolding fifo_wf_def c' t' by auto
  show "fifo_list f = buffer f ! ?t # fifo_list f'"
    unfolding fifo_list_def c' using t shift
    by (simp add: t' upt_conv_Cons map_Suc_upt [symmetric] del: upt_Suc)
qed

subsection \<open>The loops\<close>

lemma fifo_put_loop_ok:
  assumes "fifo_wf f" and "0 \<le> i" and "i + int (fifo_cap f - fifo_count f) \<le> INT_MAX"
    and "n = min (unat len - nat i) (fifo_cap f - fifo_count f)"
    and "nat i + n \<le> length data"
  shows "\<exists>f'. fifo_put_loop f data len i = Inr (i + int n, f') \<and> fifo_wf f' \<and>
           fifo_list f' = fifo_list f @ take n (drop (nat i) data) \<and>
           buf_size f' = buf_size f \<and> rwlock f' = rwlock f"
  using assms
proof (induction n arbitrary: f i)
  case 0
  show ?case
  proof (cases "data_len f = buf_size f")
    case True
    then show ?thesis by (subst fifo_put_loop.simps) (simp add: 0(1))
  next
    case False
    from count_inc(2) [OF 0(1) False] 0(4) have "\<not> nat i < unat len" by arith
    moreover from 0(3) have "i \<le> INT_MAX" by simp
    ultimately have "\<not> (word_of_int i :: 32 word) < len"
      using int_less_unsigned 0(2) by blast
    then show ?thesis by (subst fifo_put_loop.simps) (simp add: 0(1))
  qed
next
  case (Suc n)
  then have less: "nat i < unat len" "fifo_count f < fifo_cap f" and i: "i < INT_MAX"
    by linarith+
  then have g: "(word_of_int i :: 32 word) < len" and nf: "data_len f \<noteq> buf_size f"
    using int_less_unsigned Suc.prems(2) by (auto simp: fifo_cap_def fifo_count_def)
  let ?c = "data ! nat i"
  let ?h = "(word_of_int (head f + 1) :: 32 word) mod buf_size f"
  let ?f = "f\<lparr>buffer := (buffer f)[nat (head f) := ?c], data_len := data_len f + 1,
                  head := sint ?h\<rparr>"
  note hd = put_step(1-3) [OF Suc.prems(1) nf]
  note st = put_step(4-6) [OF Suc.prems(1) nf, where c = ?c]
  from Suc.prems(1) have cap: "int (unat (buf_size f)) \<le> INT_MAX"
    by (simp add: fifo_wf_def fifo_cap_def)
  from hd(1,2) cap have "head f < INT_MAX" by (simp add: fifo_cap_def)
  moreover have "u_mod (word_of_int (head f + 1)) (buf_size f) = Inr ?h"
    using next_index(1) [OF hd(1) _ cap] hd(2) by (simp add: fifo_cap_def)
  moreover have "i < int (length data)" using Suc.prems by linarith
  ultimately have unf: "fifo_put_loop f data len i = fifo_put_loop ?f data len (i + 1)"
    using g nf hd(1,3) Suc.prems(2) i
    by (subst fifo_put_loop.simps) (simp add: rd_at_ok wr_at_ok int_inc_ok)
  have capf: "fifo_cap ?f = fifo_cap f" by (simp add: fifo_cap_def)
  have "\<exists>f'. fifo_put_loop ?f data len (i + 1) = Inr (i + 1 + int n, f') \<and> fifo_wf f' \<and>
      fifo_list f' = fifo_list ?f @ take n (drop (nat (i + 1)) data) \<and>
      buf_size f' = buf_size ?f \<and> rwlock f' = rwlock ?f"
  proof (rule Suc.IH [OF st(1)])
    show "0 \<le> i + 1" using Suc.prems by simp
    show "i + 1 + int (fifo_cap ?f - fifo_count ?f) \<le> INT_MAX"
      using Suc.prems unfolding st(3) capf by linarith
    show "n = min (unat len - nat (i + 1)) (fifo_cap ?f - fifo_count ?f)"
      using Suc.prems(2,4) unfolding st(3) capf by (simp add: nat_add_distrib)
    show "nat (i + 1) + n \<le> length data" using Suc.prems(2,5) by (simp add: nat_add_distrib)
  qed
  moreover have "take (Suc n) (drop (nat i) data) = ?c # take n (drop (nat (i + 1)) data)"
    using Suc.prems(2,5) by (simp add: nat_add_distrib Cons_nth_drop_Suc [symmetric])
  ultimately show ?case unfolding unf using st(2) by auto
qed

lemma fifo_pop_loop_ok:
  assumes "fifo_wf f" and "0 \<le> i" and "i + int (fifo_count f) \<le> INT_MAX"
    and "n = min (unat maxlen - nat i) (fifo_count f)"
    and "nat i + n \<le> length buf"
  shows "\<exists>f'. fifo_pop_loop f buf maxlen i =
             Inr (i + int n, take (nat i) buf @ take n (fifo_list f) @ drop (nat i + n) buf, f') \<and>
           fifo_wf f' \<and> fifo_list f' = drop n (fifo_list f) \<and>
           buf_size f' = buf_size f \<and> rwlock f' = rwlock f"
  using assms
proof (induction n arbitrary: f i buf)
  case 0
  show ?case
  proof (cases "data_len f = 0")
    case True
    then show ?thesis by (subst fifo_pop_loop.simps) (simp add: 0(1))
  next
    case False
    from count_dec(2) [OF False] 0(4) have "\<not> nat i < unat maxlen" by arith
    moreover from 0(3) have "i \<le> INT_MAX" by simp
    ultimately have "\<not> (word_of_int i :: 32 word) < maxlen"
      using int_less_unsigned 0(2) by blast
    then show ?thesis by (subst fifo_pop_loop.simps) (simp add: 0(1))
  qed
next
  case (Suc n)
  then have less: "nat i < unat maxlen" "0 < fifo_count f" and i: "i < INT_MAX"
    by linarith+
  then have g: "(word_of_int i :: 32 word) < maxlen" and ne: "data_len f \<noteq> 0"
    using int_less_unsigned Suc.prems(2) by (auto simp: fifo_count_def)
  let ?c = "buffer f ! nat (tail f)"
  let ?t = "(word_of_int (tail f + 1) :: 32 word) mod buf_size f"
  let ?f = "f\<lparr>data_len := data_len f - 1, tail := sint ?t\<rparr>"
  let ?buf = "buf[nat i := ?c]"
  note st = pop_step [OF Suc.prems(1) ne]
  from Suc.prems(1) have cap: "int (unat (buf_size f)) \<le> INT_MAX"
    by (simp add: fifo_wf_def fifo_cap_def)
  from st(1,2) cap have "tail f < INT_MAX" by (simp add: fifo_cap_def)
  moreover have "u_mod (word_of_int (tail f + 1)) (buf_size f) = Inr ?t"
    using next_index(1) [OF st(1) _ cap] st(2) by (simp add: fifo_cap_def)
  moreover have ib: "i < int (length buf)" using Suc.prems by linarith
  ultimately have unf: "fifo_pop_loop f buf maxlen i = fifo_pop_loop ?f ?buf maxlen (i + 1)"
    using g ne st(1,3) Suc.prems(2) i
    by (subst fifo_pop_loop.simps) (simp add: rd_at_ok wr_at_ok int_inc_ok)
  have "\<exists>f'. fifo_pop_loop ?f ?buf maxlen (i + 1) = Inr (i + 1 + int n,
      take (nat (i + 1)) ?buf @ take n (fifo_list ?f) @ drop (nat (i + 1) + n) ?buf, f') \<and>
      fifo_wf f' \<and> fifo_list f' = drop n (fifo_list ?f) \<and>
      buf_size f' = buf_size ?f \<and> rwlock f' = rwlock ?f"
  proof (rule Suc.IH [OF st(4)])
    show "0 \<le> i + 1" using Suc.prems by simp
    show "i + 1 + int (fifo_count ?f) \<le> INT_MAX"
      using Suc.prems st(6) by linarith
    show "n = min (unat maxlen - nat (i + 1)) (fifo_count ?f)"
      using Suc.prems(2,4) st(6) by (simp add: nat_add_distrib)
    show "nat (i + 1) + n \<le> length ?buf" using Suc.prems(2,5) by (simp add: nat_add_distrib)
  qed
  moreover have "take (nat (i + 1)) ?buf = take (nat i) buf @ [?c]"
    using Suc.prems(2) ib by (simp add: nat_add_distrib take_Suc_conv_app_nth)
  moreover have "drop (nat (i + 1) + n) ?buf = drop (nat i + Suc n) buf"
    using Suc.prems(2) by (simp add: nat_add_distrib)
  ultimately show ?case unfolding unf using st(5) by auto
qed

subsection \<open>The operations\<close>

lemma fifo_wf_lock [simp]:
  "fifo_wf (f\<lparr>rwlock := l\<rparr>) = fifo_wf f" "fifo_cap (f\<lparr>rwlock := l\<rparr>) = fifo_cap f"
  "fifo_count (f\<lparr>rwlock := l\<rparr>) = fifo_count f" "fifo_list (f\<lparr>rwlock := l\<rparr>) = fifo_list f"
  by (simp_all add: fifo_wf_def fifo_cap_def fifo_count_def fifo_list_def)

lemma length_fifo_list [simp]: "length (fifo_list f) = fifo_count f"
  by (simp add: fifo_list_def)

lemma fifo_free_space_le: "fifo_wf f \<Longrightarrow> int (fifo_cap f - fifo_count f) \<le> INT_MAX"
  by (auto simp: fifo_wf_def)

lemma fifo_put_ok:
  assumes "fifo_inv f" and "n = min (unat len) (fifo_cap f - fifo_count f)"
    and "n \<le> length data"
  shows "\<exists>f'. fifo_put f data len = Inr (int n, f') \<and> fifo_inv f' \<and>
           fifo_list f' = fifo_list f @ take n data \<and> fifo_cap f' = fifo_cap f"
proof -
  from assms(1) have wf: "fifo_wf f" and l: "rwlock f = Unlocked" by (simp_all add: fifo_inv_def)
  have "\<exists>f'. fifo_put_loop (f\<lparr>rwlock := Locked\<rparr>) data len 0 = Inr (0 + int n, f') \<and> fifo_wf f' \<and>
      fifo_list f' = fifo_list (f\<lparr>rwlock := Locked\<rparr>) @ take n (drop (nat 0) data) \<and>
      buf_size f' = buf_size (f\<lparr>rwlock := Locked\<rparr>) \<and> rwlock f' = rwlock (f\<lparr>rwlock := Locked\<rparr>)"
    using assms(2,3) fifo_free_space_le [OF wf] by (intro fifo_put_loop_ok) (simp_all add: wf)
  then show ?thesis
    by (auto simp: fifo_put_def l fifo_inv_def fifo_cap_def)
qed

lemma fifo_pop_ok:
  assumes "fifo_inv f" and "n = min (unat maxlen) (fifo_count f)" and "n \<le> length buf"
  shows "\<exists>f'. fifo_pop f buf maxlen = Inr (int n, take n (fifo_list f) @ drop n buf, f') \<and>
           fifo_inv f' \<and> fifo_list f' = drop n (fifo_list f) \<and> fifo_cap f' = fifo_cap f"
proof -
  from assms(1) have wf: "fifo_wf f" and l: "rwlock f = Unlocked" by (simp_all add: fifo_inv_def)
  then have "int (fifo_count f) \<le> INT_MAX" by (simp add: fifo_wf_def)
  then have "\<exists>f'. fifo_pop_loop (f\<lparr>rwlock := Locked\<rparr>) buf maxlen 0 =
        Inr (0 + int n, take (nat 0) buf @ take n (fifo_list (f\<lparr>rwlock := Locked\<rparr>)) @
             drop (nat 0 + n) buf, f') \<and> fifo_wf f' \<and>
      fifo_list f' = drop n (fifo_list (f\<lparr>rwlock := Locked\<rparr>)) \<and>
      buf_size f' = buf_size (f\<lparr>rwlock := Locked\<rparr>) \<and> rwlock f' = rwlock (f\<lparr>rwlock := Locked\<rparr>)"
    using assms(2,3) by (intro fifo_pop_loop_ok) (simp_all add: wf)
  then show ?thesis
    by (auto simp: fifo_pop_def l fifo_inv_def fifo_cap_def)
qed

lemma fifo_room_iff: "fifo_inv f \<Longrightarrow> fifo_room f \<longleftrightarrow> fifo_count f \<noteq> fifo_cap f"
  by (auto simp: fifo_room_def fifo_inv_def fifo_wf_def)

lemma init_fifo_inv:
  assumes "int (unat len) \<le> INT_MAX"
    and "init_data_fifo True True len = (r, Some f, blocks)"
  shows "fifo_inv f" and "fifo_list f = []" and "fifo_cap f = unat len"
  using assms
  by (auto simp: init_data_fifo_def fifo_alloc_def fifo_inv_def fifo_wf_def fifo_cap_def
      fifo_count_def fifo_list_def)

subsection \<open>The FIFO is a queue of bytes\<close>

lemma put_byte_law:
  assumes "fifo_inv f"
  shows "\<exists>f'. put_byte c f = Inr (fifo_room f, f') \<and> fifo_inv f' \<and>
           fifo_list f' = (if fifo_room f then fifo_list f @ [c] else fifo_list f)"
proof -
  let ?n = "min (unat (1 :: 32 word)) (fifo_cap f - fifo_count f)"
  have n: "?n = (if fifo_room f then 1 else 0)" by (auto simp: fifo_room_def)
  have "?n \<le> length [c]" by simp
  from fifo_put_ok [OF assms refl this] n show ?thesis
    by (auto simp: put_byte_def)
qed

lemma get_byte_law:
  assumes "fifo_inv f"
  shows "\<exists>f'. get_byte f = Inr (case fifo_list f of [] \<Rightarrow> None | c # _ \<Rightarrow> Some c, f') \<and>
           fifo_inv f' \<and> fifo_list f' = tl (fifo_list f)"
proof -
  let ?n = "min (unat (1 :: 32 word)) (fifo_count f)"
  have n: "?n = (if fifo_list f = [] then 0 else 1)"
    using length_fifo_list [of f] by (cases "fifo_list f") auto
  have "?n \<le> length [CHR 0x00]" by simp
  from fifo_pop_ok [OF assms refl this] obtain f' where
    "fifo_pop f [CHR 0x00] 1 = Inr (int ?n, take ?n (fifo_list f) @ drop ?n [CHR 0x00], f')"
    "fifo_inv f'" "fifo_list f' = drop ?n (fifo_list f)" by blast
  with n show ?thesis
    by (cases "fifo_list f"; intro exI [of _ f']) (simp_all add: get_byte_def)
qed

interpretation bytes: fifo_service fifo_inv fifo_list fifo_room "\<lambda>_. True" put_byte get_byte
proof unfold_locales
  show "fifo_inv f \<Longrightarrow> fifo_room f \<Longrightarrow>
      \<exists>f'. put_byte c f = Inr (True, f') \<and> fifo_inv f' \<and> fifo_list f' = fifo_list f @ [c]"
    and "fifo_inv f \<Longrightarrow> \<not> fifo_room f \<Longrightarrow>
      \<exists>f'. put_byte c f = Inr (False, f') \<and> fifo_inv f' \<and> fifo_list f' = fifo_list f" for f c
    using put_byte_law [of f c] by simp_all
qed (rule get_byte_law)

section \<open>What the FIFO promises\<close>

text \<open>C17: \<open>fifo_put\<close> stores as many bytes as fit, in order, and returns their number; it
  never overwrites a stored byte and leaves the lock free.\<close>

theorem fifo_put_appends:
  assumes "fifo_inv f" and "min (unat len) (fifo_cap f - length (fifo_list f)) \<le> length src"
  shows "\<exists>f'. fifo_put f src len =
       Inr (int (min (unat len) (fifo_cap f - length (fifo_list f))), f') \<and> fifo_inv f' \<and>
     fifo_list f' = fifo_list f @ take (min (unat len) (fifo_cap f - length (fifo_list f))) src \<and>
     fifo_cap f' = fifo_cap f"
  using fifo_put_ok [OF assms(1) refl assms(2) [unfolded length_fifo_list]] by simp

text \<open>C18: \<open>fifo_pop\<close> moves the oldest bytes, at most \<open>maxlen\<close> of them, to the start of the
  caller's buffer, leaves the rest of that buffer alone, and returns their number.\<close>

theorem fifo_pop_takes_oldest:
  assumes "fifo_inv f" and "min (unat maxlen) (length (fifo_list f)) \<le> length buf"
  shows "\<exists>f'. fifo_pop f buf maxlen =
       Inr (int (min (unat maxlen) (length (fifo_list f))),
            take (unat maxlen) (fifo_list f) @
            drop (min (unat maxlen) (length (fifo_list f))) buf, f') \<and> fifo_inv f' \<and>
     fifo_list f' = drop (unat maxlen) (fifo_list f) \<and> fifo_cap f' = fifo_cap f"
proof -
  let ?n = "min (unat maxlen) (fifo_count f)"
  have "take ?n (fifo_list f) = take (unat maxlen) (fifo_list f)"
    "drop ?n (fifo_list f) = drop (unat maxlen) (fifo_list f)" by (simp_all add: min_def)
  with fifo_pop_ok [OF assms(1) refl assms(2) [unfolded length_fifo_list]] show ?thesis by simp
qed

lemma put_byte_cap:
  assumes "put_byte c f = Inr (b, f')" and "fifo_inv f"
  shows "fifo_inv f'" and "fifo_cap f' = fifo_cap f"
  using assms(1) fifo_put_ok [OF assms(2) refl, of 1 "[c]"] by (auto simp: put_byte_def)

lemma get_byte_cap:
  assumes "get_byte f = Inr (b, f')" and "fifo_inv f"
  shows "fifo_inv f'" and "fifo_cap f' = fifo_cap f"
  using assms(1) fifo_pop_ok [OF assms(2) refl, of 1 "[CHR 0x00]"] by (auto simp: get_byte_def)

lemma script_cap:
  "run_queue put_byte get_byte ops f = Inr (ins, outs, f') \<Longrightarrow> fifo_inv f \<Longrightarrow> fifo_cap f' = fifo_cap f"
proof (induction ops arbitrary: f ins outs)
  case (Cons op ops)
  then show ?case
    by (cases op) (auto dest!: Cons.IH simp: put_byte_cap get_byte_cap)
qed simp

text \<open>C19: from a freshly initialised FIFO, whatever sequence of single-byte puts and gets is
  performed, nothing goes wrong, and the bytes taken out followed by the bytes still stored
  are the bytes accepted, in the order in which they were put.\<close>

theorem fifo_any_script:
  assumes "int (unat len) \<le> INT_MAX" and "init_data_fifo True True len = (r, Some f, blocks)"
  shows "\<exists>ins outs f'. run_queue put_byte get_byte ops f = Inr (ins, outs, f') \<and> fifo_inv f' \<and>
     ins = outs @ fifo_list f' \<and> length (fifo_list f') \<le> unat len"
proof -
  note I = init_fifo_inv [OF assms]
  from bytes.run_fifo [OF I(1), of ops] obtain ins outs f' where
    r: "run_queue put_byte get_byte ops f = Inr (ins, outs, f')" "fifo_inv f'" "outs @ fifo_list f' = ins"
    by (auto simp: I(2))
  have "length (fifo_list f') \<le> unat len"
    using r(2) script_cap [OF r(1) I(1)] I(3) by (simp add: fifo_inv_def fifo_wf_def)
  with r show ?thesis by blast
qed

text \<open>\<open>init_data_fifo\<close> either succeeds or gives back everything it has allocated, and
  \<open>fifo_free\<close> after it leaves no block behind.\<close>

theorem fifo_init_free_balanced:
  "\<exists>r f blocks. init_data_fifo struct_ok buffer_ok len = (r, f, blocks) \<and>
     (if struct_ok \<and> buffer_ok then r = 0 \<and> f \<noteq> None \<and> mset blocks = {#Fifo_struct, Fifo_buffer#}
      else r = -1 \<and> f = None \<and> blocks = []) \<and>
     fifo_free f blocks = []"
  by (simp add: init_data_fifo_def fifo_alloc_def fifo_free_def)

text \<open>The two tests answer for the abstract queue, and change nothing.\<close>

theorem fifo_tests_exact:
  assumes "fifo_inv f"
  shows "is_fifo_full (Some f) = Inr (if length (fifo_list f) = fifo_cap f then 1 else 0, Some f) \<and>
     is_fifo_empty (Some f) = Inr (if fifo_list f = [] then 1 else 0, Some f)"
proof
  from assms have l: "rwlock f = Unlocked" by (simp add: fifo_inv_def)
  then have u: "f\<lparr>rwlock := Unlocked\<rparr> = f" by (cases f) simp
  have "data_len f = buf_size f \<longleftrightarrow> length (fifo_list f) = fifo_cap f"
    by (simp add: fifo_cap_def fifo_count_def word_unat_eq_iff)
  then show "is_fifo_full (Some f) = Inr (if length (fifo_list f) = fifo_cap f then 1 else 0, Some f)"
    using l u by (simp add: is_fifo_full_def)
  have "data_len f = 0 \<longleftrightarrow> fifo_list f = []"
    by (simp add: fifo_list_def fifo_count_def unat_eq_zero)
  then show "is_fifo_empty (Some f) = Inr (if fifo_list f = [] then 1 else 0, Some f)"
    using l u by (simp add: is_fifo_empty_def)
qed

subsection \<open>The properties at concrete inputs\<close>

text \<open>Four bytes of room, two of them used, wrapped around the end of the buffer.\<close>

definition demo_fifo :: fifo where
  "demo_fifo = \<lparr>buffer = ''b__a'', buf_size = 4, head = 1, tail = 3, data_len = 2, rwlock = Unlocked\<rparr>"

lemma demo_fifo_inv: "fifo_inv demo_fifo" "fifo_list demo_fifo = ''ab''" "fifo_cap demo_fifo = 4"
  by (simp_all add: demo_fifo_def fifo_inv_def fifo_wf_def fifo_cap_def fifo_count_def fifo_list_def
      INT_MAX_def upt_conv_Cons)

lemma fifo_put_appends_witness:
  "\<exists>f'. fifo_put demo_fifo ''xyz'' 3 = Inr (2, f') \<and> fifo_list f' = ''abxy''"
proof -
  have n: "min (unat (3 :: 32 word)) (fifo_cap demo_fifo - length (fifo_list demo_fifo)) = 2"
    by (simp add: demo_fifo_inv)
  have "take 2 ''xyz'' = ''xy''" by (simp add: numeral_2_eq_2)
  then show ?thesis
    using fifo_put_appends [OF demo_fifo_inv(1), of 3 "''xyz''"] unfolding n
    by (auto simp: demo_fifo_inv)
qed

lemma fifo_pop_takes_oldest_witness:
  "\<exists>f'. fifo_pop demo_fifo ''....'' 1 = Inr (1, ''a...'', f') \<and> fifo_list f' = ''b''"
  using fifo_pop_takes_oldest [OF demo_fifo_inv(1), of 1 "''....''"] by (auto simp: demo_fifo_inv)

lemma fifo_any_script_witness:
  "\<exists>r f blocks ins outs f'. init_data_fifo True True 1 = (r, Some f, blocks) \<and>
     run_queue put_byte get_byte [Put CHR ''a'', Put CHR ''b'', Get] f = Inr (ins, outs, f') \<and>
     ins = outs @ fifo_list f' \<and> length (fifo_list f') \<le> 1"
proof -
  obtain r f blocks where i: "init_data_fifo True True 1 = (r, Some f, blocks)"
    by (simp add: init_data_fifo_def fifo_alloc_def)
  with fifo_any_script [of 1 r f blocks "[Put CHR ''a'', Put CHR ''b'', Get]"] show ?thesis
    by (fastforce simp: INT_MAX_def simp del: run_queue.simps)
qed

lemma fifo_tests_exact_witness:
  "is_fifo_full (Some demo_fifo) = Inr (0, Some demo_fifo) \<and>
   is_fifo_empty (Some demo_fifo) = Inr (0, Some demo_fifo)"
  using fifo_tests_exact [OF demo_fifo_inv(1)] by (simp add: demo_fifo_inv)

end
