(* ===== verification/Fifo_Graph.thy ===== *)
theory Fifo_Graph
  imports Data_Fifo
begin

text \<open>
  \<open>print_graph\<close> of \<^verbatim>\<open>data_fifo.c\<close>: a picture of the buffer in rows of 64 bytes, with marks
  above and below for the two indices.  The result is what is printed.
\<close>

definition HORIZON :: nat where "HORIZON = 64"

definition hex_digit :: "nat \<Rightarrow> char" where
  "hex_digit d = (if d < 10 then char_of (48 + d) else char_of (87 + d))"

definition hex_byte :: "char \<Rightarrow> string" where
  \<comment> \<open>the conversion \<open>"|%02hhx"\<close>\<close>
  "hex_byte c = ''|'' @ [hex_digit (of_char c div 16), hex_digit (of_char c mod 16)]"

definition marker_row :: "char \<Rightarrow> int \<Rightarrow> int \<Rightarrow> string" where
  \<comment> \<open>64 cells from counter \<open>cnt\<close> on, with a mark where the counter is \<open>pos\<close>\<close>
  "marker_row mark cnt pos =
     concat (map (\<lambda>j. '' '' @ [if cnt + int j = pos then mark else CHR '' ''] @ '' '') [0..<HORIZON]) @ [CHR 0x0A]"

definition rule_row :: string where
  "rule_row = concat (replicate HORIZON ''==='') @ [CHR 0x0A]"

fun data_row :: "nat \<Rightarrow> char list \<Rightarrow> int \<Rightarrow> (string \<times> int) res" where
  \<comment> \<open>the rounds left, the buffer and \<open>i\<close>\<close>
  "data_row 0 linedata i = Inr ([CHR 0x0A], i)"
| "data_row (Suc k) linedata i =
     bind_ok (rd_at linedata i) (\<lambda>c.
     bind_ok (int_inc i) (\<lambda>i'.
     bind_ok (data_row k linedata i') (\<lambda>(s, i'').
       Inr (hex_byte c @ s, i''))))"

text \<open>
  The four counters of the marks go up together, 64 in each row; every row advances \<open>i\<close>, and
  \<open>i\<close> cannot pass the largest \<open>int\<close>.
\<close>

lemma data_row_advances: "data_row k b i = Inr (s, i') \<Longrightarrow> i' = i + int k"
proof (induction k arbitrary: i s)
  case (Suc k)
  then obtain s' where "data_row k b (i + 1) = Inr (s', i')" by (auto simp: int_inc_Inr)
  from Suc.IH [OF this] show ?case by simp
qed simp

function graph_rows :: "fifo \<Rightarrow> int \<Rightarrow> int \<Rightarrow> int \<Rightarrow> string res" where
  "graph_rows f len i cnt =
     (if i < len then
        bind_ok (data_row HORIZON (buffer f) i) (\<lambda>(s, i').
        bind_ok (graph_rows f len i' (cnt + int HORIZON)) (\<lambda>rest.
          Inr (marker_row (CHR ''|'') cnt (head f) @ marker_row (CHR ''0'') cnt (head f) @ rule_row @ s @ rule_row @
               marker_row (CHR ''|'') cnt (tail f) @ marker_row (CHR ''0'') cnt (tail f) @ rest)))
      else Inr [])"
  by pat_completeness auto
termination
  by (relation "measure (\<lambda>(f, len, i, cnt). nat (len - i))") (auto dest: data_row_advances simp: HORIZON_def)

declare graph_rows.simps [simp del]

definition print_graph :: "fifo \<Rightarrow> string res" where
  "print_graph f =
     bind_ok (graph_rows f (sint (buf_size f)) 0 0) (\<lambda>s. Inr ((CHR 0x1B # ''[2J'') @ s))"

subsection \<open>Rows\<close>

lemma data_row_ok:
  assumes "0 \<le> i" and "i + int k \<le> int (length b)" and "int (length b) \<le> INT_MAX"
  shows "data_row k b i = Inr (concat (map hex_byte (take k (drop (nat i) b))) @ [CHR 0x0A], i + int k)"
  using assms
proof (induction k arbitrary: i)
  case 0
  then show ?case by simp
next
  case (Suc k)
  have lt: "nat i < length b" using Suc.prems(1,2) by linarith
  have "data_row k b (i + 1) = Inr (concat (map hex_byte (take k (drop (nat (i + 1)) b))) @ [CHR 0x0A], i + 1 + int k)"
    by (rule Suc.IH) (use Suc.prems in linarith)+
  moreover have "rd_at b i = Inr (b ! nat i)" using Suc.prems(1) lt by (intro rd_at_ok) simp_all
  moreover have "int_inc i = Inr (i + 1)" using Suc.prems(1,3) lt by (intro int_inc_ok) linarith
  moreover have "take (Suc k) (drop (nat i) b) = b ! nat i # take k (drop (nat (i + 1)) b)"
    using lt Suc.prems(1) by (simp add: Cons_nth_drop_Suc [symmetric] nat_add_distrib)
  ultimately show ?case by simp
qed

lemma data_row_short:
  assumes "0 \<le> i" and "int (length b) < i + int k" and "i \<le> int (length b)" and "int (length b) \<le> INT_MAX"
  shows "data_row k b i = Inl Out_of_bounds"
  using assms
proof (induction k arbitrary: i)
  case 0
  then show ?case by simp
next
  case (Suc k)
  show ?case
  proof (cases "i = int (length b)")
    case True
    then show ?thesis by (simp add: rd_at_def)
  next
    case False
    then have lt: "i < int (length b)" using Suc.prems(3) by simp
    have "rd_at b i = Inr (b ! nat i)" using Suc.prems(1) lt by (rule rd_at_ok)
    moreover have "int_inc i = Inr (i + 1)" using Suc.prems(4) lt by (intro int_inc_ok) linarith
    moreover have "data_row k b (i + 1) = Inl Out_of_bounds"
      by (rule Suc.IH) (use Suc.prems lt in linarith)+
    ultimately show ?thesis by simp
  qed
qed

definition graph_row :: "fifo \<Rightarrow> nat \<Rightarrow> string" where
  \<comment> \<open>the picture of the bytes from \<open>64 * k\<close> on\<close>
  "graph_row f k =
     marker_row (CHR ''|'') (64 * int k) (head f) @ marker_row (CHR ''0'') (64 * int k) (head f) @ rule_row @
     concat (map hex_byte (take 64 (drop (64 * k) (buffer f)))) @ [CHR 0x0A] @ rule_row @
     marker_row (CHR ''|'') (64 * int k) (tail f) @ marker_row (CHR ''0'') (64 * int k) (tail f)"

lemma graph_rows_ok:
  assumes "length (buffer f) = 64 * (q + m)" and "int (64 * (q + m)) \<le> INT_MAX"
  shows "graph_rows f (int (64 * (q + m))) (64 * int q) (64 * int q) = Inr (concat (map (graph_row f) [q..<q + m]))"
  using assms
proof (induction m arbitrary: q)
  case 0
  then show ?case by (simp add: graph_rows.simps)
next
  case (Suc m)
  have d: "data_row HORIZON (buffer f) (64 * int q) =
      Inr (concat (map hex_byte (take 64 (drop (64 * q) (buffer f)))) @ [CHR 0x0A], 64 * int (Suc q))"
    using data_row_ok [of "64 * int q" 64 "buffer f"] Suc.prems by (simp add: HORIZON_def nat_mult_distrib)
  have IH: "graph_rows f (int (64 * (q + Suc m))) (64 * int (Suc q)) (64 * int (Suc q)) =
      Inr (concat (map (graph_row f) [Suc q..<Suc q + m]))"
    using Suc.IH [of "Suc q"] Suc.prems by simp
  have l: "64 * int q < int (64 * (q + Suc m))" by simp
  have c: "64 * int q + int HORIZON = 64 * int (Suc q)" by (simp add: HORIZON_def)
  have u: "[q..<q + Suc m] = q # [Suc q..<Suc q + m]" by (subst upt_conv_Cons) simp_all
  show ?case
    unfolding graph_rows.simps [of f "int (64 * (q + Suc m))" "64 * int q"] if_P [OF l] d bind_ok.simps prod.case c IH u
    by (simp add: graph_row_def [of f q])
qed

lemma graph_rows_short:
  assumes "length (buffer f) = n" and "int n \<le> INT_MAX" and "\<not> 64 dvd n" and "64 * q \<le> n"
  shows "graph_rows f (int n) (64 * int q) cnt = Inl Out_of_bounds"
  using assms(4)
proof (induction "n - 64 * q" arbitrary: q cnt rule: less_induct)
  case less
  have ne: "64 * q \<noteq> n" using assms(3) by auto
  then have l: "64 * int q < int n" using less.prems by simp
  show ?case
  proof (cases "64 * Suc q \<le> n")
    case True
    have d: "data_row HORIZON (buffer f) (64 * int q) =
        Inr (concat (map hex_byte (take 64 (drop (64 * q) (buffer f)))) @ [CHR 0x0A], 64 * int (Suc q))"
      using data_row_ok [of "64 * int q" 64 "buffer f"] True assms(1,2) by (simp add: HORIZON_def nat_mult_distrib)
    have "n - 64 * Suc q < n - 64 * q" using True by simp
    from less.hyps [OF this True] show ?thesis
      unfolding graph_rows.simps [of f "int n" "64 * int q"] if_P [OF l] d by simp
  next
    case False
    have "data_row HORIZON (buffer f) (64 * int q) = Inl Out_of_bounds"
      by (rule data_row_short) (use False less.prems assms(1,2) in \<open>simp_all add: HORIZON_def\<close>)
    then show ?thesis unfolding graph_rows.simps [of f "int n" "64 * int q"] if_P [OF l] by simp
  qed
qed

text \<open>The picture of a well-formed FIFO: when its size is a multiple of 64 it shows every byte of
  the buffer once, in rows of 64; with any other size the last row reads past the buffer.\<close>

theorem print_graph_outcome:
  assumes "fifo_inv f"
  shows "print_graph f =
     (if 64 dvd fifo_cap f then
        Inr (CHR 0x1B # ''[2J'' @ concat (map (graph_row f) [0..<fifo_cap f div 64]))
      else Inl Out_of_bounds)"
proof -
  have b: "length (buffer f) = fifo_cap f" "int (fifo_cap f) \<le> INT_MAX" "sint (buf_size f) = int (fifo_cap f)"
    using assms by (simp_all add: fifo_inv_def fifo_wf_def fifo_cap_def sint_of_small)
  show ?thesis
  proof (cases "64 dvd fifo_cap f")
    case True
    then obtain m where m: "fifo_cap f = 64 * m" by auto
    from graph_rows_ok [of f 0 m] b show ?thesis using True by (simp add: print_graph_def m)
  next
    case False
    from graph_rows_short [OF b(1,2) False, of 0 0] show ?thesis using False b(3) by (simp add: print_graph_def)
  qed
qed

lemma print_graph_outcome_witness:
  "\<exists>f. init_data_fifo True True 10 = (0, Some f, [Fifo_struct, Fifo_buffer]) \<and> print_graph f = Inl Out_of_bounds"
proof -
  obtain f where f: "init_data_fifo True True 10 = (0, Some f, [Fifo_struct, Fifo_buffer])"
    by (simp add: init_data_fifo_def fifo_alloc_def)
  have "fifo_inv f" "fifo_cap f = 10"
    using init_fifo_inv(1,3) [OF _ f] by (simp_all add: INT_MAX_def)
  with print_graph_outcome [of f] f show ?thesis by auto
qed

end
