(* ===== verification/Linklist.thy ===== *)
theory Linklist
  imports Prelude
begin

text \<open>
  \<^verbatim>\<open>linklist.c\<close>: the mutex-protected message lists \<open>G_recv_linklist\<close> and
  \<open>G_send_linklist\<close>.  The heap is explicit: one map per C type from addresses to
  blocks, an allocator that hands out fresh addresses, and \<open>c_error\<close> for null,
  dangling and out-of-range accesses and for double frees.

  A list is a sentinel node (without data) followed by the message nodes; the \<open>next\<close> pointer of the
  last node points to that node itself, and only \<open>linknode_count\<close> tells where the list
  ends.  \<open>ll_rep\<close> states this shape; the lemmas show that every operation keeps it, never
  goes wrong, touches nothing outside the list and the node it is given, and acts on the
  messages of the list as a FIFO queue.
\<close>

subsection \<open>Data\<close>

definition DUER :: int where "DUER = 1"
definition UART :: int where "UART = 2"

record data_inf =
  pdata :: addr
  data_len :: int
  recv_fd :: int
  send_to :: int

record single_linklist =
  nxt :: addr
  data :: addr

record single_linklist_head =
  linklist_head :: addr
  linklist_tail :: addr
  linknode_count :: int
  ll_mutex :: mutex

text \<open>
  The heap.  The \<open>n\<close>-th allocation request fails when \<open>oom n\<close> holds; a successful one
  returns an address never returned before, so a freed block is never reused and any
  access to it is an error.
\<close>

record mem =
  nodes :: "addr \<Rightarrow> single_linklist option"
  infs :: "addr \<Rightarrow> data_inf option"
  bufs :: "addr \<Rightarrow> char list option"
  heads :: "addr \<Rightarrow> single_linklist_head option"
  nalloc :: nat
  oom :: "nat \<Rightarrow> bool"

subsection \<open>Memory primitives\<close>

definition calloc :: "mem \<Rightarrow> addr \<times> mem" where
  "calloc m = (if oom m (nalloc m) then 0 else Suc (nalloc m), m\<lparr>nalloc := Suc (nalloc m)\<rparr>)"

definition upd_node :: "addr \<Rightarrow> (single_linklist \<Rightarrow> single_linklist) \<Rightarrow> mem \<Rightarrow> mem res" where
  "upd_node a f m = bind_ok (deref (nodes m) a) (\<lambda>x. Inr (m\<lparr>nodes := (nodes m)(a \<mapsto> f x)\<rparr>))"

definition upd_inf :: "addr \<Rightarrow> (data_inf \<Rightarrow> data_inf) \<Rightarrow> mem \<Rightarrow> mem res" where
  "upd_inf a f m = bind_ok (deref (infs m) a) (\<lambda>x. Inr (m\<lparr>infs := (infs m)(a \<mapsto> f x)\<rparr>))"

definition upd_head ::
    "addr \<Rightarrow> (single_linklist_head \<Rightarrow> single_linklist_head res) \<Rightarrow> mem \<Rightarrow> mem res" where
  "upd_head a f m =
     bind_ok (deref (heads m) a) (\<lambda>x. bind_ok (f x) (\<lambda>y.
       Inr (m\<lparr>heads := (heads m)(a \<mapsto> y)\<rparr>)))"

definition free_node :: "addr \<Rightarrow> mem \<Rightarrow> mem res" where
  "free_node a m =
     (if a = 0 then Inr m
      else bind_ok (deref (nodes m) a) (\<lambda>_. Inr (m\<lparr>nodes := (nodes m)(a := None)\<rparr>)))"

definition free_inf :: "addr \<Rightarrow> mem \<Rightarrow> mem res" where
  "free_inf a m =
     (if a = 0 then Inr m
      else bind_ok (deref (infs m) a) (\<lambda>_. Inr (m\<lparr>infs := (infs m)(a := None)\<rparr>)))"

definition free_buf :: "addr \<Rightarrow> mem \<Rightarrow> mem res" where
  "free_buf a m =
     (if a = 0 then Inr m
      else bind_ok (deref (bufs m) a) (\<lambda>_. Inr (m\<lparr>bufs := (bufs m)(a := None)\<rparr>)))"

definition free_head :: "addr \<Rightarrow> mem \<Rightarrow> mem res" where
  "free_head a m =
     (if a = 0 then Inr m
      else bind_ok (deref (heads m) a) (\<lambda>_. Inr (m\<lparr>heads := (heads m)(a := None)\<rparr>)))"

definition memcpy :: "addr \<Rightarrow> addr \<Rightarrow> nat \<Rightarrow> mem \<Rightarrow> mem res" where
  "memcpy dst src n m =
     bind_ok (deref (bufs m) dst) (\<lambda>d.
     bind_ok (deref (bufs m) src) (\<lambda>s.
     bind_ok (guard_ok (n \<le> length d \<and> n \<le> length s) Out_of_bounds) (\<lambda>_.
     bind_ok (guard_ok (dst \<noteq> src \<or> n = 0) Overlap) (\<lambda>_.
       Inr (m\<lparr>bufs := (bufs m)(dst \<mapsto> take n s @ drop n d)\<rparr>)))))"

definition memcpy_from :: "addr \<Rightarrow> char list \<Rightarrow> nat \<Rightarrow> mem \<Rightarrow> mem res" where
  \<comment> \<open>\<open>memcpy\<close> whose source is a local array or a string literal of the caller\<close>
  "memcpy_from dst s n m =
     bind_ok (deref (bufs m) dst) (\<lambda>d.
     bind_ok (guard_ok (n \<le> length d \<and> n \<le> length s) Out_of_bounds) (\<lambda>_.
       Inr (m\<lparr>bufs := (bufs m)(dst \<mapsto> take n s @ drop n d)\<rparr>)))"

definition lock_head :: "addr \<Rightarrow> mem \<Rightarrow> mem res" where
  "lock_head h =
     upd_head h (\<lambda>x. bind_ok (mutex_lock (ll_mutex x)) (\<lambda>l. Inr (x\<lparr>ll_mutex := l\<rparr>)))"

definition unlock_head :: "addr \<Rightarrow> mem \<Rightarrow> mem res" where
  "unlock_head h =
     upd_head h (\<lambda>x. bind_ok (mutex_unlock (ll_mutex x)) (\<lambda>l. Inr (x\<lparr>ll_mutex := l\<rparr>)))"

subsection \<open>Operations\<close>

definition is_singlelinklist_empty :: "addr \<Rightarrow> mem \<Rightarrow> int res" where
  "is_singlelinklist_empty lh m =
     bind_ok (deref (heads m) lh) (\<lambda>h. Inr (if linknode_count h = 0 then 1 else 0))"

definition singlelinklist_destory_node :: "addr \<Rightarrow> mem \<Rightarrow> mem res" where
  "singlelinklist_destory_node datanode m =
     (if datanode = 0 then Inr m
      else
        bind_ok (deref (nodes m) datanode) (\<lambda>n.
        bind_ok
          (if data n = 0 then Inr m
           else
             bind_ok (deref (infs m) (data n)) (\<lambda>i.
             bind_ok
               (if pdata i = 0 then Inr m
                else bind_ok (free_buf (pdata i) m) (\<lambda>m1.
                       upd_inf (data n) (\<lambda>i. i\<lparr>pdata := 0\<rparr>) m1)) (\<lambda>m2.
             bind_ok (free_inf (data n) m2) (\<lambda>m3.
               upd_node datanode (\<lambda>n. n\<lparr>data := 0\<rparr>) m3)))) (\<lambda>m4.
          free_node datanode m4)))"

definition init_node_fail :: "addr \<Rightarrow> mem \<Rightarrow> (addr \<times> mem) res" where
  \<comment> \<open>the label \<open>fail\<close>\<close>
  "init_node_fail node m =
     bind_ok (deref (nodes m) node) (\<lambda>n.
     bind_ok
       (if data n = 0 then Inr m
        else
          bind_ok (deref (infs m) (data n)) (\<lambda>i.
          bind_ok
            (if pdata i = 0 then Inr m
             else bind_ok (free_buf (pdata i) m) (\<lambda>m1.
                    upd_inf (data n) (\<lambda>i. i\<lparr>pdata := 0\<rparr>) m1)) (\<lambda>m2.
          bind_ok (free_inf (data n) m2) (\<lambda>m3.
            upd_node node (\<lambda>n. n\<lparr>data := 0\<rparr>) m3)))) (\<lambda>m4.
     bind_ok (free_node node m4) (\<lambda>m5.
       Inr (0, m5))))"

definition singlelinklist_init_node :: "int \<Rightarrow> mem \<Rightarrow> (addr \<times> mem) res" where
  "singlelinklist_init_node buf_len m0 =
     (case calloc m0 of (node, m1) \<Rightarrow>
      if node = 0 then Inr (0, m1)
      else
        (case calloc (m1\<lparr>nodes := (nodes m1)(node \<mapsto> \<lparr>nxt = 0, data = 0\<rparr>)\<rparr>) of (d, m2) \<Rightarrow>
         bind_ok (upd_node node (\<lambda>n. n\<lparr>data := d\<rparr>) m2) (\<lambda>m3.
         if d = 0 then init_node_fail node m3
         else
           (case calloc (m3\<lparr>infs := (infs m3)(d \<mapsto>
                   \<lparr>pdata = 0, data_len = 0, recv_fd = 0, send_to = 0\<rparr>)\<rparr>) of (b, m4) \<Rightarrow>
            bind_ok (upd_inf d (\<lambda>i. i\<lparr>pdata := b\<rparr>) m4) (\<lambda>m5.
            if b = 0 then init_node_fail node m5
            else
              bind_ok
                (upd_inf d (\<lambda>i. i\<lparr>data_len := 0, send_to := 0\<rparr>)
                   (m5\<lparr>bufs := (bufs m5)(b \<mapsto>
                       replicate (size_of_int buf_len) (CHR 0x00))\<rparr>)) (\<lambda>m6.
              Inr (node, m6)))))))"

definition singlelinklist_insert_node :: "addr \<Rightarrow> addr \<Rightarrow> mem \<Rightarrow> mem res" where
  "singlelinklist_insert_node lh datanode m =
     (if datanode = 0 \<or> lh = 0 then Inr m
      else
        bind_ok (lock_head lh m) (\<lambda>m1.
        bind_ok (deref (heads m1) lh) (\<lambda>h.
        bind_ok (upd_node (linklist_tail h) (\<lambda>n. n\<lparr>nxt := datanode\<rparr>) m1) (\<lambda>m2.
        bind_ok (upd_head lh (\<lambda>h. Inr (h\<lparr>linklist_tail := datanode\<rparr>)) m2) (\<lambda>m3.
        bind_ok (deref (heads m3) lh) (\<lambda>h.
        bind_ok (upd_node datanode (\<lambda>n. n\<lparr>nxt := linklist_tail h\<rparr>) m3) (\<lambda>m4.
        bind_ok (upd_head lh (\<lambda>h. bind_ok (int_inc (linknode_count h)) (\<lambda>c.
                   Inr (h\<lparr>linknode_count := c\<rparr>))) m4) (\<lambda>m5.
          unlock_head lh m5))))))))"

definition reset_if_empty :: "addr \<Rightarrow> mem \<Rightarrow> mem res" where
  \<comment> \<open>\<open>if(head->linknode_count == 0) { tail = head; tail->next = head; }\<close>\<close>
  "reset_if_empty lh m =
     bind_ok (deref (heads m) lh) (\<lambda>h.
     if linknode_count h = 0 then
       bind_ok (upd_head lh (\<lambda>h. Inr (h\<lparr>linklist_tail := linklist_head h\<rparr>)) m) (\<lambda>m1.
         upd_node (linklist_head h) (\<lambda>n. n\<lparr>nxt := linklist_head h\<rparr>) m1)
     else Inr m)"

definition unlink_first :: "addr \<Rightarrow> mem \<Rightarrow> (addr \<times> mem) res" where
  \<comment> \<open>\<open>tmp = head->linklist_head->next\<close>, then the sentinel skips it and the count drops\<close>
  "unlink_first lh m =
     bind_ok (deref (heads m) lh) (\<lambda>h.
     bind_ok (deref (nodes m) (linklist_head h)) (\<lambda>s.
     bind_ok (deref (nodes m) (nxt s)) (\<lambda>first.
     bind_ok (upd_node (linklist_head h) (\<lambda>n. n\<lparr>nxt := nxt first\<rparr>) m) (\<lambda>m1.
     bind_ok (upd_head lh (\<lambda>h. Inr (h\<lparr>linknode_count := linknode_count h - 1\<rparr>)) m1) (\<lambda>m2.
       Inr (nxt s, m2))))))"

definition singlelinklist_pop_node :: "addr \<Rightarrow> addr \<Rightarrow> mem \<Rightarrow> mem res" where
  "singlelinklist_pop_node lh datanode m =
     (if datanode = 0 \<or> lh = 0 then Inr m
      else
        bind_ok (deref (heads m) lh) (\<lambda>h.
        if linknode_count h = 0 then Inr m
        else
          bind_ok (deref (nodes m) datanode) (\<lambda>dn.
          if data dn = 0 then Inr m
          else
            bind_ok (lock_head lh m) (\<lambda>m1.
            bind_ok (deref (nodes m1) (linklist_head h)) (\<lambda>s.
            bind_ok (deref (nodes m1) (nxt s)) (\<lambda>first.
            bind_ok (deref (infs m1) (data first)) (\<lambda>src.
            bind_ok (deref (infs m1) (data dn)) (\<lambda>dst.
            bind_ok (memcpy (pdata dst) (pdata src) (size_of_int (data_len src)) m1) (\<lambda>m2.
            bind_ok (upd_inf (data dn) (\<lambda>d. d\<lparr>data_len := data_len src,
                       recv_fd := recv_fd src, send_to := send_to src\<rparr>) m2) (\<lambda>m3.
            bind_ok (unlink_first lh m3) (\<lambda>(tmp, m4).
            bind_ok (reset_if_empty lh m4) (\<lambda>m5.
            bind_ok (unlock_head lh m5) (\<lambda>m6.
              singlelinklist_destory_node tmp m6)))))))))))))"

definition init_singlelinklist :: "bool \<Rightarrow> mem \<Rightarrow> (addr \<times> mem) res" where
  \<comment> \<open>the flag is the outcome of \<open>pthread_mutex_init\<close>\<close>
  "init_singlelinklist mutex_ok m0 =
     (case calloc m0 of (s, m1) \<Rightarrow>
      if s = 0 then Inr (0, m1)
      else
        (case calloc (m1\<lparr>nodes := (nodes m1)(s \<mapsto> \<lparr>nxt = 0, data = 0\<rparr>)\<rparr>) of (lh, m2) \<Rightarrow>
         if lh = 0 then Inr (0, m2)
         else
           bind_ok (upd_node s (\<lambda>n. n\<lparr>nxt := s\<rparr>)
             (m2\<lparr>heads := (heads m2)(lh \<mapsto> \<lparr>linklist_head = s, linklist_tail = s,
                  linknode_count = 0, ll_mutex = (if mutex_ok then Unlocked else Uninit)\<rparr>)\<rparr>)) (\<lambda>m3.
           if mutex_ok then Inr (lh, m3) else Inr (0, m3))))"

definition add_data_to_linklist :: "addr \<Rightarrow> addr \<Rightarrow> mem \<Rightarrow> (int \<times> mem) res" where
  "add_data_to_linklist lh dinf m =
     bind_ok (deref (infs m) dinf) (\<lambda>d.
     bind_ok (singlelinklist_init_node (data_len d) m) (\<lambda>(node, m1).
     if node = 0 then Inr (-1, m1)
     else
       bind_ok (deref (nodes m1) node) (\<lambda>n.
       bind_ok (upd_inf (data n) (\<lambda>i. i\<lparr>recv_fd := recv_fd d, data_len := data_len d\<rparr>) m1) (\<lambda>m2.
       bind_ok (deref (infs m2) (data n)) (\<lambda>i.
       bind_ok (memcpy (pdata i) (pdata d) (size_of_int (data_len d)) m2) (\<lambda>m3.
       bind_ok (singlelinklist_insert_node lh node m3) (\<lambda>m4.
         Inr (0, m4))))))))"

subsection \<open>Shape and contents of a list\<close>

text \<open>\<open>chain N a bs\<close>: from \<open>a\<close> the \<open>next\<close> pointers visit \<open>bs\<close>, and the last node points to itself.\<close>

fun chain :: "(addr \<Rightarrow> single_linklist option) \<Rightarrow> addr \<Rightarrow> addr list \<Rightarrow> bool" where
  "chain N a [] = (case N a of None \<Rightarrow> False | Some n \<Rightarrow> nxt n = a)"
| "chain N a (b # bs) = (case N a of None \<Rightarrow> False | Some n \<Rightarrow> nxt n = b \<and> chain N b bs)"

fun ll_walk :: "(addr \<Rightarrow> single_linklist option) \<Rightarrow> nat \<Rightarrow> addr \<Rightarrow> addr list" where
  "ll_walk N 0 a = []"
| "ll_walk N (Suc k) a =
     (case N a of None \<Rightarrow> [] | Some n \<Rightarrow> nxt n # ll_walk N k (nxt n))"

text \<open>The three blocks of a node: the node, its \<open>data_inf\<close> and its buffer.\<close>

definition node_inf :: "mem \<Rightarrow> addr \<Rightarrow> addr" where
  "node_inf m a = (case nodes m a of None \<Rightarrow> 0 | Some n \<Rightarrow> data n)"

definition node_buf :: "mem \<Rightarrow> addr \<Rightarrow> addr" where
  "node_buf m a = (case infs m (node_inf m a) of None \<Rightarrow> 0 | Some i \<Rightarrow> pdata i)"

definition node_block :: "mem \<Rightarrow> addr \<Rightarrow> char list" where
  "node_block m a = (case bufs m (node_buf m a) of None \<Rightarrow> [] | Some b \<Rightarrow> b)"

definition node_addrs :: "mem \<Rightarrow> addr \<Rightarrow> addr list" where
  "node_addrs m a = [a, node_inf m a, node_buf m a]"

text \<open>A message as the program sees it: its bytes, where it came from, where it goes.\<close>

record msg =
  m_bytes :: "char list"
  m_fd :: int
  m_to :: int

definition node_msg :: "mem \<Rightarrow> addr \<Rightarrow> msg" where
  "node_msg m a =
     (case infs m (node_inf m a) of
        None \<Rightarrow> \<lparr>m_bytes = [], m_fd = 0, m_to = 0\<rparr>
      | Some i \<Rightarrow> \<lparr>m_bytes = take (nat (data_len i)) (node_block m a),
                  m_fd = recv_fd i, m_to = send_to i\<rparr>)"

text \<open>A complete node: its three blocks are allocated and \<open>data_len\<close> is within the buffer.\<close>

definition node_ok :: "mem \<Rightarrow> addr \<Rightarrow> bool" where
  "node_ok m a \<longleftrightarrow>
     0 \<notin> set (node_addrs m a) \<and> distinct (node_addrs m a) \<and>
     (\<forall>x \<in> set (node_addrs m a). x \<le> nalloc m) \<and>
     nodes m a \<noteq> None \<and> bufs m (node_buf m a) \<noteq> None \<and>
     (case infs m (node_inf m a) of None \<Rightarrow> False
      | Some i \<Rightarrow> 0 \<le> data_len i \<and> data_len i \<le> int (length (node_block m a)) \<and> data_len i \<le> INT_MAX)"

definition ll_fp :: "mem \<Rightarrow> addr \<Rightarrow> addr \<Rightarrow> addr list \<Rightarrow> addr list" where
  "ll_fp m lh s ns = lh # s # concat (map (node_addrs m) ns)"

text \<open>
  \<open>ll_shape l m lh s ns\<close>: the list header at \<open>lh\<close> (whose mutex is in state \<open>l\<close>) has the sentinel \<open>s\<close> and the nodes \<open>ns\<close>.  All
  blocks of the list (\<open>ll_fp\<close>, its footprint) are pairwise distinct.
\<close>

definition ll_shape :: "mutex \<Rightarrow> mem \<Rightarrow> addr \<Rightarrow> addr \<Rightarrow> addr list \<Rightarrow> bool" where
  "ll_shape l m lh s ns \<longleftrightarrow>
     heads m lh = Some \<lparr>linklist_head = s, linklist_tail = last (s # ns),
                        linknode_count = int (length ns), ll_mutex = l\<rparr> \<and>
     chain (nodes m) s ns \<and> node_inf m s = 0 \<and> (\<forall>a \<in> set ns. node_ok m a) \<and>
     distinct (ll_fp m lh s ns) \<and> lh \<noteq> 0 \<and> s \<noteq> 0 \<and> lh \<le> nalloc m \<and> s \<le> nalloc m"

abbreviation ll_rep :: "mem \<Rightarrow> addr \<Rightarrow> addr \<Rightarrow> addr list \<Rightarrow> bool" where
  "ll_rep \<equiv> ll_shape Unlocked"

definition ll_nodes :: "mem \<Rightarrow> addr \<Rightarrow> addr list" where
  "ll_nodes m lh =
     (case heads m lh of None \<Rightarrow> []
      | Some h \<Rightarrow> ll_walk (nodes m) (nat (linknode_count h)) (linklist_head h))"

definition ll_contents :: "mem \<Rightarrow> addr \<Rightarrow> msg list" where
  "ll_contents m lh = map (node_msg m) (ll_nodes m lh)"

text \<open>Two heaps that hold the same blocks at the addresses in \<open>A\<close>.\<close>

definition agree_on :: "addr set \<Rightarrow> mem \<Rightarrow> mem \<Rightarrow> bool" where
  "agree_on A m m' \<longleftrightarrow> (\<forall>a \<in> A. nodes m' a = nodes m a \<and> infs m' a = infs m a \<and>
     bufs m' a = bufs m a \<and> heads m' a = heads m a) \<and> nalloc m \<le> nalloc m'"

subsection \<open>Chains, footprints and frames\<close>

lemma chain_walk: "chain N a bs \<Longrightarrow> ll_walk N (length bs) a = bs"
  by (induction N a bs rule: chain.induct) (auto split: option.splits)

lemma chain_cong: "(\<And>x. x \<in> set (a # bs) \<Longrightarrow> N' x = N x) \<Longrightarrow> chain N' a bs = chain N a bs"
  by (induction N a bs rule: chain.induct) (auto split: option.splits)

lemma ll_shape_nodes: "ll_shape l m lh s ns \<Longrightarrow> ll_nodes m lh = ns"
  by (simp add: ll_shape_def ll_nodes_def chain_walk)

lemma agree_on_node:
  assumes "agree_on A m m'" and "set (node_addrs m a) \<subseteq> A"
  shows "node_addrs m' a = node_addrs m a" and "node_msg m' a = node_msg m a"
    and "node_block m' a = node_block m a" and "node_ok m a \<Longrightarrow> node_ok m' a"
proof -
  from assms have n: "nodes m' a = nodes m a" "nalloc m \<le> nalloc m'"
    by (auto simp: agree_on_def node_addrs_def)
  then have i: "node_inf m' a = node_inf m a" by (simp add: node_inf_def)
  with assms have i2: "infs m' (node_inf m' a) = infs m (node_inf m a)"
    by (auto simp: agree_on_def node_addrs_def)
  then have b: "node_buf m' a = node_buf m a" by (simp add: node_buf_def)
  with assms have b2: "bufs m' (node_buf m a) = bufs m (node_buf m a)"
    by (auto simp: agree_on_def node_addrs_def)
  show "node_addrs m' a = node_addrs m a" by (simp add: node_addrs_def i b)
  moreover show bl: "node_block m' a = node_block m a" by (simp add: node_block_def b b2)
  moreover show "node_msg m' a = node_msg m a" using i2 by (simp add: node_msg_def i bl split: option.split)
  ultimately show "node_ok m a \<Longrightarrow> node_ok m' a"
    using n i2 b2 b by (auto simp: node_ok_def i split: option.splits intro: le_trans)
qed

lemma agree_on_ll:
  assumes "agree_on A m m'" and "set (ll_fp m lh s ns) \<subseteq> A"
  shows "ll_fp m' lh s ns = ll_fp m lh s ns"
    and "map (node_msg m') ns = map (node_msg m) ns"
    and "ll_shape l m lh s ns \<Longrightarrow> ll_shape l m' lh s ns"
proof -
  have sub: "set (node_addrs m a) \<subseteq> A" if "a \<in> set ns" for a
    using that assms(2) by (auto simp: ll_fp_def)
  show fp: "ll_fp m' lh s ns = ll_fp m lh s ns"
    using agree_on_node(1) [OF assms(1) sub] by (simp add: ll_fp_def cong: map_cong)
  show "map (node_msg m') ns = map (node_msg m) ns"
    using agree_on_node(2) [OF assms(1) sub] by simp
  assume r: "ll_shape l m lh s ns"
  have "lh \<in> A" "s \<in> A" "\<And>x. x \<in> set ns \<Longrightarrow> x \<in> A"
    using assms(2) sub by (auto simp: ll_fp_def node_addrs_def)
  then have "heads m' lh = heads m lh" "chain (nodes m') s ns = chain (nodes m) s ns"
    "node_inf m' s = node_inf m s"
    using assms(1) by (auto simp: agree_on_def node_inf_def intro!: chain_cong)
  then show "ll_shape l m' lh s ns"
    using r agree_on_node(4) [OF assms(1) sub] assms(1) fp
    by (auto simp: ll_shape_def agree_on_def)
qed

lemma node_okE:
  assumes "node_ok m a"
  obtains n i b where "nodes m a = Some n" "data n = node_inf m a"
    "infs m (node_inf m a) = Some i" "pdata i = node_buf m a"
    "bufs m (node_buf m a) = Some b" "node_block m a = b"
    "0 \<le> data_len i" "data_len i \<le> int (length b)" "data_len i \<le> INT_MAX"
    "a \<noteq> 0" "node_inf m a \<noteq> 0" "node_buf m a \<noteq> 0"
  using assms
  by (auto simp: node_ok_def node_inf_def node_buf_def node_block_def node_addrs_def
      split: option.splits)

subsection \<open>Destroying a node\<close>

lemma destory_node_eq:
  assumes "node_ok m a"
  shows "singlelinklist_destory_node a m = Inr (m\<lparr>nodes := (nodes m)(a := None),
    infs := (infs m)(node_inf m a := None), bufs := (bufs m)(node_buf m a := None)\<rparr>)"
  using assms
  by (elim node_okE)
     (simp add: singlelinklist_destory_node_def free_buf_def free_inf_def free_node_def
       upd_inf_def upd_node_def deref_Some)

subsection \<open>Removing the first message\<close>

text \<open>The heap after a successful \<open>singlelinklist_pop_node\<close> of \<open>n\<close> into the node \<open>dn\<close>.\<close>

definition after_pop :: "mem \<Rightarrow> addr \<Rightarrow> addr \<Rightarrow> addr \<Rightarrow> addr \<Rightarrow> addr list \<Rightarrow> mem" where
  "after_pop m lh dn s n ns = m\<lparr>
     nodes := (nodes m)(s := map_option (nxt_update (\<lambda>_. hd (ns @ [s]))) (nodes m s), n := None),
     infs := (infs m)(node_inf m dn \<mapsto> (the (infs m (node_inf m n)))\<lparr>pdata := node_buf m dn\<rparr>,
                      node_inf m n := None),
     bufs := (bufs m)(node_buf m dn \<mapsto> 
          m_bytes (node_msg m n) @ drop (length (m_bytes (node_msg m n))) (node_block m dn),
          node_buf m n := None),
     heads := (heads m)(lh \<mapsto> \<lparr>linklist_head = s, linklist_tail = last (s # ns),
                        linknode_count = int (length ns), ll_mutex = Unlocked\<rparr>)\<rparr>"

lemma pop_eq:
  assumes r: "ll_rep m lh s (n # ns)" and d: "node_ok m dn"
    and dis: "set (ll_fp m lh s (n # ns)) \<inter> set (node_addrs m dn) = {}"
    and fit: "length (m_bytes (node_msg m n)) \<le> length (node_block m dn)"
  shows "singlelinklist_pop_node lh dn m = Inr (after_pop m lh dn s n ns)"
proof -
  from r have n: "node_ok m n" and lh: "lh \<noteq> 0" "s \<noteq> 0"
    and h: "heads m lh = Some \<lparr>linklist_head = s, linklist_tail = last (n # ns),
       linknode_count = 1 + int (length ns), ll_mutex = Unlocked\<rparr>"
    by (simp_all add: ll_shape_def)
  obtain sn where sn: "nodes m s = Some sn" "nxt sn = n"
    using r by (auto simp: ll_shape_def split: option.splits)
  have ne: "n \<noteq> s" "dn \<noteq> s" "dn \<noteq> n" "node_inf m dn \<noteq> node_inf m n" "node_buf m dn \<noteq> node_buf m n"
    using r dis by (auto simp: ll_shape_def ll_fp_def node_addrs_def)
  obtain nn i b where N: "nodes m n = Some nn" "data nn = node_inf m n"
    "infs m (node_inf m n) = Some i" "pdata i = node_buf m n"
    "bufs m (node_buf m n) = Some b" "node_block m n = b"
    "0 \<le> data_len i" "data_len i \<le> int (length b)" "data_len i \<le> INT_MAX"
    "n \<noteq> 0" "node_inf m n \<noteq> 0" "node_buf m n \<noteq> 0"
    using n by (rule node_okE)
  obtain dd j c where D: "nodes m dn = Some dd" "data dd = node_inf m dn"
    "infs m (node_inf m dn) = Some j" "pdata j = node_buf m dn"
    "bufs m (node_buf m dn) = Some c" "node_block m dn = c"
    "dn \<noteq> 0" "node_inf m dn \<noteq> 0" "node_buf m dn \<noteq> 0"
    using d by (rule node_okE)
  have nx: "nxt nn = (if ns = [] then n else hd ns)"
    using r N(1) by (cases ns) (auto simp: ll_shape_def split: option.splits)
  have sz: "size_of_int (data_len i) = nat (data_len i)" using N by simp
  have mb: "m_bytes (node_msg m n) = take (nat (data_len i)) b"
    using N by (simp add: node_msg_def)
  have len: "nat (data_len i) \<le> length c" "nat (data_len i) \<le> length b" using fit N D mb by auto
  have upd: "j\<lparr>data_len := data_len i, recv_fd := recv_fd i, send_to := send_to i\<rparr> =
      i\<lparr>pdata := node_buf m dn\<rparr>"
    using D(4) by (cases i, cases j) simp
  show ?thesis
    using ne N D lh h sn nx sz mb len
    by (simp add: singlelinklist_pop_node_def deref_Some lock_head_def unlock_head_def
      upd_head_def upd_inf_def upd_node_def memcpy_def unlink_first_def reset_if_empty_def
      singlelinklist_destory_node_def free_buf_def free_inf_def free_node_def after_pop_def upd
      fun_upd_twist)
qed

lemma chain_head: "chain N a (b # bs) \<Longrightarrow> \<exists>n. N a = Some n \<and> nxt n = b \<and> chain N b bs"
  by (auto split: option.splits)

lemma chain_last_self: "chain N a bs \<Longrightarrow> \<exists>n. N (last (a # bs)) = Some n \<and> nxt n = last (a # bs)"
  by (induction N a bs rule: chain.induct) (auto split: option.splits)

lemma chain_snoc:
  assumes "chain N s ns" and "distinct (s # ns)" and "x \<notin> set (s # ns)"
    and "N x = Some d" and "N (last (s # ns)) = Some t"
  shows "chain (N(last (s # ns) \<mapsto> t\<lparr>nxt := x\<rparr>, x \<mapsto> d\<lparr>nxt := x\<rparr>)) s (ns @ [x])"
  using assms
proof (induction ns arbitrary: s)
  case Nil
  then show ?case by simp
next
  case (Cons b bs)
  let ?N = "N(last (b # bs) \<mapsto> t\<lparr>nxt := x\<rparr>, x \<mapsto> d\<lparr>nxt := x\<rparr>)"
  from Cons.prems have n: "chain N b bs" "\<exists>n. N s = Some n \<and> nxt n = b"
    by (auto split: option.splits)
  have "chain ?N b (bs @ [x])" using n Cons.prems by (intro Cons.IH) auto
  moreover have "s \<noteq> last (b # bs)" "s \<noteq> x"
    using Cons.prems(2,3) last_in_set [of "b # bs"] by auto
  then have "?N s = N s" by simp
  ultimately show ?case using n(2) by (auto simp del: fun_upd_apply)
qed

lemma chain_unlink:
  assumes "chain N s (n # ns)" and "distinct (s # n # ns)"
  shows "chain (N(s := map_option (nxt_update (\<lambda>_. hd (ns @ [s]))) (N s), n := None)) s ns"
    (is "chain ?N s ns")
proof (cases ns)
  case Nil
  with assms show ?thesis by (auto split: option.splits)
next
  case (Cons b bs)
  from assms Cons have "chain N b bs" "N s \<noteq> None" by (auto split: option.splits)
  moreover have "chain ?N b bs = chain N b bs"
    using assms(2) Cons by (intro chain_cong) auto
  ultimately show ?thesis using assms(2) Cons by auto
qed

lemma concat_node_addrs_distinct:
  assumes "distinct (concat (map (node_addrs m) ns))"
  shows "distinct ns"
  using assms by (induction ns) (auto simp: node_addrs_def)

lemma agree_after_pop:
  assumes "\<forall>x \<in> set [lh, s, n, node_inf m dn, node_inf m n, node_buf m dn, node_buf m n]. x \<notin> A"
  shows "agree_on A m (after_pop m lh dn s n ns)"
  unfolding agree_on_def
proof (intro conjI ballI)
  fix a
  assume "a \<in> A"
  with assms have "a \<noteq> lh" "a \<noteq> s" "a \<noteq> n" "a \<noteq> node_inf m dn" "a \<noteq> node_inf m n"
    "a \<noteq> node_buf m dn" "a \<noteq> node_buf m n" by auto
  then show "nodes (after_pop m lh dn s n ns) a = nodes m a"
    "infs (after_pop m lh dn s n ns) a = infs m a"
    "bufs (after_pop m lh dn s n ns) a = bufs m a"
    "heads (after_pop m lh dn s n ns) a = heads m a"
    by (simp_all add: after_pop_def)
qed (simp add: after_pop_def)

lemma after_pop_rep:
  assumes r: "ll_rep m lh s (n # ns)" and d: "node_ok m dn"
    and dis: "set (ll_fp m lh s (n # ns)) \<inter> set (node_addrs m dn) = {}"
  defines "m' \<equiv> after_pop m lh dn s n ns"
  shows "ll_rep m' lh s ns" and "map (node_msg m') ns = map (node_msg m) ns"
    and "ll_fp m' lh s ns = ll_fp m lh s ns"
proof -
  let ?A = "set (concat (map (node_addrs m) ns))"
  have "\<forall>x \<in> set [lh, s, n, node_inf m dn, node_inf m n, node_buf m dn, node_buf m n]. x \<notin> ?A"
    using r dis by (auto simp: ll_shape_def ll_fp_def node_addrs_def)
  then have ag: "agree_on ?A m m'" unfolding m'_def by (rule agree_after_pop)
  have sub: "set (node_addrs m a) \<subseteq> ?A" if "a \<in> set ns" for a using that by auto
  have fp: "concat (map (node_addrs m') ns) = concat (map (node_addrs m) ns)"
    using agree_on_node(1) [OF ag sub] by (simp cong: map_cong)
  then show "ll_fp m' lh s ns = ll_fp m lh s ns" by (simp add: ll_fp_def)
  show "map (node_msg m') ns = map (node_msg m) ns"
    using agree_on_node(2) [OF ag sub] by simp
  have "distinct (concat (map (node_addrs m) (n # ns)))" using r by (simp add: ll_shape_def ll_fp_def)
  then have ds: "distinct (n # ns)" by (rule concat_node_addrs_distinct)
  have "s \<notin> set (n # ns)" using r by (auto simp: ll_shape_def ll_fp_def node_addrs_def)
  then have "node_inf m' s = node_inf m s"
    by (simp add: node_inf_def m'_def after_pop_def split: option.split)
  moreover from \<open>s \<notin> set (n # ns)\<close> have "chain (nodes m') s ns"
    using chain_unlink [of "nodes m" s n ns] r ds by (simp add: m'_def after_pop_def ll_shape_def)
  moreover have "heads m' lh = Some \<lparr>linklist_head = s, linklist_tail = last (s # ns),
      linknode_count = int (length ns), ll_mutex = Unlocked\<rparr>" "nalloc m' = nalloc m"
    by (simp_all add: m'_def after_pop_def)
  ultimately show "ll_rep m' lh s ns"
    using r fp agree_on_node(4) [OF ag sub] by (auto simp: ll_shape_def ll_fp_def)
qed

lemma after_pop_datanode:
  assumes r: "ll_rep m lh s (n # ns)" and d: "node_ok m dn"
    and dis: "set (ll_fp m lh s (n # ns)) \<inter> set (node_addrs m dn) = {}"
    and fit: "length (m_bytes (node_msg m n)) \<le> length (node_block m dn)"
  defines "m' \<equiv> after_pop m lh dn s n ns"
  shows "node_ok m' dn" and "node_addrs m' dn = node_addrs m dn"
    and "node_msg m' dn = node_msg m n"
    and "node_block m' dn = m_bytes (node_msg m n) @
           drop (length (m_bytes (node_msg m n))) (node_block m dn)"
proof -
  have ne: "dn \<noteq> s" "dn \<noteq> n" "node_inf m dn \<noteq> node_inf m n" "node_buf m dn \<noteq> node_buf m n"
    using r dis by (auto simp: ll_shape_def ll_fp_def node_addrs_def)
  from r have "node_ok m n" by (simp add: ll_shape_def)
  then obtain nn i b where N: "infs m (node_inf m n) = Some i" "pdata i = node_buf m n"
    "bufs m (node_buf m n) = Some b" "node_block m n = b"
    "0 \<le> data_len i" "data_len i \<le> int (length b)" "data_len i \<le> INT_MAX"
    by (rule node_okE)
  obtain dd j c where D: "nodes m dn = Some dd" "data dd = node_inf m dn"
    "infs m (node_inf m dn) = Some j" "pdata j = node_buf m dn"
    "bufs m (node_buf m dn) = Some c" "node_block m dn = c"
    using d by (rule node_okE)
  have nd: "nodes m' dn = nodes m dn" using ne by (simp add: m'_def after_pop_def)
  then have ni: "node_inf m' dn = node_inf m dn" by (simp add: node_inf_def)
  have ni2: "infs m' (node_inf m dn) = Some (i\<lparr>pdata := node_buf m dn\<rparr>)"
    using ne N by (simp add: m'_def after_pop_def)
  have nb: "node_buf m' dn = node_buf m dn" by (simp add: node_buf_def ni ni2)
  have nb2: "bufs m' (node_buf m dn) = Some (m_bytes (node_msg m n) @
      drop (length (m_bytes (node_msg m n))) (node_block m dn))"
    using ne by (simp add: m'_def after_pop_def)
  have mb: "m_bytes (node_msg m n) = take (nat (data_len i)) b" using N by (simp add: node_msg_def)
  have lb: "length (m_bytes (node_msg m n)) = nat (data_len i)" using N mb by simp
  show bl: "node_block m' dn = m_bytes (node_msg m n) @
           drop (length (m_bytes (node_msg m n))) (node_block m dn)"
    using nb2 by (simp add: node_block_def [of m'] nb)
  show "node_addrs m' dn = node_addrs m dn" by (simp add: node_addrs_def ni nb)
  show "node_msg m' dn = node_msg m n"
    using N lb by (simp add: node_msg_def [of m'] ni ni2 bl mb) (simp add: node_msg_def)
  show "node_ok m' dn"
    using d N lb fit ne unfolding node_ok_def node_addrs_def ni nb
    by (simp add: ni2 nb2 nd D bl) (simp add: m'_def after_pop_def)
qed

subsection \<open>Appending a message\<close>

text \<open>The heap after \<open>singlelinklist_insert_node\<close> of the node \<open>a\<close>.\<close>

definition after_insert :: "mem \<Rightarrow> addr \<Rightarrow> addr \<Rightarrow> addr list \<Rightarrow> addr \<Rightarrow> mem" where
  "after_insert m lh s ns a = m\<lparr>
     nodes := (nodes m)(last (s # ns) := map_option (nxt_update (\<lambda>_. a)) (nodes m (last (s # ns))),
                        a := map_option (nxt_update (\<lambda>_. a)) (nodes m a)),
     heads := (heads m)(lh \<mapsto> \<lparr>linklist_head = s, linklist_tail = a,
                        linknode_count = int (length ns) + 1, ll_mutex = Unlocked\<rparr>)\<rparr>"

lemma insert_eq:
  assumes r: "ll_rep m lh s ns" and a: "node_ok m a"
    and dis: "set (ll_fp m lh s ns) \<inter> set (node_addrs m a) = {}"
    and room: "int (length ns) < INT_MAX"
  shows "singlelinklist_insert_node lh a m = Inr (after_insert m lh s ns a)"
proof -
  let ?l = "last (s # ns)"
  from r have lh: "lh \<noteq> 0" "s \<noteq> 0"
    and h: "heads m lh = Some \<lparr>linklist_head = s, linklist_tail = ?l,
       linknode_count = int (length ns), ll_mutex = Unlocked\<rparr>"
    by (simp_all add: ll_shape_def)
  obtain t where t: "nodes m ?l = Some t"
    using r chain_last_self unfolding ll_shape_def by blast
  obtain x where x: "nodes m a = Some x" "a \<noteq> 0"
    using a by (rule node_okE)
  have "?l \<in> set (s # ns)" by (rule last_in_set) simp
  then have l: "?l \<in> set (ll_fp m lh s ns)" by (auto simp: ll_fp_def node_addrs_def)
  then have "?l \<noteq> a" using dis by (auto simp: node_addrs_def)
  moreover have "?l \<noteq> 0"
    using r \<open>?l \<in> set (s # ns)\<close> by (auto simp: ll_shape_def node_ok_def node_addrs_def)
  ultimately show ?thesis
    using lh h t x room
    by (simp add: singlelinklist_insert_node_def lock_head_def unlock_head_def upd_head_def
      upd_node_def deref_Some int_inc_ok after_insert_def del: last.simps)
qed

lemma agree_after_insert:
  assumes "lh \<notin> A" and "last (s # ns) \<notin> A" and "a \<notin> A"
  shows "agree_on A m (after_insert m lh s ns a)"
  using assms by (auto simp: agree_on_def after_insert_def simp del: last.simps)

lemma after_insert_node:
  shows "node_inf (after_insert m lh s ns a) x = node_inf m x"
    and "node_addrs (after_insert m lh s ns a) x = node_addrs m x"
    and "node_msg (after_insert m lh s ns a) x = node_msg m x"
    and "node_block (after_insert m lh s ns a) x = node_block m x"
    and "node_ok (after_insert m lh s ns a) x = node_ok m x"
proof -
  show i: "node_inf (after_insert m lh s ns a) x = node_inf m x"
    by (simp add: node_inf_def after_insert_def del: last.simps split: option.split)
  have inf: "infs (after_insert m lh s ns a) = infs m" by (simp add: after_insert_def)
  with i have b: "node_buf (after_insert m lh s ns a) x = node_buf m x"
    by (simp add: node_buf_def)
  show ad: "node_addrs (after_insert m lh s ns a) x = node_addrs m x"
    by (simp add: node_addrs_def i b)
  show bl: "node_block (after_insert m lh s ns a) x = node_block m x"
    by (simp add: node_block_def b) (simp add: after_insert_def)
  show "node_msg (after_insert m lh s ns a) x = node_msg m x"
    by (simp add: node_msg_def i inf bl split: option.split)
  have "nodes (after_insert m lh s ns a) x = None \<longleftrightarrow> nodes m x = None"
    by (auto simp: after_insert_def simp del: last.simps)
  then show "node_ok (after_insert m lh s ns a) x = node_ok m x"
    unfolding node_ok_def ad b i bl by (simp add: after_insert_def)
qed

lemma after_insert_rep:
  assumes r: "ll_rep m lh s ns" and a: "node_ok m a"
    and dis: "set (ll_fp m lh s ns) \<inter> set (node_addrs m a) = {}"
  shows "ll_rep (after_insert m lh s ns a) lh s (ns @ [a])"
    and "ll_fp (after_insert m lh s ns a) lh s (ns @ [a]) = ll_fp m lh s ns @ node_addrs m a"
proof -
  let ?m = "after_insert m lh s ns a" and ?l = "last (s # ns)"
  show fp: "ll_fp ?m lh s (ns @ [a]) = ll_fp m lh s ns @ node_addrs m a"
    by (simp add: ll_fp_def after_insert_node cong: map_cong)
  obtain t where t: "nodes m ?l = Some t"
    using r chain_last_self unfolding ll_shape_def by blast
  obtain x where x: "nodes m a = Some x"
    using a by (rule node_okE)
  have ds: "distinct (s # ns)"
    using r concat_node_addrs_distinct by (auto simp: ll_shape_def ll_fp_def node_addrs_def)
  have "a \<notin> set (s # ns)" using dis by (auto simp: ll_fp_def node_addrs_def)
  from chain_snoc [OF _ ds this x t] r have "chain (nodes ?m) s (ns @ [a])"
    by (simp add: ll_shape_def after_insert_def t x del: last.simps)
  moreover have "distinct (ll_fp m lh s ns @ node_addrs m a)"
    using r a dis by (simp add: ll_shape_def node_ok_def)
  ultimately show "ll_rep ?m lh s (ns @ [a])"
    using r a unfolding ll_shape_def fp by (simp add: after_insert_node) (simp add: after_insert_def)
qed
text \<open>An insertion that succeeds has found room in the counter.\<close>

lemma upd_node_same_heads: "upd_node b f m = Inr m' \<Longrightarrow> heads m' = heads m"
  by (auto simp: upd_node_def)

lemma upd_head_at:
  "upd_head lh f m = Inr m' \<Longrightarrow> heads m lh = Some h \<Longrightarrow> \<exists>h'. f h = Inr h' \<and> heads m' lh = Some h'"
  by (auto simp: upd_head_def deref_Inr)

lemma insert_room:
  assumes "singlelinklist_insert_node lh a m = Inr m'" and "a \<noteq> 0" and "lh \<noteq> 0" and "heads m lh = Some h"
  shows "linknode_count h < INT_MAX"
proof -
  from assms(2,3) have nz: "(a = 0 \<or> lh = 0) = False" by simp
  from assms(1) obtain m1 h1 f1 m2 m3 f3 m4 m5 where
    s: "lock_head lh m = Inr m1" "upd_node h1 f1 m1 = Inr m2"
      "upd_head lh (\<lambda>h. Inr (h\<lparr>linklist_tail := a\<rparr>)) m2 = Inr m3"
      "upd_node a f3 m3 = Inr m4"
      "upd_head lh (\<lambda>h. bind_ok (int_inc (linknode_count h)) (\<lambda>c. Inr (h\<lparr>linknode_count := c\<rparr>))) m4 = Inr m5"
    unfolding singlelinklist_insert_node_def nz if_False bind_ok_eq_Inr
    by (elim exE conjE) (rule that, assumption+)
  from upd_head_at [OF s(1) [unfolded lock_head_def] assms(4)] obtain x where
    "heads m1 lh = Some x" "linknode_count x = linknode_count h" by auto
  moreover from upd_head_at [OF s(3), unfolded upd_node_same_heads [OF s(2)], OF this(1)] this(2) obtain y where
    "heads m3 lh = Some y" "linknode_count y = linknode_count h" by auto
  moreover from upd_head_at [OF s(5), unfolded upd_node_same_heads [OF s(4)], OF this(1)] this(2)
  show ?thesis by (auto simp: int_inc_Inr)
qed

end
