(* ===== verification/C_Text.thy ===== *)
theory C_Text
  imports Prelude
begin

text \<open>
  The parts of the C string library the program uses: string literals and \<open>strlen\<close>,
  \<open>strncmp\<close> as a test for equality, the integer conversions \<open>%d\<close>, \<open>%02d\<close> and \<open>%4d\<close>,
  \<open>sprintf\<close> and \<open>snprintf\<close> into a block of known size.  The lemmas give the lengths of
  formatted numbers and show that they can be read back.
\<close>

abbreviation NUL :: char where
  "NUL \<equiv> CHR 0x00"

definition newline :: char where "newline = CHR 0x0A"

definition c_lit :: "string \<Rightarrow> char list" where
  "c_lit s = s @ [NUL]"

fun c_strlen :: "char list \<Rightarrow> nat res" where
  "c_strlen [] = Inl Out_of_bounds"
| "c_strlen (c # cs) = (if c = NUL then Inr 0 else bind_ok (c_strlen cs) (\<lambda>n. Inr (Suc n)))"

fun strncmp_eq :: "char list \<Rightarrow> char list \<Rightarrow> nat \<Rightarrow> bool res" where
  \<comment> \<open>\<open>!strncmp(a, b, n)\<close>\<close>
  "strncmp_eq a b 0 = Inr True"
| "strncmp_eq (x # a) (y # b) (Suc n) =
     (if x \<noteq> y then Inr False else if x = NUL then Inr True else strncmp_eq a b n)"
| "strncmp_eq a b (Suc n) = Inl Out_of_bounds"

subsection \<open>Integer conversions\<close>

definition digit :: "nat \<Rightarrow> char" where
  "digit d = char_of (48 + d)"

fun dec :: "nat \<Rightarrow> string" where
  "dec n = (if n < 10 then [digit n] else dec (n div 10) @ [digit (n mod 10)])"

declare dec.simps [simp del]

definition sign_of :: "int \<Rightarrow> string" where
  "sign_of i = (if i < 0 then ''-'' else [])"

definition fmt_d :: "int \<Rightarrow> string" where
  "fmt_d i = sign_of i @ dec (nat \<bar>i\<bar>)"

definition fmt_0d :: "nat \<Rightarrow> int \<Rightarrow> string" where
  \<comment> \<open>\<open>%0wd\<close>\<close>
  "fmt_0d w i = sign_of i @ replicate (w - length (fmt_d i)) (CHR ''0'') @ dec (nat \<bar>i\<bar>)"

definition fmt_wd :: "nat \<Rightarrow> int \<Rightarrow> string" where
  \<comment> \<open>\<open>%wd\<close>\<close>
  "fmt_wd w i = replicate (w - length (fmt_d i)) (CHR '' '') @ fmt_d i"

definition sprintf :: "char list \<Rightarrow> string \<Rightarrow> char list res" where
  \<comment> \<open>the block afterwards; the terminating NUL must fit\<close>
  "sprintf block s =
     (if length s < length block then Inr (s @ [NUL] @ drop (Suc (length s)) block)
      else Inl Out_of_bounds)"

definition snprintf :: "char list \<Rightarrow> nat \<Rightarrow> string \<Rightarrow> char list res" where
  "snprintf block n s =
     (if n = 0 then Inr block
      else sprintf block (take (n - 1) s))"

text \<open>Reading a decimal number back.\<close>

definition undec :: "string \<Rightarrow> nat" where
  "undec s = foldl (\<lambda>v c. 10 * v + (of_char c - 48)) 0 s"

subsection \<open>Strings\<close>

lemma c_strlen_append: "NUL \<notin> set s \<Longrightarrow> c_strlen (s @ NUL # r) = Inr (length s)"
  by (induction s) auto

definition c_string :: "char list \<Rightarrow> string" where
  \<comment> \<open>the characters of a block before its first NUL\<close>
  "c_string = takeWhile (\<lambda>c. c \<noteq> NUL)"

lemma c_strlen_eq:
  "c_strlen b = (if NUL \<in> set b then Inr (length (c_string b)) else Inl Out_of_bounds)"
  by (induction b) (auto simp: c_string_def)

lemma take_c_string: "take (length (c_string b)) b = c_string b"
  unfolding c_string_def by (metis takeWhile_eq_take)

lemma c_string_append: "NUL \<notin> set s \<Longrightarrow> c_string (s @ NUL # r) = s"
  unfolding c_string_def by (induction s) auto

lemma c_strlen_lit: "NUL \<notin> set s \<Longrightarrow> c_strlen (c_lit s) = Inr (length s)"
  by (simp add: c_lit_def c_strlen_append)

lemma strncmp_eq_prefix:
  assumes "NUL \<notin> set p" and "length p \<le> length b"
  shows "strncmp_eq (p @ r) b (length p) = Inr (take (length p) b = p)"
  using assms
proof (induction p arbitrary: b)
  case Nil
  then show ?case by simp
next
  case (Cons c p)
  then show ?case by (cases b) auto
qed

subsection \<open>Numbers\<close>

lemma of_char_digit: "d < 10 \<Longrightarrow> of_char (digit d) = 48 + d"
  by (simp add: digit_def)

lemma undec_append_digit: "undec (s @ [c]) = 10 * undec s + (of_char c - 48)"
  by (simp add: undec_def)

lemma undec_dec [simp]: "undec (dec n) = n"
proof (induction n rule: dec.induct)
  case (1 n)
  show ?case
  proof (cases "n < 10")
    case True
    then show ?thesis by (simp add: dec.simps [of n] undec_def of_char_digit)
  next
    case False
    with 1 show ?thesis
      by (simp add: dec.simps [of n] undec_append_digit of_char_digit)
  qed
qed

lemma undec_zeros [simp]: "undec (replicate k (CHR ''0'') @ s) = undec s"
  by (induction k) (simp_all add: undec_def)

lemma length_dec_less: "n < 10 ^ Suc k \<Longrightarrow> length (dec n) \<le> Suc k"
proof (induction k arbitrary: n)
  case 0
  then show ?case by (simp add: dec.simps [of n])
next
  case (Suc k)
  show ?case
  proof (cases "n < 10")
    case True
    then show ?thesis by (simp add: dec.simps [of n])
  next
    case False
    have "n div 10 < 10 ^ Suc k" using Suc.prems by (simp add: less_mult_imp_div_less)
    with Suc.IH False show ?thesis by (simp add: dec.simps [of n])
  qed
qed

lemma length_dec_ge: "10 ^ k \<le> n \<Longrightarrow> Suc k \<le> length (dec n)"
proof (induction k arbitrary: n)
  case 0
  then show ?case by (simp add: dec.simps [of n])
next
  case (Suc k)
  have "1 \<le> (10 :: nat) ^ k" by simp
  with Suc.prems have "10 \<le> n" by (simp only: power_Suc)
  moreover have "10 ^ k \<le> n div 10" using Suc.prems by (simp add: less_eq_div_iff_mult_less_eq)
  ultimately show ?case using Suc.IH [of "n div 10"] by (simp add: dec.simps [of n])
qed

lemma digits_not_nul: "d < 10 \<Longrightarrow> digit d \<noteq> NUL"
proof
  assume "d < 10" and "digit d = NUL"
  then have "of_char (digit d) = (of_char NUL :: nat)" by simp
  with of_char_digit [OF \<open>d < 10\<close>] show False by simp
qed

lemma dec_no_nul [simp]: "NUL \<notin> set (dec n)"
proof (induction n rule: dec.induct)
  case (1 n)
  then show ?case by (cases "n < 10") (auto simp: dec.simps [of n] digits_not_nul dest: sym)
qed

lemma fmt_no_nul [simp]:
  "NUL \<notin> set (fmt_d i)" "NUL \<notin> set (fmt_0d w i)" "NUL \<notin> set (fmt_wd w i)"
  by (auto simp: fmt_d_def fmt_0d_def fmt_wd_def sign_of_def)

text \<open>A number that fits the width of \<open>%0wd\<close> takes exactly that width and can be read back.\<close>

lemma fmt_0d_width:
  assumes "0 \<le> i" and "nat i < 10 ^ Suc k"
  shows "length (fmt_0d (Suc k) i) = Suc k" and "undec (fmt_0d (Suc k) i) = nat i"
  using assms length_dec_less [of "nat i" k] by (simp_all add: fmt_0d_def fmt_d_def sign_of_def)

lemma fmt_wd_exact:
  assumes "10 ^ k \<le> nat i" and "nat i < 10 ^ Suc k"
  shows "length (fmt_wd (Suc k) i) = Suc k" and "undec (fmt_wd (Suc k) i) = nat i"
proof -
  have "length (dec (nat i)) = Suc k" using assms length_dec_less length_dec_ge by (simp add: le_antisym)
  moreover have "0 < nat i" using assms(1) by (rule less_le_trans [rotated]) simp
  then have "0 \<le> i" by simp
  ultimately show "length (fmt_wd (Suc k) i) = Suc k" and "undec (fmt_wd (Suc k) i) = nat i"
    by (simp_all add: fmt_wd_def fmt_d_def sign_of_def)
qed

lemma fmt_d_digit:
  assumes "0 \<le> i" and "i < 10"
  shows "length (fmt_d i) = 1" and "undec (fmt_d i) = nat i"
proof -
  from assms have n: "nat i < 10" by simp
  then have "dec (nat i) = [digit (nat i)]" by (simp only: dec.simps [of "nat i"] if_True)
  with n show "length (fmt_d i) = 1" and "undec (fmt_d i) = nat i"
    using assms by (simp_all add: fmt_d_def sign_of_def undec_def of_char_digit)
qed

end
