(* ===== verification/Linklist_Life.thy ===== *)
theory Linklist_Life
  imports Linklist C_Text
begin

text \<open>
  The life of the lists of \<^verbatim>\<open>linklist.c\<close>: allocation of nodes and headers with every
  failure branch, appending freshly filled nodes, and the destruction of a whole list
  with its termination proof.
\<close>

subsection \<open>Destroying a list\<close>

lemma destory_node_heads:
  assumes "singlelinklist_destory_node a m = Inr m'"
  shows "heads m' = heads m"
  using assms
  by (auto simp: singlelinklist_destory_node_def free_buf_def free_inf_def free_node_def
      upd_inf_def upd_node_def split: if_splits)

lemma unlink_first_heads:
  assumes "unlink_first lh m = Inr (a, m')"
  shows "\<exists>h. heads m lh = Some h \<and>
           heads m' = (heads m)(lh \<mapsto> h\<lparr>linknode_count := linknode_count h - 1\<rparr>)"
  using assms
  by (auto simp: unlink_first_def upd_node_def upd_head_def deref_def split: if_splits option.splits)

definition destory_sentinel :: "addr \<Rightarrow> mem \<Rightarrow> mem res" where
  \<comment> \<open>the branch taken when the last node has been destroyed\<close>
  "destory_sentinel lh m =
     bind_ok (deref (heads m) lh) (\<lambda>h.
     if linknode_count h = 0 then
       bind_ok (reset_if_empty lh m) (\<lambda>m1. singlelinklist_destory_node (linklist_head h) m1)
     else Inr m)"

lemma destory_sentinel_count:
  assumes "destory_sentinel lh m = Inr m'"
  shows "map_option linknode_count (heads m' lh) = map_option linknode_count (heads m lh)"
  using assms
  by (auto simp: destory_sentinel_def reset_if_empty_def upd_node_def upd_head_def deref_def
      dest!: destory_node_heads split: if_splits option.splits)

text \<open>The loop ends because every iteration lowers \<open>linknode_count\<close>, which nothing else changes.\<close>

function destory_loop :: "addr \<Rightarrow> mem \<Rightarrow> (string \<times> mem) res" where
  \<comment> \<open>what is printed, and the heap; \<open>%s\<close> reads the message up to its first NUL\<close>
  "destory_loop lh m =
     bind_ok (deref (heads m) lh) (\<lambda>h.
     if linknode_count h > 0 then
       bind_ok (deref (nodes m) (linklist_head h)) (\<lambda>s.
       bind_ok (deref (nodes m) (nxt s)) (\<lambda>tmp.
       bind_ok (deref (infs m) (data tmp)) (\<lambda>d.
       bind_ok (deref (bufs m) (pdata d)) (\<lambda>b.
       bind_ok (c_strlen b) (\<lambda>len.
       bind_ok (unlink_first lh m) (\<lambda>(a, m1).
       bind_ok (singlelinklist_destory_node a m1) (\<lambda>m2.
       bind_ok (destory_sentinel lh m2) (\<lambda>m3.
       bind_ok (destory_loop lh m3) (\<lambda>(t, m4).
         Inr (''destorying ['' @ fmt_d (linknode_count h) @ '']:['' @ take len b @ '']'' @ [newline] @ t,
              m4))))))))))
     else Inr ([], m))"
  by pat_completeness auto
termination
proof (relation "measure (\<lambda>(lh, m). case heads m lh of None \<Rightarrow> 0
           | Some h \<Rightarrow> nat (linknode_count h))", goal_cases)
  case 1
  show ?case by simp
next
  case (2 lh m h s tmp d b len p a m1 m2 m3)
  then have h: "heads m lh = Some h" "0 < linknode_count h"
    by (auto simp: deref_def split: if_splits option.splits)
  from 2 have "unlink_first lh m = Inr (a, m1)" by simp
  from unlink_first_heads [OF this] h(1) 2 destory_node_heads [of a m1 m2]
  have "heads m2 lh = Some (h\<lparr>linknode_count := linknode_count h - 1\<rparr>)" by auto
  with destory_sentinel_count [of lh m2 m3] 2 have
    "map_option linknode_count (heads m3 lh) = Some (linknode_count h - 1)" by simp
  with h show ?case by auto
qed

definition destory_singlelinklist :: "addr \<Rightarrow> mem \<Rightarrow> (string \<times> mem) res" where
  "destory_singlelinklist lh m =
     (if lh = 0 then Inr ([], m)
      else
        bind_ok (deref (heads m) lh) (\<lambda>h.
        if linklist_head h = 0 then Inr ([], m)
        else
          bind_ok (lock_head lh m) (\<lambda>m1.
          bind_ok (destory_loop lh m1) (\<lambda>(t, m2).
          bind_ok (unlock_head lh m2) (\<lambda>m3.
          bind_ok (upd_head lh (\<lambda>h.
              if ll_mutex h = Unlocked then Inr (h\<lparr>ll_mutex := Uninit\<rparr>) else Inl Bad_mutex) m3) (\<lambda>m4.
          bind_ok (free_head lh m4) (\<lambda>m5. Inr (t, m5))))))))"

declare destory_loop.simps [simp del]

subsection \<open>Allocating nodes and lists\<close>

text \<open>The next \<open>k\<close> allocation requests succeed.\<close>

definition alloc_ok :: "mem \<Rightarrow> nat \<Rightarrow> bool" where
  "alloc_ok m k \<longleftrightarrow> (\<forall>i < k. \<not> oom m (nalloc m + i))"

text \<open>No block exists above the last address handed out.\<close>

definition fresh_above :: "mem \<Rightarrow> bool" where
  "fresh_above m \<longleftrightarrow> (\<forall>a > nalloc m. nodes m a = None \<and> infs m a = None \<and>
     bufs m a = None \<and> heads m a = None)"

text \<open>The heap after a successful \<open>singlelinklist_init_node\<close>.\<close>

definition after_init :: "mem \<Rightarrow> int \<Rightarrow> mem" where
  "after_init m len = m\<lparr>
     nodes := (nodes m)(nalloc m + 1 \<mapsto> \<lparr>nxt = 0, data = nalloc m + 2\<rparr>),
     infs := (infs m)(nalloc m + 2 \<mapsto>
       \<lparr>pdata = nalloc m + 3, data_len = 0, recv_fd = 0, send_to = 0\<rparr>),
     bufs := (bufs m)(nalloc m + 3 \<mapsto> replicate (size_of_int len) (CHR 0x00)),
     nalloc := nalloc m + 3\<rparr>"

lemma alloc_ok_3: "alloc_ok m 3 \<longleftrightarrow>
    \<not> oom m (nalloc m) \<and> \<not> oom m (Suc (nalloc m)) \<and> \<not> oom m (Suc (Suc (nalloc m)))"
  by (auto simp: alloc_ok_def less_Suc_eq numeral_3_eq_3)

lemma init_node_eq:
  assumes "alloc_ok m 3"
  shows "singlelinklist_init_node len m = Inr (nalloc m + 1, after_init m len)"
  using assms unfolding alloc_ok_3
  by (simp add: singlelinklist_init_node_def calloc_def upd_node_def upd_inf_def
      deref_Some after_init_def numeral_3_eq_3)

lemma init_node_fail_eq:
  assumes "\<not> alloc_ok m 3" and "fresh_above m"
  shows "\<exists>k. singlelinklist_init_node len m = Inr (0, m\<lparr>nalloc := k\<rparr>) \<and> nalloc m \<le> k"
proof -
  let ?k = "nalloc m"
  have f: "nodes m (Suc ?k) = None" "infs m (Suc (Suc ?k)) = None"
    using assms(2) by (simp_all add: fresh_above_def)
  have u: "(nodes m)(Suc ?k := None) = nodes m" "(infs m)(Suc (Suc ?k) := None) = infs m"
    using f by auto
  consider "oom m ?k" | "\<not> oom m ?k" "oom m (Suc ?k)"
    | "\<not> oom m ?k" "\<not> oom m (Suc ?k)" "oom m (Suc (Suc ?k))"
    using assms(1) by (auto simp: alloc_ok_3)
  then show ?thesis
  proof cases
    case 1
    then have "singlelinklist_init_node len m = Inr (0, m\<lparr>nalloc := Suc ?k\<rparr>)"
      by (simp add: singlelinklist_init_node_def calloc_def)
    then show ?thesis by (intro exI [of _ "Suc ?k"]) simp
  next
    case 2
    then have "singlelinklist_init_node len m = Inr (0, m\<lparr>nalloc := Suc (Suc ?k)\<rparr>)"
      by (simp add: singlelinklist_init_node_def calloc_def upd_node_def deref_Some u
          init_node_fail_def free_node_def)
    then show ?thesis by (intro exI [of _ "Suc (Suc ?k)"]) simp
  next
    case 3
    then have "singlelinklist_init_node len m = Inr (0, m\<lparr>nalloc := Suc (Suc (Suc ?k))\<rparr>)"
      by (simp add: singlelinklist_init_node_def calloc_def upd_node_def upd_inf_def deref_Some u
          init_node_fail_def free_node_def free_inf_def)
    then show ?thesis by (intro exI [of _ "Suc (Suc (Suc ?k))"]) simp
  qed
qed

lemma after_init_node:
  shows "node_addrs (after_init m len) (nalloc m + 1) = [nalloc m + 1, nalloc m + 2, nalloc m + 3]"
    and "node_block (after_init m len) (nalloc m + 1) = replicate (size_of_int len) (CHR 0x00)"
    and "node_ok (after_init m len) (nalloc m + 1)"
    and "node_msg (after_init m len) (nalloc m + 1) = \<lparr>m_bytes = [], m_fd = 0, m_to = 0\<rparr>"
  by (simp_all add: node_addrs_def node_inf_def node_buf_def node_block_def node_ok_def node_msg_def
      after_init_def INT_MAX_def)

lemma agree_after_init: "A \<subseteq> {a. a \<le> nalloc m} \<Longrightarrow> agree_on A m (after_init m len)"
  by (auto simp: agree_on_def after_init_def)

lemma init_list_ok:
  assumes "alloc_ok m 2"
  shows "\<exists>m'. init_singlelinklist True m = Inr (nalloc m + 2, m') \<and>
           ll_rep m' (nalloc m + 2) (nalloc m + 1) [] \<and> agree_on {a. a \<le> nalloc m} m m' \<and>
           nalloc m' = nalloc m + 2 \<and> oom m' = oom m"
  using assms
  by (simp add: init_singlelinklist_def calloc_def upd_node_def deref_Some alloc_ok_def
      numeral_2_eq_2 less_Suc_eq ll_shape_def ll_fp_def node_inf_def agree_on_def all_conj_distrib)

text \<open>The calls of \<open>singlelinklist_pop_node\<close> that do nothing.\<close>

lemma pop_empty: "ll_rep m lh s [] \<Longrightarrow> singlelinklist_pop_node lh dn m = Inr m"
  by (simp add: singlelinklist_pop_node_def ll_shape_def deref_Some)

lemma pop_null:
  "singlelinklist_pop_node lh 0 m = Inr m" "singlelinklist_pop_node 0 dn m = Inr m"
  by (simp_all add: singlelinklist_pop_node_def)

subsection \<open>A whole list is freed\<close>

fun destory_lines :: "string list \<Rightarrow> string" where
  \<comment> \<open>what is printed for these messages\<close>
  "destory_lines [] = []"
| "destory_lines (x # xs) =
     ''destorying ['' @ fmt_d (1 + int (length xs)) @ '']:['' @ x @ '']'' @ [newline] @ destory_lines xs"

text \<open>The heap after one iteration.\<close>

definition after_destory :: "mem \<Rightarrow> addr \<Rightarrow> addr \<Rightarrow> addr \<Rightarrow> addr list \<Rightarrow> mem" where
  "after_destory m lh s n ns = m\<lparr>
     nodes := (nodes m)(s := if ns = [] then None else map_option (nxt_update (\<lambda>_. hd ns)) (nodes m s), n := None),
     infs := (infs m)(node_inf m n := None),
     bufs := (bufs m)(node_buf m n := None),
     heads := (heads m)(lh \<mapsto> \<lparr>linklist_head = s, linklist_tail = last (s # ns),
                        linknode_count = int (length ns), ll_mutex = Locked\<rparr>)\<rparr>"

lemma destory_loop_step:
  assumes r: "ll_shape Locked m lh s (n # ns)"
  defines "m' \<equiv> after_destory m lh s n ns"
  shows "destory_loop lh m =
     (if NUL \<in> set (node_block m n) then
        bind_ok (destory_loop lh m') (\<lambda>(t, m4).
          Inr (''destorying ['' @ fmt_d (1 + int (length ns)) @ '']:['' @ c_string (node_block m n) @ '']'' @
               [newline] @ t, m4))
      else Inl Out_of_bounds)"
proof -
  from r have n: "node_ok m n" and lh: "lh \<noteq> 0" "s \<noteq> 0"
    and h: "heads m lh = Some \<lparr>linklist_head = s, linklist_tail = last (n # ns),
       linknode_count = 1 + int (length ns), ll_mutex = Locked\<rparr>"
    by (simp_all add: ll_shape_def)
  obtain sn where sn: "nodes m s = Some sn" "nxt sn = n" "data sn = 0"
    using r by (auto simp: ll_shape_def node_inf_def split: option.splits)
  have ne: "n \<noteq> s"
    using r by (auto simp: ll_shape_def ll_fp_def node_addrs_def)
  obtain nn i b where N: "nodes m n = Some nn" "data nn = node_inf m n"
    "infs m (node_inf m n) = Some i" "pdata i = node_buf m n"
    "bufs m (node_buf m n) = Some b" 
    "n \<noteq> 0" "node_inf m n \<noteq> 0" "node_buf m n \<noteq> 0"
    using n by (rule node_okE)
  have bl: "node_block m n = b" using N(5) by (simp add: node_block_def)
  have nx: "nxt nn = (if ns = [] then n else hd ns)"
    using r N(1) by (cases ns) (auto simp: ll_shape_def split: option.splits)
  note ev = deref_Some upd_head_def upd_inf_def upd_node_def unlink_first_def reset_if_empty_def
    singlelinklist_destory_node_def free_buf_def free_inf_def free_node_def destory_sentinel_def c_strlen_eq
  define m3 where "m3 = (if ns = [] then m' else
         m\<lparr>heads := (heads m)(lh \<mapsto> \<lparr>linklist_head = s, linklist_tail = last (s # ns),
               linknode_count = int (length ns), ll_mutex = Locked\<rparr>),
             bufs := (bufs m)(node_buf m n := None), infs := (infs m)(node_inf m n := None),
             nodes := (nodes m)(s \<mapsto> sn\<lparr>nxt := hd ns\<rparr>, n := None)\<rparr>)"
  have "m3 = m'" using sn by (cases m) (simp add: m3_def m'_def after_destory_def)
  moreover have "destory_loop lh m =
     (if NUL \<in> set b then
        bind_ok (destory_loop lh m3) (\<lambda>(t, m4).
          Inr (''destorying ['' @ fmt_d (1 + int (length ns)) @ '']:['' @ take (length (c_string b)) b @ '']'' @
               [newline] @ t, m4))
      else Inl Out_of_bounds)"
  proof (cases "ns = []")
    case True
    have "m3 = m\<lparr>nodes := (nodes m)(n := None, s := None), infs := (infs m)(node_inf m n := None),
       bufs := (bufs m)(node_buf m n := None), heads := (heads m)(lh \<mapsto> \<lparr>linklist_head = s,
         linklist_tail = s, linknode_count = 0, ll_mutex = Locked\<rparr>)\<rparr>"
      using True ne by (simp add: m3_def m'_def after_destory_def fun_upd_twist)
    then show ?thesis using ne N lh h sn nx True
      by (subst destory_loop.simps) (simp add: ev fun_upd_twist, cases m, simp)
  next
    case False
    then show ?thesis
      using ne N lh h sn nx by (subst destory_loop.simps) (simp add: ev m3_def fun_upd_twist)
  qed
  ultimately show ?thesis by (simp only: bl take_c_string)
qed

lemma node_upd_heads [simp]:
  "node_inf (m\<lparr>heads := h\<rparr>) a = node_inf m a" "node_buf (m\<lparr>heads := h\<rparr>) a = node_buf m a"
  "node_block (m\<lparr>heads := h\<rparr>) a = node_block m a"
  "node_addrs (m\<lparr>heads := h\<rparr>) a = node_addrs m a"
proof -
  show i: "node_inf (m\<lparr>heads := h\<rparr>) a = node_inf m a" by (simp add: node_inf_def)
  then show b: "node_buf (m\<lparr>heads := h\<rparr>) a = node_buf m a" by (simp add: node_buf_def)
  then show "node_block (m\<lparr>heads := h\<rparr>) a = node_block m a" by (simp add: node_block_def)
  from i b show "node_addrs (m\<lparr>heads := h\<rparr>) a = node_addrs m a" by (simp add: node_addrs_def)
qed

lemma node_ok_upd_heads [simp]:
  "node_ok (m\<lparr>heads := h\<rparr>) a = node_ok m a" "node_msg (m\<lparr>heads := h\<rparr>) a = node_msg m a"
  by (simp_all add: node_ok_def node_msg_def cong: option.case_cong)

lemma after_destory_shape:
  assumes "ll_shape Locked m lh s (n # ns)" and "ns \<noteq> []"
  defines "m1 \<equiv> after_destory m lh s n ns"
  shows "ll_shape Locked m1 lh s ns"
    and "x \<in> set ns \<Longrightarrow> node_inf m1 x = node_inf m x \<and> node_buf m1 x = node_buf m x \<and> node_block m1 x = node_block m x"
proof -
  note M = m1_def after_destory_def
  let ?A = "set (concat (map (node_addrs m) ns))"
  from assms(1) have fpd: "distinct (lh # s # node_addrs m n @ concat (map (node_addrs m) ns))"
    by (simp add: ll_shape_def ll_fp_def)
  then have "distinct (concat (map (node_addrs m) (n # ns)))" by simp
  then have "distinct (n # ns)" by (rule concat_node_addrs_distinct)
  moreover have "s \<notin> set (n # ns)" using fpd by (auto simp: node_addrs_def)
  ultimately have d: "distinct (s # n # ns)" "s \<notin> ?A" "lh \<notin> ?A"
    "set (node_addrs m n) \<inter> ?A = {}" "lh \<noteq> s"
    using fpd by auto
  have ag: "agree_on ?A m m1"
    unfolding agree_on_def
  proof (intro conjI ballI)
    fix a
    assume a: "a \<in> ?A"
    with d(4) have "a \<notin> set (node_addrs m n)" by blast
    moreover from a d(2,3) have "a \<noteq> s" "a \<noteq> lh" by blast+
    ultimately show "nodes m1 a = nodes m a" "infs m1 a = infs m a" "bufs m1 a = bufs m a"
      "heads m1 a = heads m a"
      by (simp_all add: M node_addrs_def)
  qed (simp add: M)
  have sub: "set (node_addrs m a) \<subseteq> ?A" if "a \<in> set ns" for a using that by auto
  have fp: "concat (map (node_addrs m1) ns) = concat (map (node_addrs m) ns)"
    using agree_on_node(1) [OF ag sub] by (simp cong: map_cong)
  have "chain (nodes m1) s ns"
    using chain_unlink [of "nodes m" s n ns] assms(1) d assms(2)
    by (simp add: M ll_shape_def)
  moreover have "node_inf m1 s = 0"
    using assms(1) d(1) assms(2)
    by (simp add: M ll_shape_def node_inf_def split: option.splits)
  moreover have "heads m1 lh = Some \<lparr>linklist_head = s, linklist_tail = last (s # ns),
      linknode_count = int (length ns), ll_mutex = Locked\<rparr>" "nalloc m1 = nalloc m"
    by (simp_all add: M)
  moreover have "\<forall>a \<in> set ns. node_ok m1 a"
    using assms(1) agree_on_node(4) [OF ag sub] by (simp add: ll_shape_def)
  ultimately have "ll_shape Locked m1 lh s ns"
    using assms(1) fp fpd by (simp add: ll_shape_def ll_fp_def)
  then show "ll_shape Locked m1 lh s ns" .
  show "x \<in> set ns \<Longrightarrow> node_inf m1 x = node_inf m x \<and> node_buf m1 x = node_buf m x \<and> node_block m1 x = node_block m x"
    using agree_on_node(1,3) [OF ag sub] by (simp add: node_addrs_def)
qed

lemma destory_loop_ok:
  assumes "ll_shape Locked m lh s ns" and "ns \<noteq> []" and "\<forall>n \<in> set ns. NUL \<in> set (node_block m n)"
  shows "\<exists>m'. destory_loop lh m = Inr (destory_lines (map (\<lambda>n. c_string (node_block m n)) ns), m') \<and>
     nodes m' = (nodes m) |` (- set (s # ns)) \<and>
     infs m' = (infs m) |` (- node_inf m ` set ns) \<and>
     bufs m' = (bufs m) |` (- node_buf m ` set ns) \<and>
     heads m' = (heads m)(lh \<mapsto> \<lparr>linklist_head = s, linklist_tail = s, linknode_count = 0,
                          ll_mutex = Locked\<rparr>) \<and> nalloc m' = nalloc m"
  using assms
proof (induction ns arbitrary: m)
  case Nil
  then show ?case by simp
next
  case (Cons n ns)
  define m1 where "m1 = after_destory m lh s n ns"
  note M = m1_def after_destory_def
  note eq = destory_loop_step [OF Cons.prems(1), folded m1_def]
  show ?case
  proof (cases "ns = []")
    case True
    have "lh \<noteq> 0" using Cons.prems by (simp add: ll_shape_def)
    then have "destory_loop lh m1 = Inr ([], m1)"
      by (subst destory_loop.simps) (simp add: M True deref_Some)
    then show ?thesis unfolding eq using Cons.prems(3)
      by (simp add: M True) (auto simp: restrict_map_def fun_eq_iff)
  next
    case False
    note S = after_destory_shape [OF Cons.prems(1) False, folded m1_def]
    have "\<forall>x \<in> set ns. NUL \<in> set (node_block m1 x)" using Cons.prems(3) S(2) by simp
    from Cons.IH [OF S(1) False this] obtain m' where
     m': "destory_loop lh m1 = Inr (destory_lines (map (\<lambda>n. c_string (node_block m1 n)) ns), m')"
     "nodes m' = (nodes m1) |` (- set (s # ns))"
     "infs m' = (infs m1) |` (- node_inf m1 ` set ns)"
     "bufs m' = (bufs m1) |` (- node_buf m1 ` set ns)"
     "heads m' = (heads m1)(lh \<mapsto> \<lparr>linklist_head = s, linklist_tail = s, linknode_count = 0,
                          ll_mutex = Locked\<rparr>)" "nalloc m' = nalloc m1" by blast
    have "node_inf m1 ` set ns = node_inf m ` set ns" "node_buf m1 ` set ns = node_buf m ` set ns"
      "map (\<lambda>n. c_string (node_block m1 n)) ns = map (\<lambda>n. c_string (node_block m n)) ns"
      using S(2) by (auto intro!: image_cong)
    note im = this
    have "NUL \<in> set (node_block m n)" using Cons.prems(3) by simp
    then have "destory_loop lh m = Inr (destory_lines (map (\<lambda>n. c_string (node_block m n)) (n # ns)), m')"
      unfolding eq by (simp add: m'(1) im(3))
    moreover have "nodes m' = (nodes m) |` (- set (s # n # ns))"
      "infs m' = (infs m) |` (- node_inf m ` set (n # ns))" "bufs m' = (bufs m) |` (- node_buf m ` set (n # ns))"
      unfolding m'(2-4) im(1,2) by (auto simp: M restrict_map_def fun_eq_iff)
    ultimately show ?thesis using m'(5,6) by (intro exI [of _ m']) (simp add: M)
  qed
qed

lemma destory_loop_unterminated:
  assumes "ll_shape Locked m lh s ns" and "\<exists>n \<in> set ns. NUL \<notin> set (node_block m n)"
  shows "destory_loop lh m = Inl Out_of_bounds"
  using assms
proof (induction ns arbitrary: m)
  case Nil
  then show ?case by simp
next
  case (Cons n ns)
  note eq = destory_loop_step [OF Cons.prems(1)]
  show ?case
  proof (cases "NUL \<in> set (node_block m n)")
    case True
    with Cons.prems(2) have "ns \<noteq> []" and *: "\<exists>x \<in> set ns. NUL \<notin> set (node_block m x)" by auto
    note S = after_destory_shape [OF Cons.prems(1) \<open>ns \<noteq> []\<close>]
    have "\<exists>x \<in> set ns. NUL \<notin> set (node_block (after_destory m lh s n ns) x)" using * S(2) by auto
    from Cons.IH [OF S(1) this] show ?thesis unfolding eq by simp
  qed (simp add: eq)
qed

lemma locked_list:
  assumes "ll_rep m lh s ns"
  obtains m1 where "lock_head lh m = Inr m1" "ll_shape Locked m1 lh s ns"
    "m1 = m\<lparr>heads := (heads m)(lh \<mapsto> \<lparr>linklist_head = s, linklist_tail = last (s # ns),
       linknode_count = int (length ns), ll_mutex = Locked\<rparr>)\<rparr>"
    "lh \<noteq> 0" "s \<noteq> 0" "\<exists>h. heads m lh = Some h \<and> linklist_head h = s"
proof -
  let ?m = "m\<lparr>heads := (heads m)(lh \<mapsto> \<lparr>linklist_head = s, linklist_tail = last (s # ns),
       linknode_count = int (length ns), ll_mutex = Locked\<rparr>)\<rparr>"
  have "lock_head lh m = Inr ?m" "lh \<noteq> 0" "s \<noteq> 0" "\<exists>h. heads m lh = Some h \<and> linklist_head h = s"
    using assms by (simp_all add: ll_shape_def lock_head_def upd_head_def deref_Some)
  moreover have "ll_shape Locked ?m lh s ns"
    using assms by (simp add: ll_shape_def ll_fp_def cong: map_cong)
  ultimately show ?thesis by (intro that [of ?m]) simp_all
qed

lemma destory_list_ok:
  assumes r: "ll_rep m lh s ns" and "ns \<noteq> []" and "\<forall>n \<in> set ns. NUL \<in> set (node_block m n)"
  shows "\<exists>m'. destory_singlelinklist lh m = Inr (destory_lines (map (\<lambda>n. c_string (node_block m n)) ns), m') \<and>
     nodes m' = (nodes m) |` (- set (s # ns)) \<and>
     infs m' = (infs m) |` (- node_inf m ` set ns) \<and>
     bufs m' = (bufs m) |` (- node_buf m ` set ns) \<and>
     heads m' = (heads m)(lh := None)"
proof -
  obtain m1 where lk: "lock_head lh m = Inr m1" "ll_shape Locked m1 lh s ns"
    and m1: "m1 = m\<lparr>heads := (heads m)(lh \<mapsto> \<lparr>linklist_head = s, linklist_tail = last (s # ns),
       linknode_count = int (length ns), ll_mutex = Locked\<rparr>)\<rparr>"
    and h: "lh \<noteq> 0" "s \<noteq> 0" "\<exists>h. heads m lh = Some h \<and> linklist_head h = s" by (rule locked_list [OF r])
  have "\<forall>n \<in> set ns. NUL \<in> set (node_block m1 n)" using assms(3) by (simp add: m1)
  from destory_loop_ok [OF lk(2) assms(2) this] obtain m' where
     m': "destory_loop lh m1 = Inr (destory_lines (map (\<lambda>n. c_string (node_block m n)) ns), m')"
     "nodes m' = (nodes m) |` (- set (s # ns))"
     "infs m' = (infs m) |` (- node_inf m ` set ns)"
     "bufs m' = (bufs m) |` (- node_buf m ` set ns)"
     "heads m' = (heads m)(lh \<mapsto> \<lparr>linklist_head = s, linklist_tail = s, linknode_count = 0,
                          ll_mutex = Locked\<rparr>)" by (auto simp: m1)
  have "destory_singlelinklist lh m =
      Inr (destory_lines (map (\<lambda>n. c_string (node_block m n)) ns), m'\<lparr>heads := (heads m)(lh := None)\<rparr>)"
    using lk h m' by (auto simp: destory_singlelinklist_def deref_Some unlock_head_def upd_head_def free_head_def)
  with m' show ?thesis by simp
qed

lemma destory_unterminated:
  assumes r: "ll_rep m lh s ns" and "\<exists>n \<in> set ns. NUL \<notin> set (node_block m n)"
  shows "destory_singlelinklist lh m = Inl Out_of_bounds"
proof -
  obtain m1 where lk: "lock_head lh m = Inr m1" "ll_shape Locked m1 lh s ns"
    and m1: "m1 = m\<lparr>heads := (heads m)(lh \<mapsto> \<lparr>linklist_head = s, linklist_tail = last (s # ns),
       linknode_count = int (length ns), ll_mutex = Locked\<rparr>)\<rparr>"
    and h: "lh \<noteq> 0" "s \<noteq> 0" "\<exists>h. heads m lh = Some h \<and> linklist_head h = s" by (rule locked_list [OF r])
  have "\<exists>n \<in> set ns. NUL \<notin> set (node_block m1 n)" using assms(2) by (simp add: m1)
  from destory_loop_unterminated [OF lk(2) this] lk(1) h show ?thesis
    by (auto simp: destory_singlelinklist_def deref_Some)
qed

lemma destory_empty_list:
  assumes r: "ll_rep m lh s []"
  shows "destory_singlelinklist lh m = Inr ([], m\<lparr>heads := (heads m)(lh := None)\<rparr>)"
  using r
  by (simp add: destory_singlelinklist_def ll_shape_def deref_Some lock_head_def unlock_head_def
      upd_head_def free_head_def destory_loop.simps)

subsection \<open>Appending a filled node\<close>

text \<open>The heap after a new node has been filled with a message\<close>
definition after_fill :: "mem \<Rightarrow> char list \<Rightarrow> int \<Rightarrow> int \<Rightarrow> mem" where
  "after_fill m bs fd dest = m\<lparr>
     nodes := (nodes m)(nalloc m + 1 \<mapsto> \<lparr>nxt = 0, data = nalloc m + 2\<rparr>),
     infs := (infs m)(nalloc m + 2 \<mapsto>
       \<lparr>pdata = nalloc m + 3, data_len = int (length bs), recv_fd = fd, send_to = dest\<rparr>),
     bufs := (bufs m)(nalloc m + 3 \<mapsto> bs),
     nalloc := nalloc m + 3\<rparr>"

lemma after_fill_node:
  assumes "int (length bs) \<le> INT_MAX"
  shows "node_addrs (after_fill m bs fd dest) (nalloc m + 1) = [nalloc m + 1, nalloc m + 2, nalloc m + 3]"
    and "node_ok (after_fill m bs fd dest) (nalloc m + 1)"
    and "node_msg (after_fill m bs fd dest) (nalloc m + 1) = \<lparr>m_bytes = bs, m_fd = fd, m_to = dest\<rparr>"
    and "node_block (after_fill m bs fd dest) (nalloc m + 1) = bs"
  using assms
  by (simp_all add: node_addrs_def node_inf_def node_buf_def node_block_def node_ok_def node_msg_def
      after_fill_def)

lemma agree_after_fill: "A \<subseteq> {a. a \<le> nalloc m} \<Longrightarrow> agree_on A m (after_fill m bs fd dest)"
  by (auto simp: agree_on_def after_fill_def)

lemma ll_fp_bound: "ll_shape l m lh s ns \<Longrightarrow> set (ll_fp m lh s ns) \<subseteq> {a. a \<le> nalloc m}"
  by (auto simp: ll_shape_def ll_fp_def node_ok_def)

lemma agree_on_trans:
  "agree_on A m m1 \<Longrightarrow> agree_on B m1 m2 \<Longrightarrow> C \<subseteq> A \<Longrightarrow> C \<subseteq> B \<Longrightarrow> agree_on C m m2"
  unfolding agree_on_def by (metis (no_types, lifting) le_trans subsetD)

lemma append_filled:
  fixes m :: mem and bs :: "char list" and fd dest :: int
  assumes r: "ll_rep m lh s ns" and room: "int (length ns) < INT_MAX"
    and len: "int (length bs) \<le> INT_MAX"
  defines "m1 \<equiv> after_fill m bs fd dest"
  defines "m' \<equiv> after_insert m1 lh s ns (nalloc m + 1)"
  shows "singlelinklist_insert_node lh (nalloc m + 1) m1 = Inr m'"
    and "ll_rep m' lh s (ns @ [nalloc m + 1])"
    and "map (node_msg m') (ns @ [nalloc m + 1]) =
           map (node_msg m) ns @ [\<lparr>m_bytes = bs, m_fd = fd, m_to = dest\<rparr>]"
    and "ll_fp m' lh s (ns @ [nalloc m + 1]) =
           ll_fp m lh s ns @ [nalloc m + 1, nalloc m + 2, nalloc m + 3]"
    and "agree_on ({a. a \<le> nalloc m} - set (ll_fp m lh s ns)) m m'"
    and "nalloc m' = nalloc m + 3" and "oom m' = oom m"
proof -
  let ?a = "nalloc m + 1"
  note nd = after_fill_node [OF len, of m fd dest, folded m1_def]
  have ag: "agree_on {a. a \<le> nalloc m} m m1" unfolding m1_def by (rule agree_after_fill) simp
  note al = agree_on_ll [OF ag ll_fp_bound [OF r]]
  have dis: "set (ll_fp m1 lh s ns) \<inter> set (node_addrs m1 ?a) = {}"
    using ll_fp_bound [OF r] unfolding al(1) nd(1) by auto
  show "singlelinklist_insert_node lh ?a m1 = Inr m'"
    unfolding m'_def by (rule insert_eq [OF al(3) [OF r] nd(2) dis room])
  note rep = after_insert_rep [OF al(3) [OF r] nd(2) dis, folded m'_def]
  show "ll_rep m' lh s (ns @ [?a])" by (rule rep(1))
  show "ll_fp m' lh s (ns @ [?a]) = ll_fp m lh s ns @ [nalloc m + 1, nalloc m + 2, nalloc m + 3]"
    unfolding rep(2) al(1) nd(1) ..
  have "node_msg m' x = node_msg m1 x" for x unfolding m'_def by (rule after_insert_node)
  then show "map (node_msg m') (ns @ [?a]) = map (node_msg m) ns @ [\<lparr>m_bytes = bs, m_fd = fd, m_to = dest\<rparr>]"
    using nd(3) al(2) by simp
  have "lh \<in> set (ll_fp m lh s ns)" "last (s # ns) \<in> set (ll_fp m lh s ns)"
    using last_in_set [of "s # ns"] by (auto simp: ll_fp_def node_addrs_def)
  then have "agree_on ({a. a \<le> nalloc m} - set (ll_fp m lh s ns)) m1 m'"
    unfolding m'_def by (intro agree_after_insert) auto
  with ag show "agree_on ({a. a \<le> nalloc m} - set (ll_fp m lh s ns)) m m'"
    by (rule agree_on_trans) auto
  show "nalloc m' = nalloc m + 3" "oom m' = oom m"
    by (simp_all add: m'_def m1_def after_insert_def after_fill_def)
qed

text \<open>Filling the node just allocated, field by field as the callers do, gives \<open>after_fill\<close>.\<close>

lemma after_init_blocks:
  "infs (after_init m n) = (infs m)(nalloc m + 2 \<mapsto>
     \<lparr>pdata = nalloc m + 3, data_len = 0, recv_fd = 0, send_to = 0\<rparr>)"
  "bufs (after_init m n) = (bufs m)(nalloc m + 3 \<mapsto> replicate (size_of_int n) (CHR 0x00))"
  "nodes (after_init m n) (Suc (nalloc m)) = Some \<lparr>nxt = 0, data = nalloc m + 2\<rparr>"
  by (simp_all add: after_init_def)

lemma fill_after_init:
  assumes "int (length bs) = n"
  shows "(after_init m n)\<lparr>infs := (infs m)(nalloc m + 2 \<mapsto>
            \<lparr>pdata = nalloc m + 3, data_len = n, recv_fd = fd, send_to = dest\<rparr>),
          bufs := (bufs m)(nalloc m + 3 \<mapsto> bs)\<rparr> = after_fill m bs fd dest"
  using assms by (simp add: after_fill_def after_init_def)

lemma add_data_eq:
  assumes r: "ll_rep m lh s ns" and room: "int (length ns) < INT_MAX"
    and d: "infs m d = Some i" "d \<noteq> 0" "bufs m (pdata i) = Some b" "pdata i \<noteq> 0"
      "d \<le> nalloc m" "pdata i \<le> nalloc m"
    and len: "0 \<le> data_len i" "data_len i \<le> int (length b)" "data_len i \<le> INT_MAX"
    and ok: "alloc_ok m 3"
  shows "add_data_to_linklist lh d m = Inr (0, after_insert
           (after_fill m (take (nat (data_len i)) b) (recv_fd i) 0) lh s ns (nalloc m + 1))"
proof -
  let ?bs = "take (nat (data_len i)) b"
  have sz: "size_of_int (data_len i) = nat (data_len i)" using len by simp
  have lb: "int (length ?bs) = data_len i" using len by simp
  have "singlelinklist_insert_node lh (nalloc m + 1) (after_fill m ?bs (recv_fd i) 0) =
     Inr (after_insert (after_fill m ?bs (recv_fd i) 0) lh s ns (nalloc m + 1))"
    using append_filled(1) [OF r room, of ?bs] len by simp
  with d len sz fill_after_init [OF lb, of m "recv_fd i" 0] show ?thesis
    by (simp add: add_data_to_linklist_def init_node_eq [OF ok] after_init_blocks deref_Some
        upd_inf_def memcpy_def)
qed

section \<open>What the list promises\<close>

text \<open>C20: \<open>singlelinklist_pop_node\<close> on a non-empty list copies the first message into the
  caller's node, frees the three blocks of the first node, leaves a well-formed list of the
  remaining messages, and touches nothing but the list and the caller's node.\<close>

theorem pop_node_takes_first:
  assumes "ll_rep m lh s (n # ns)" and "node_ok m dn"
    and "set (ll_fp m lh s (n # ns)) \<inter> set (node_addrs m dn) = {}"
    and "length (m_bytes (node_msg m n)) \<le> length (node_block m dn)"
  shows "\<exists>m'. singlelinklist_pop_node lh dn m = Inr m' \<and> ll_rep m' lh s ns \<and>
     ll_contents m lh = node_msg m' dn # ll_contents m' lh \<and>
     nodes m' n = None \<and> infs m' (node_inf m n) = None \<and> bufs m' (node_buf m n) = None \<and>
     agree_on (- (set (ll_fp m lh s (n # ns)) \<union> set (node_addrs m dn))) m m'"
proof (intro exI conjI)
  let ?m = "after_pop m lh dn s n ns"
  show "singlelinklist_pop_node lh dn m = Inr ?m" by (rule pop_eq [OF assms])
  note R = after_pop_rep [OF assms(1-3)] and D = after_pop_datanode [OF assms]
  show "ll_rep ?m lh s ns" by (rule R(1))
  show "ll_contents m lh = node_msg ?m dn # ll_contents ?m lh"
    using ll_shape_nodes [OF assms(1)] ll_shape_nodes [OF R(1)] R(2) D(3)
    by (simp add: ll_contents_def)
  show "nodes ?m n = None" "infs ?m (node_inf m n) = None" "bufs ?m (node_buf m n) = None"
    by (simp_all add: after_pop_def)
  show "agree_on (- (set (ll_fp m lh s (n # ns)) \<union> set (node_addrs m dn))) m ?m"
    by (rule agree_after_pop) (simp add: ll_fp_def node_addrs_def)
qed

text \<open>C21: \<open>singlelinklist_insert_node\<close> appends the message of the node at the end, and changes
  no block but the header, the last node and the new one.\<close>

theorem insert_node_appends:
  assumes "ll_rep m lh s ns" and "node_ok m a"
    and "set (ll_fp m lh s ns) \<inter> set (node_addrs m a) = {}" and "int (length ns) < INT_MAX"
  shows "\<exists>m'. singlelinklist_insert_node lh a m = Inr m' \<and> ll_rep m' lh s (ns @ [a]) \<and>
     ll_contents m' lh = ll_contents m lh @ [node_msg m a] \<and>
     agree_on (- {lh, last (s # ns), a}) m m'"
proof (intro exI conjI)
  let ?m = "after_insert m lh s ns a"
  show "singlelinklist_insert_node lh a m = Inr ?m" by (rule insert_eq [OF assms])
  note R = after_insert_rep [OF assms(1-3)]
  show "ll_rep ?m lh s (ns @ [a])" by (rule R(1))
  show "ll_contents ?m lh = ll_contents m lh @ [node_msg m a]"
    using ll_shape_nodes [OF assms(1)] ll_shape_nodes [OF R(1)]
    by (simp add: ll_contents_def after_insert_node(3))
  show "agree_on (- {lh, last (s # ns), a}) m ?m" by (rule agree_after_insert) simp_all
qed

text \<open>C23: \<open>singlelinklist_init_node\<close> is all or nothing.  Either it returns a complete node
  without data, or one of its three allocations failed, and then it returns null and every
  block it had obtained is freed again.\<close>

theorem init_node_all_or_nothing:
  assumes "fresh_above m"
  shows "\<exists>a m'. singlelinklist_init_node len m = Inr (a, m') \<and>
     (if alloc_ok m 3 then
        node_ok m' a \<and> node_block m' a = replicate (size_of_int len) (CHR 0x00) \<and>
        m_bytes (node_msg m' a) = [] \<and> agree_on {x. x \<le> nalloc m} m m'
      else a = 0 \<and> m' = m\<lparr>nalloc := nalloc m'\<rparr>)"
proof (cases "alloc_ok m 3")
  case True
  then show ?thesis
    using after_init_node [of m len] agree_after_init [OF subset_refl, of m len]
    by (intro exI [of _ "nalloc m + 1"] exI [of _ "after_init m len"]) (simp add: init_node_eq)
next
  case False
  with init_node_fail_eq [OF False assms, of len] show ?thesis by auto
qed

text \<open>C22: \<open>destory_singlelinklist\<close> of a non-empty list, on every branch.  When each message is
  terminated inside its buffer it prints every message with the count, and frees the header, the
  sentinel and the three blocks of every node, each exactly once, and nothing else; otherwise
  its \<open>printf\<close> reads past the end of a buffer.\<close>

theorem destory_frees_everything:
  assumes "ll_rep m lh s ns" and "ns \<noteq> []"
  shows "if \<forall>n \<in> set ns. NUL \<in> set (node_block m n)
     then \<exists>m'. destory_singlelinklist lh m = Inr (destory_lines (map (\<lambda>n. c_string (node_block m n)) ns), m') \<and>
       nodes m' = (nodes m) |` (- set (s # ns)) \<and>
       infs m' = (infs m) |` (- node_inf m ` set ns) \<and>
       bufs m' = (bufs m) |` (- node_buf m ` set ns) \<and>
       heads m' = (heads m)(lh := None)
     else destory_singlelinklist lh m = Inl Out_of_bounds"
  using destory_list_ok [OF assms] destory_unterminated [OF assms(1)] by auto

text \<open>Of an empty list it frees the header only: the sentinel is never freed.\<close>

theorem destory_empty_leaks_sentinel:
  assumes "ll_rep m lh s []"
  shows "\<exists>m'. destory_singlelinklist lh m = Inr ([], m') \<and> heads m' lh = None \<and> nodes m' s = nodes m s \<and>
     nodes m' s \<noteq> None"
  using destory_empty_list [OF assms] assms by (auto simp: ll_shape_def split: option.splits)

text \<open>\<open>add_data_to_linklist\<close> queues a copy of the bytes and of the descriptor, but not of
  the destination: the queued message goes to no port.\<close>

theorem add_data_drops_destination:
  assumes "ll_rep m lh s ns" and "int (length ns) < INT_MAX"
    and "infs m d = Some i" "d \<noteq> 0" "bufs m (pdata i) = Some b" "pdata i \<noteq> 0"
      "d \<le> nalloc m" "pdata i \<le> nalloc m"
    and "0 \<le> data_len i" "data_len i \<le> int (length b)" "data_len i \<le> INT_MAX"
    and "alloc_ok m 3"
  shows "\<exists>m'. add_data_to_linklist lh d m = Inr (0, m') \<and>
     ll_contents m' lh = ll_contents m lh @
       [\<lparr>m_bytes = take (nat (data_len i)) b, m_fd = recv_fd i, m_to = 0\<rparr>]"
proof -
  let ?bs = "take (nat (data_len i)) b"
  have "int (length ?bs) \<le> INT_MAX" using assms by simp
  note A = append_filled(2,3) [OF assms(1,2) this, of "recv_fd i" 0]
  show ?thesis
    using add_data_eq [OF assms] A(2) ll_shape_nodes [OF assms(1)] ll_shape_nodes [OF A(1)]
    by (simp add: ll_contents_def)
qed

subsection \<open>The properties at concrete inputs\<close>

text \<open>A list with the messages \<open>ab\<close> and \<open>c\<close>, and a separate node with a buffer of 4 bytes.\<close>

definition demo :: mem where
  "demo = \<lparr>nodes = [1 \<mapsto> \<lparr>nxt = 3, data = 0\<rparr>, 3 \<mapsto> \<lparr>nxt = 6, data = 4\<rparr>, 6 \<mapsto> \<lparr>nxt = 6, data = 7\<rparr>,
            9 \<mapsto> \<lparr>nxt = 0, data = 10\<rparr>],
     infs = [4 \<mapsto> \<lparr>pdata = 5, data_len = 2, recv_fd = 7, send_to = 0\<rparr>,
             7 \<mapsto> \<lparr>pdata = 8, data_len = 1, recv_fd = 7, send_to = 0\<rparr>,
             10 \<mapsto> \<lparr>pdata = 11, data_len = 3, recv_fd = 5, send_to = 2\<rparr>],
     bufs = [5 \<mapsto> ''ab'', 8 \<mapsto> ''c'', 11 \<mapsto> ''wxyz''],
     heads = [2 \<mapsto> \<lparr>linklist_head = 1, linklist_tail = 6, linknode_count = 2, ll_mutex = Unlocked\<rparr>],
     nalloc = 11, oom = (\<lambda>_. False)\<rparr>"

definition demo_empty :: mem where
  "demo_empty = \<lparr>nodes = [1 \<mapsto> \<lparr>nxt = 1, data = 0\<rparr>], infs = (\<lambda>_. None), bufs = (\<lambda>_. None),
     heads = [2 \<mapsto> \<lparr>linklist_head = 1, linklist_tail = 1, linknode_count = 0, ll_mutex = Unlocked\<rparr>],
     nalloc = 2, oom = (\<lambda>k. k = 3)\<rparr>"

lemmas demo_eval = demo_def ll_shape_def ll_fp_def node_ok_def node_addrs_def node_inf_def node_buf_def
  node_block_def node_msg_def INT_MAX_def

lemma demo_rep: "ll_rep demo 2 1 [3, 6]" and demo_node: "node_ok demo 9"
  and demo_dis: "set (ll_fp demo 2 1 [3, 6]) \<inter> set (node_addrs demo 9) = {}"
  and demo_msgs: "node_msg demo 3 = \<lparr>m_bytes = ''ab'', m_fd = 7, m_to = 0\<rparr>"
    "node_msg demo 6 = \<lparr>m_bytes = ''c'', m_fd = 7, m_to = 0\<rparr>"
    "node_msg demo 9 = \<lparr>m_bytes = ''wxy'', m_fd = 5, m_to = 2\<rparr>"
    "node_block demo 9 = ''wxyz''"
  and demo_contents: "ll_contents demo 2 = map (node_msg demo) [3, 6]"
  and demo_empty_rep: "ll_rep demo_empty 2 1 []"
  by (simp_all add: demo_eval demo_empty_def ll_contents_def ll_nodes_def numeral_2_eq_2)

lemma pop_node_takes_first_witness:
  "\<exists>m'. singlelinklist_pop_node 2 9 demo = Inr m' \<and> ll_rep m' 2 1 [6] \<and>
     node_msg m' 9 = \<lparr>m_bytes = ''ab'', m_fd = 7, m_to = 0\<rparr> \<and> nodes m' 3 = None"
  using pop_node_takes_first [OF demo_rep demo_node demo_dis]
  by (auto simp: demo_msgs demo_contents)

lemma insert_node_appends_witness:
  "\<exists>m'. singlelinklist_insert_node 2 9 demo = Inr m' \<and> ll_rep m' 2 1 [3, 6, 9] \<and>
     map m_bytes (ll_contents m' 2) = [''ab'', ''c'', ''wxy'']"
  using insert_node_appends [OF demo_rep demo_node demo_dis]
  by (auto simp: demo_msgs demo_contents INT_MAX_def)

lemma init_node_all_or_nothing_witness:
  "\<exists>m'. singlelinklist_init_node 5 demo_empty = Inr (0, m') \<and> m' = demo_empty\<lparr>nalloc := nalloc m'\<rparr>"
proof -
  have "fresh_above demo_empty" by (simp add: fresh_above_def demo_empty_def)
  moreover have "\<not> alloc_ok demo_empty 3" by (simp add: alloc_ok_3 demo_empty_def)
  ultimately show ?thesis using init_node_all_or_nothing [of demo_empty 5] by simp
qed

text \<open>The messages of \<open>demo\<close> are not terminated; those of \<open>demo_text\<close> are.\<close>

definition demo_text :: mem where
  "demo_text = demo\<lparr>bufs := [5 \<mapsto> ''ab'' @ [NUL], 8 \<mapsto> ''c'' @ [NUL, CHR ''x''], 11 \<mapsto> ''wxyz'']\<rparr>"

lemma demo_text_rep: "ll_rep demo_text 2 1 [3, 6]"
  and demo_text_blocks: "node_block demo_text 3 = ''ab'' @ [NUL]" "node_block demo_text 6 = ''c'' @ [NUL, CHR ''x'']"
  by (simp_all add: demo_text_def demo_eval numeral_2_eq_2)

lemma destory_frees_everything_witness:
  "(\<exists>m'. destory_singlelinklist 2 demo_text = Inr (''destorying [2]:[ab]'' @ [newline] @ ''destorying [1]:[c]'' @ [newline], m') \<and>
     nodes m' 1 = None \<and> nodes m' 3 = None \<and> nodes m' 9 \<noteq> None \<and> heads m' = (\<lambda>_. None)) \<and>
   destory_singlelinklist 2 demo = Inl Out_of_bounds"
proof
  have p: "destory_lines (map (\<lambda>n. c_string (node_block demo_text n)) [3, 6]) =
      ''destorying [2]:[ab]'' @ [newline] @ ''destorying [1]:[c]'' @ [newline]"
    unfolding list.map demo_text_blocks by code_simp
  have "\<forall>n \<in> set [3, 6]. NUL \<in> set (node_block demo_text n)" by (simp add: demo_text_blocks)
  with destory_frees_everything [OF demo_text_rep, unfolded p] obtain m' where
    "destory_singlelinklist 2 demo_text = Inr (''destorying [2]:[ab]'' @ [newline] @ ''destorying [1]:[c]'' @ [newline], m')"
    "nodes m' = (nodes demo_text) |` (- set [1, 3, 6])" "heads m' = (heads demo_text)(2 := None)"
    by (auto simp del: append.simps)
  then show "\<exists>m'. destory_singlelinklist 2 demo_text =
       Inr (''destorying [2]:[ab]'' @ [newline] @ ''destorying [1]:[c]'' @ [newline], m') \<and>
     nodes m' 1 = None \<and> nodes m' 3 = None \<and> nodes m' 9 \<noteq> None \<and> heads m' = (\<lambda>_. None)"
    by (intro exI [of _ m']) (simp add: demo_text_def demo_def)
  have "node_block demo 3 = ''ab''" by (simp add: demo_eval)
  with destory_frees_everything [OF demo_rep] show "destory_singlelinklist 2 demo = Inl Out_of_bounds"
    by (simp split: if_splits)
qed

lemma destory_empty_leaks_sentinel_witness:
  "\<exists>m'. destory_singlelinklist 2 demo_empty = Inr ([], m') \<and> nodes m' 1 \<noteq> None"
  using destory_empty_leaks_sentinel [OF demo_empty_rep] by auto

lemma add_data_drops_destination_witness:
  "\<exists>m'. add_data_to_linklist 2 10 demo = Inr (0, m') \<and>
     ll_contents m' 2 = ll_contents demo 2 @ [\<lparr>m_bytes = ''wxy'', m_fd = 5, m_to = 0\<rparr>]"
proof -
  have "infs demo 10 = Some \<lparr>pdata = 11, data_len = 3, recv_fd = 5, send_to = 2\<rparr>"
    "bufs demo 11 = Some ''wxyz''" "nalloc demo = 11" "alloc_ok demo 3"
    by (simp_all add: demo_def alloc_ok_def)
  with add_data_drops_destination [OF demo_rep, of 10 _ "''wxyz''"] show ?thesis
    by (simp add: INT_MAX_def)
qed

end
