(* ===== verification/Uart_State.thy ===== *)
theory Uart_State
  imports Linklist_Life C_Text
begin

text \<open>
  The global state of the daemon (\<^verbatim>\<open>uart_start.c\<close>, \<^verbatim>\<open>uart_protocol.c\<close>), the only
  function through which anything is sent, \<open>ready_send_data\<close>, and the code by which all
  receive handlers store what they have read.

  Condition variables do not appear in the state: a signal changes no data.  When a
  thread is woken is the subject of the step relations of the theories that import this
  one.  \<open>outs\<close> records what has left the program.
\<close>

datatype sent = To_dueros "char list" | To_uart "char list"

record globals =
  heap :: mem
  G_uartfd :: int
  G_epollfd :: int
  G_pipefd :: int
  G_sockfd :: int
  G_recv_linklist :: addr
  G_send_linklist :: addr
  uart_handle_analy :: "32 word list"
  pipe_handle_analy :: "32 word list"
  epoll_fds :: "int list"
  dp_node :: addr   \<comment> \<open>the variable \<open>datanode\<close> of \<open>data_process\<close>\<close>
  so_node :: addr   \<comment> \<open>the variable \<open>datanode\<close> of \<open>send_out_handler\<close>\<close>
  outs :: "sent list"

definition ready_send_data :: "int \<Rightarrow> char list option \<Rightarrow> int \<Rightarrow> globals \<Rightarrow> (int \<times> globals) res" where
  "ready_send_data dest src len g =
     (if len \<le> 0 \<or> src = None then Inr (-1, g)
      else
        bind_ok (singlelinklist_init_node len (heap g)) (\<lambda>(node, m1).
        bind_ok (deref (nodes m1) node) (\<lambda>n.
        bind_ok (upd_inf (data n) (\<lambda>i. i\<lparr>data_len := len, send_to := dest\<rparr>) m1) (\<lambda>m2.
        bind_ok (deref (infs m2) (data n)) (\<lambda>i.
        bind_ok (memcpy_from (pdata i) (the src) (size_of_int (data_len i)) m2) (\<lambda>m3.
        bind_ok (singlelinklist_insert_node (G_send_linklist g) node m3) (\<lambda>m4.
          Inr (0, g\<lparr>heap := m4\<rparr>))))))))"

definition recv_enqueue :: "int \<Rightarrow> char list \<Rightarrow> int \<Rightarrow> globals \<Rightarrow> globals res" where
  \<comment> \<open>the branch \<open>ret > 0\<close> of the receive handlers: \<open>buf\<close> is their local \<open>recv_buf\<close>\<close>
  "recv_enqueue fd buf ret g =
     bind_ok (singlelinklist_init_node ret (heap g)) (\<lambda>(node, m1).
     if node = 0 then Inr (g\<lparr>heap := m1\<rparr>)
     else
       bind_ok (deref (nodes m1) node) (\<lambda>n.
       bind_ok (upd_inf (data n) (\<lambda>i. i\<lparr>recv_fd := fd, data_len := ret\<rparr>) m1) (\<lambda>m2.
       bind_ok (deref (infs m2) (data n)) (\<lambda>i.
       bind_ok (memcpy_from (pdata i) buf (size_of_int ret) m2) (\<lambda>m3.
       bind_ok (singlelinklist_insert_node (G_recv_linklist g) node m3) (\<lambda>m4.
         Inr (g\<lparr>heap := m4\<rparr>)))))))"

subsection \<open>Storing a message\<close>

lemma ready_send_eq:
  assumes r: "ll_rep (heap g) (G_send_linklist g) s ns" and room: "int (length ns) < INT_MAX"
    and len: "0 < n" "n \<le> INT_MAX" "n \<le> int (length src)"
    and ok: "alloc_ok (heap g) 3"
  shows "ready_send_data dest (Some src) n g = Inr (0, g\<lparr>heap := after_insert
           (after_fill (heap g) (take (nat n) src) 0 dest) (G_send_linklist g) s ns
           (nalloc (heap g) + 1)\<rparr>)"
proof -
  let ?m = "heap g" and ?bs = "take (nat n) src"
  have sz: "size_of_int n = nat n" using len by simp
  have lb: "int (length ?bs) = n" using len by simp
  have "singlelinklist_insert_node (G_send_linklist g) (nalloc ?m + 1) (after_fill ?m ?bs 0 dest) =
     Inr (after_insert (after_fill ?m ?bs 0 dest) (G_send_linklist g) s ns (nalloc ?m + 1))"
    using append_filled(1) [OF r room, of ?bs] len by simp
  with len sz fill_after_init [OF lb, of ?m 0 dest] show ?thesis
    by (simp add: ready_send_data_def init_node_eq [OF ok] after_init_blocks deref_Some
        upd_inf_def memcpy_from_def)
qed

lemma recv_enqueue_eq:
  assumes r: "ll_rep (heap g) (G_recv_linklist g) s ns" and room: "int (length ns) < INT_MAX"
    and len: "0 < n" "n \<le> INT_MAX" "n \<le> int (length buf)"
    and ok: "alloc_ok (heap g) 3"
  shows "recv_enqueue fd buf n g = Inr (g\<lparr>heap := after_insert
           (after_fill (heap g) (take (nat n) buf) fd 0) (G_recv_linklist g) s ns
           (nalloc (heap g) + 1)\<rparr>)"
proof -
  let ?m = "heap g" and ?bs = "take (nat n) buf"
  have sz: "size_of_int n = nat n" using len by simp
  have lb: "int (length ?bs) = n" using len by simp
  have "singlelinklist_insert_node (G_recv_linklist g) (nalloc ?m + 1) (after_fill ?m ?bs fd 0) =
     Inr (after_insert (after_fill ?m ?bs fd 0) (G_recv_linklist g) s ns (nalloc ?m + 1))"
    using append_filled(1) [OF r room, of ?bs] len by simp
  with len sz fill_after_init [OF lb, of ?m fd 0] show ?thesis
    by (simp add: recv_enqueue_def init_node_eq [OF ok] after_init_blocks deref_Some
        upd_inf_def memcpy_from_def)
qed

text \<open>Without memory a received message is dropped, and a message to send crashes the daemon.\<close>

lemma recv_enqueue_oom:
  assumes "\<not> alloc_ok (heap g) 3" and "fresh_above (heap g)"
  shows "\<exists>k. recv_enqueue fd buf n g = Inr (g\<lparr>heap := heap g\<lparr>nalloc := k\<rparr>\<rparr>) \<and> nalloc (heap g) \<le> k"
  using init_node_fail_eq [OF assms, of n] by (auto simp: recv_enqueue_def)

lemma ready_send_oom:
  assumes "\<not> alloc_ok (heap g) 3" and "fresh_above (heap g)" and "0 < n"
  shows "ready_send_data dest (Some src) n g = Inl Null_deref"
  using init_node_fail_eq [OF assms(1,2), of n] assms(3)
  by (auto simp: ready_send_data_def deref_def)

lemma ready_send_rejects:
  "n \<le> 0 \<or> src = None \<Longrightarrow> ready_send_data dest src n g = Inr (-1, g)"
  by (auto simp: ready_send_data_def)

end
