(* ===== verification/Uart_Protocol.thy ===== *)
theory Uart_Protocol
  imports Uart_State
begin

text \<open>
  \<^verbatim>\<open>uart_protocol.c\<close>: the commands the daemon understands and the messages it answers
  with.  The calendar time returned by \<open>localtime\<close> is an argument.
\<close>

record tm =
  tm_sec :: int
  tm_min :: int
  tm_hour :: int
  tm_mday :: int
  tm_mon :: int
  tm_year :: int
  tm_wday :: int

definition time_text :: "int \<Rightarrow> int \<Rightarrow> int \<Rightarrow> int \<Rightarrow> int \<Rightarrow> int \<Rightarrow> int \<Rightarrow> string" where
  \<comment> \<open>the conversion \<open>"AXX+TIM+%02d%02d%02d%02d%d%02d%4d&"\<close>\<close>
  "time_text second minute hour day week month year =
     ''AXX+TIM+'' @ fmt_0d 2 second @ fmt_0d 2 minute @ fmt_0d 2 hour @ fmt_0d 2 day @
     fmt_d week @ fmt_0d 2 month @ fmt_wd 4 year @ ''&''"

definition Process_AT_TIME_CMD :: "tm \<Rightarrow> globals \<Rightarrow> globals res" where
  "Process_AT_TIME_CMD now g =
     bind_ok (int_add (tm_year now) 1900) (\<lambda>year.
     bind_ok (int_add (tm_mon now) 1) (\<lambda>month.
     bind_ok (snprintf (replicate 64 NUL) 64
        (time_text (tm_sec now) (tm_min now) (tm_hour now) (tm_mday now) (tm_wday now) month year))
        (\<lambda>run.
     bind_ok (c_strlen run) (\<lambda>len.
     bind_ok (ready_send_data UART (Some run) (int len) g) (\<lambda>(ret, g').
       Inr g')))))"

definition pipe_usboul_handler :: "tm \<Rightarrow> globals \<Rightarrow> globals res" where
  "pipe_usboul_handler now g =
     bind_ok (c_strlen (c_lit ''AXX+USB+OUL&'')) (\<lambda>len.
     bind_ok (ready_send_data UART (Some (c_lit ''AXX+USB+OUL&'')) (int len) g) (\<lambda>(ret, g').
       Inr g'))"

type_synonym protocol_handle = "string \<times> (tm \<Rightarrow> globals \<Rightarrow> globals res)"

definition pipe_handle :: "protocol_handle list" where
  "pipe_handle = [(''usb'', pipe_usboul_handler)]"

definition uart_handle :: "protocol_handle list" where
  "uart_handle = [(''time'', Process_AT_TIME_CMD)]"

definition get_sizeof_uart_handle :: nat where
  "get_sizeof_uart_handle = length uart_handle"

definition get_sizeof_pipe_handle :: nat where
  "get_sizeof_pipe_handle = length pipe_handle"

end
