(* ===== verification/Uart_Pipeline.thy ===== *)
theory Uart_Pipeline
  imports Uart_Protocol
begin

text \<open>
  The threads of \<^verbatim>\<open>uart_start.c\<close>: the receive handlers, \<open>data_process\<close> with \<open>data_parse\<close>,
  \<open>send_out_handler\<close>, and the part of \<open>main\<close> that sets the two lists up.  Each function
  below is one run of a handler, or one iteration of a thread's loop from the pop on.
  What a \<open>read\<close> returns is an argument: \<open>None\<close> for an error, \<open>Some bs\<close> for the bytes.
\<close>

subsection \<open>Reading\<close>

definition c_read :: "nat \<Rightarrow> char list option \<Rightarrow> int \<times> char list" where
  \<comment> \<open>result and contents of a zeroed array of \<open>len\<close> bytes after \<open>read(fd, a, len)\<close>\<close>
  "c_read len r =
     (case r of None \<Rightarrow> (-1, replicate len NUL)
      | Some bs \<Rightarrow> (int (length (take len bs)),
                    take len bs @ replicate (len - length bs) NUL))"

text \<open>
  \<open>whole_read\<close> reads into \<open>tmp_buf\<close>, an array of 1024 \<^emph>\<open>pointers\<close>, so each \<open>read\<close> may
  return up to 4096 bytes; \<open>rd k\<close> is the outcome of the \<open>k\<close>-th \<open>read\<close>.  The result is the
  count, the caller's buffer and the number of \<open>read\<close> calls.
\<close>

definition TMP_BUF :: nat where
  "TMP_BUF = 1024 * 4"

function whole_read_loop ::
    "(nat \<Rightarrow> char list option) \<Rightarrow> nat \<Rightarrow> char list \<Rightarrow> nat \<Rightarrow> nat \<Rightarrow> (nat \<times> char list \<times> nat) res" where
  "whole_read_loop rd k buf c maxlen =
     (case c_read TMP_BUF (rd k) of (n, tmp) \<Rightarrow>
      if n > 0 then
        if maxlen \<le> c + nat n then Inr (c, buf, Suc k)
        else
          bind_ok (guard_ok (c + nat n \<le> length buf) Out_of_bounds) (\<lambda>_.
            whole_read_loop rd (Suc k)
              (take c buf @ take (nat n) tmp @ drop (c + nat n) buf) (c + nat n) maxlen)
      else Inr (c, buf, Suc k))"
  by pat_completeness auto
termination
  by (relation "measure (\<lambda>(rd, k, buf, c, maxlen). maxlen - c)") auto

definition whole_read ::
    "(nat \<Rightarrow> char list option) \<Rightarrow> char list \<Rightarrow> nat \<Rightarrow> (nat \<times> char list \<times> nat) res" where
  "whole_read rd buf count = whole_read_loop rd 0 buf 0 count"

subsection \<open>Receive handlers\<close>

definition pipe_connect_handler :: "char list option \<Rightarrow> globals \<Rightarrow> globals res" where
  "pipe_connect_handler r g =
     (case c_read 1024 r of (ret, recv_buf) \<Rightarrow>
      if ret > 0 then recv_enqueue (G_pipefd g) recv_buf ret g else Inr g)"

definition sock_recv_handler :: "int \<Rightarrow> char list option \<Rightarrow> globals \<Rightarrow> globals res" where
  "sock_recv_handler listen_fd r g =
     (case c_read 1024 r of (ret, recv_buf) \<Rightarrow>
      if ret > 0 then recv_enqueue listen_fd recv_buf ret g else Inr g)"

definition epoll_add :: "bool \<Rightarrow> int \<Rightarrow> globals \<Rightarrow> globals" where
  \<comment> \<open>\<open>epoll_ctl(.., EPOLL_CTL_ADD, fd, ..)\<close> with its outcome, which the code ignores; the call fails
      for a registered descriptor, and when \<open>epoll_create\<close> has failed\<close>
  "epoll_add added fd g =
     (if added \<and> G_epollfd g \<noteq> -1 \<and> fd \<notin> set (epoll_fds g) then g\<lparr>epoll_fds := fd # epoll_fds g\<rparr> else g)"

definition epoll_del :: "int \<Rightarrow> globals \<Rightarrow> globals" where
  "epoll_del fd g = g\<lparr>epoll_fds := removeAll fd (epoll_fds g)\<rparr>"

definition uart_connect_handler :: "(nat \<Rightarrow> char list option) \<Rightarrow> bool \<Rightarrow> globals \<Rightarrow> globals res" where
  \<comment> \<open>with the results of its reads and of \<open>EPOLL_CTL_ADD\<close>\<close>
  "uart_connect_handler rd added g =
     bind_ok (whole_read rd (replicate 1024 NUL) 1024) (\<lambda>(ret, recv_buf, _).
     (let g1 = epoll_add added (G_uartfd g) g in
      if ret > 0 then recv_enqueue (G_uartfd g1) recv_buf (int ret) g1 else Inr g1))"

subsection \<open>Parsing\<close>

definition bump_uart :: "nat \<Rightarrow> globals \<Rightarrow> globals res" where
  "bump_uart i g =
     bind_ok (rd_at (uart_handle_analy g) (int i)) (\<lambda>x.
     bind_ok (wr_at (uart_handle_analy g) (int i) (x + 1)) (\<lambda>a.
       Inr (g\<lparr>uart_handle_analy := a\<rparr>)))"

definition bump_pipe :: "nat \<Rightarrow> globals \<Rightarrow> globals res" where
  "bump_pipe i g =
     bind_ok (rd_at (pipe_handle_analy g) (int i)) (\<lambda>x.
     bind_ok (wr_at (pipe_handle_analy g) (int i) (x + 1)) (\<lambda>a.
       Inr (g\<lparr>pipe_handle_analy := a\<rparr>)))"

text \<open>
  The loop over a table: every entry whose name is a prefix of the message is counted
  and its handler runs; there is no early exit.
\<close>

fun parse_table :: "(nat \<Rightarrow> globals \<Rightarrow> globals res) \<Rightarrow> protocol_handle list \<Rightarrow> nat \<Rightarrow> addr \<Rightarrow> tm
    \<Rightarrow> globals \<Rightarrow> globals res" where
  "parse_table bump [] i src now g = Inr g"
| "parse_table bump ((protocol, handler) # tbl) i src now g =
     bind_ok (deref (infs (heap g)) src) (\<lambda>d.
     bind_ok (deref (bufs (heap g)) (pdata d)) (\<lambda>b.
     bind_ok (strncmp_eq (c_lit protocol) b (length protocol)) (\<lambda>eq.
     bind_ok (if eq then bind_ok (bump i g) (handler now) else Inr g) (\<lambda>g1.
       parse_table bump tbl (Suc i) src now g1))))"

definition data_parse :: "addr \<Rightarrow> tm \<Rightarrow> globals \<Rightarrow> globals res" where
  "data_parse src now g =
     (if src = 0 then Inr g
      else
        bind_ok (deref (infs (heap g)) src) (\<lambda>d.
        if recv_fd d = G_uartfd g then parse_table bump_uart uart_handle 0 src now g
        else if recv_fd d = G_pipefd g then parse_table bump_pipe pipe_handle 0 src now g
        else Inr g))"

subsection \<open>The two worker loops\<close>

definition memset0 :: "addr \<Rightarrow> nat \<Rightarrow> mem \<Rightarrow> mem res" where
  "memset0 a n m =
     bind_ok (deref (bufs m) a) (\<lambda>b.
     bind_ok (guard_ok (n \<le> length b) Out_of_bounds) (\<lambda>_.
       Inr (m\<lparr>bufs := (bufs m)(a \<mapsto> replicate n NUL @ drop n b)\<rparr>)))"

definition data_process :: "tm \<Rightarrow> globals \<Rightarrow> globals res" where
  \<comment> \<open>one iteration, from \<open>memset(datanode->data->pdata, 0, 1024)\<close> on\<close>
  "data_process now g =
     bind_ok (deref (nodes (heap g)) (dp_node g)) (\<lambda>n.
     bind_ok (deref (infs (heap g)) (data n)) (\<lambda>i.
     bind_ok (memset0 (pdata i) 1024 (heap g)) (\<lambda>m1.
     bind_ok (singlelinklist_pop_node (G_recv_linklist g) (dp_node g) m1) (\<lambda>m2.
     bind_ok (deref (nodes m2) (dp_node g)) (\<lambda>n2.
       data_parse (data n2) now (g\<lparr>heap := m2\<rparr>))))))"

definition send_out_handler :: "globals \<Rightarrow> globals res" where
  \<comment> \<open>one iteration, from \<open>singlelinklist_pop_node\<close> on\<close>
  "send_out_handler g =
     bind_ok (singlelinklist_pop_node (G_send_linklist g) (so_node g) (heap g)) (\<lambda>m1.
     bind_ok (deref (nodes m1) (so_node g)) (\<lambda>n.
     bind_ok (deref (infs m1) (data n)) (\<lambda>i.
     bind_ok (deref (bufs m1) (pdata i)) (\<lambda>b.
     bind_ok
       (if send_to i = DUER \<or> send_to i = UART then
          bind_ok (guard_ok (size_of_int (data_len i) \<le> length b) Out_of_bounds) (\<lambda>_.
            Inr (outs g @ [if send_to i = DUER then To_dueros (take (size_of_int (data_len i)) b)
                           else To_uart (take (size_of_int (data_len i)) b)]))
        else Inr (outs g)) (\<lambda>os.
     bind_ok (memset0 (pdata i) 1024 m1) (\<lambda>m2.
     bind_ok (upd_inf (data n) (\<lambda>i. i\<lparr>data_len := 0, recv_fd := -1\<rparr>) m2) (\<lambda>m3.
       Inr (g\<lparr>heap := m3, outs := os\<rparr>))))))))"

subsection \<open>Start\<close>

definition main_lists :: "globals \<Rightarrow> globals res" where
  \<comment> \<open>\<open>main\<close>: the two lists are created\<close>
  "main_lists g =
     bind_ok (init_singlelinklist True (heap g)) (\<lambda>(recv, m1).
     bind_ok (init_singlelinklist True m1) (\<lambda>(send, m2).
       Inr (g\<lparr>heap := m2, G_recv_linklist := recv, G_send_linklist := send\<rparr>)))"

definition start_threads :: "globals \<Rightarrow> globals res" where
  \<comment> \<open>the first statements of \<open>data_process\<close> and \<open>send_out_handler\<close>\<close>
  "start_threads g =
     bind_ok (singlelinklist_init_node 1024 (heap g)) (\<lambda>(d1, m1).
     bind_ok (singlelinklist_init_node 1024 m1) (\<lambda>(d2, m2).
       Inr (g\<lparr>heap := m2, dp_node := d1, so_node := d2\<rparr>)))"

definition boot :: "int \<Rightarrow> int \<Rightarrow> (nat \<Rightarrow> bool) \<Rightarrow> globals res" where
  "boot uartfd pipefd out_of_mem =
     bind_ok (main_lists
       \<lparr>heap = \<lparr>nodes = (\<lambda>_. None), infs = (\<lambda>_. None), bufs = (\<lambda>_. None), heads = (\<lambda>_. None),
                nalloc = 0, oom = out_of_mem\<rparr>,
        G_uartfd = uartfd, G_epollfd = 0, G_pipefd = pipefd, G_sockfd = 0,
        G_recv_linklist = 0, G_send_linklist = 0,
        uart_handle_analy = replicate 64 0, pipe_handle_analy = replicate 128 0,
        epoll_fds = [uartfd, pipefd], dp_node = 0, so_node = 0, outs = []\<rparr>)
       start_threads"

declare whole_read_loop.simps [simp del]

end
