(* ===== verification/Channel.thy ===== *)
theory Channel
  imports Linklist_Life
begin

text \<open>
  A channel is a list together with the node its consumer pops into: \<open>G_recv_linklist\<close>
  with the \<open>datanode\<close> of \<open>data_process\<close>, \<open>G_send_linklist\<close> with that of
  \<open>send_out_handler\<close>.  \<open>chan_ok\<close> is the invariant of one channel and \<open>chan_fp\<close> its
  footprint; the lemmas say what appending, popping and writing to the consumer's node
  do to a channel, and that nothing outside the footprint changes.
\<close>

definition chan_fp :: "mem \<Rightarrow> addr \<Rightarrow> addr \<Rightarrow> addr list \<Rightarrow> addr \<Rightarrow> addr list" where
  "chan_fp m lh s ns dn = ll_fp m lh s ns @ node_addrs m dn"

definition chan_ok :: "mem \<Rightarrow> addr \<Rightarrow> addr \<Rightarrow> addr list \<Rightarrow> addr \<Rightarrow> bool" where
  "chan_ok m lh s ns dn \<longleftrightarrow>
     ll_rep m lh s ns \<and> node_ok m dn \<and> length (node_block m dn) = 1024 \<and>
     distinct (chan_fp m lh s ns dn) \<and>
     (\<forall>n \<in> set ns. length (m_bytes (node_msg m n)) \<le> 1024)"

definition sentinel :: "mem \<Rightarrow> addr \<Rightarrow> addr" where
  "sentinel m lh = (case heads m lh of None \<Rightarrow> 0 | Some h \<Rightarrow> linklist_head h)"

lemma ll_shape_sentinel: "ll_shape l m lh s ns \<Longrightarrow> sentinel m lh = s"
  by (simp add: ll_shape_def sentinel_def)

lemma chan_ok_determined:
  assumes "chan_ok m lh s ns dn"
  shows "sentinel m lh = s" and "ll_nodes m lh = ns" and "ll_contents m lh = map (node_msg m) ns"
  using assms ll_shape_sentinel ll_shape_nodes by (auto simp: chan_ok_def ll_contents_def)

lemma chan_fp_bound: "chan_ok m lh s ns dn \<Longrightarrow> set (chan_fp m lh s ns dn) \<subseteq> {a. a \<le> nalloc m}"
  using ll_fp_bound by (fastforce simp: chan_ok_def chan_fp_def node_ok_def)

lemma chan_frame:
  assumes ok: "chan_ok m lh s ns dn" and ag: "agree_on A m m'"
    and sub: "set (chan_fp m lh s ns dn) \<subseteq> A"
  shows "chan_ok m' lh s ns dn" and "chan_fp m' lh s ns dn = chan_fp m lh s ns dn"
    and "map (node_msg m') ns = map (node_msg m) ns" and "node_msg m' dn = node_msg m dn"
    and "node_block m' dn = node_block m dn" and "node_addrs m' dn = node_addrs m dn"
proof -
  from sub have l: "set (ll_fp m lh s ns) \<subseteq> A" and d: "set (node_addrs m dn) \<subseteq> A"
    by (auto simp: chan_fp_def)
  note L = agree_on_ll [OF ag l] and D = agree_on_node [OF ag d]
  show fp: "chan_fp m' lh s ns dn = chan_fp m lh s ns dn" by (simp add: chan_fp_def L(1) D(1))
  show "map (node_msg m') ns = map (node_msg m) ns" by (rule L(2))
  then have "\<forall>n \<in> set ns. node_msg m' n = node_msg m n" by simp
  then show "chan_ok m' lh s ns dn"
    using ok L(3) D(3,4) unfolding chan_ok_def fp by auto
  show "node_msg m' dn = node_msg m dn" "node_block m' dn = node_block m dn"
    "node_addrs m' dn = node_addrs m dn" by (rule D)+
qed

subsection \<open>Appending\<close>

lemma chan_append:
  fixes m :: mem and bs :: "char list" and fd dest :: int
  assumes ok: "chan_ok m lh s ns dn" and room: "int (length ns) < INT_MAX"
    and len: "length bs \<le> 1024"
  defines "m' \<equiv> after_insert (after_fill m bs fd dest) lh s ns (nalloc m + 1)"
  shows "chan_ok m' lh s (ns @ [nalloc m + 1]) dn"
    and "map (node_msg m') (ns @ [nalloc m + 1]) =
           map (node_msg m) ns @ [\<lparr>m_bytes = bs, m_fd = fd, m_to = dest\<rparr>]"
    and "set (chan_fp m' lh s (ns @ [nalloc m + 1]) dn) \<subseteq>
           set (chan_fp m lh s ns dn) \<union> {a. nalloc m < a}"
    and "agree_on ({a. a \<le> nalloc m} - set (ll_fp m lh s ns)) m m'"
    and "nalloc m' = nalloc m + 3" and "oom m' = oom m"
    and "node_msg m' dn = node_msg m dn" and "node_block m' dn = node_block m dn"
proof -
  let ?a = "nalloc m + 1"
  from ok have r: "ll_rep m lh s ns" by (simp add: chan_ok_def)
  have lb: "int (length bs) \<le> INT_MAX" using len by (simp add: INT_MAX_def)
  note ap = append_filled(2-7) [OF r room lb, of fd dest, folded m'_def]
  show ag: "agree_on ({a. a \<le> nalloc m} - set (ll_fp m lh s ns)) m m'" by (rule ap(4))
  show ms: "map (node_msg m') (ns @ [?a]) =
      map (node_msg m) ns @ [\<lparr>m_bytes = bs, m_fd = fd, m_to = dest\<rparr>]" by (rule ap(2))
  show "nalloc m' = nalloc m + 3" "oom m' = oom m" by (rule ap)+
  have sub: "set (node_addrs m dn) \<subseteq> {a. a \<le> nalloc m} - set (ll_fp m lh s ns)"
    using ok by (auto simp: chan_ok_def chan_fp_def node_ok_def)
  note D = agree_on_node [OF ag sub]
  show "node_msg m' dn = node_msg m dn" "node_block m' dn = node_block m dn" by (rule D)+
  have fp: "chan_fp m' lh s (ns @ [?a]) dn =
      ll_fp m lh s ns @ [nalloc m + 1, nalloc m + 2, nalloc m + 3] @ node_addrs m dn"
    unfolding chan_fp_def ap(3) D(1) by simp
  then show "set (chan_fp m' lh s (ns @ [?a]) dn) \<subseteq> set (chan_fp m lh s ns dn) \<union> {a. nalloc m < a}"
    by (auto simp: chan_fp_def)
  have "distinct (chan_fp m' lh s (ns @ [?a]) dn)"
    using ok ll_fp_bound [OF r] sub unfolding fp by (fastforce simp: chan_ok_def chan_fp_def)
  moreover have "\<forall>n \<in> set (ns @ [?a]). length (m_bytes (node_msg m' n)) \<le> 1024"
    using ms ok len by (auto simp: chan_ok_def)
  ultimately show "chan_ok m' lh s (ns @ [?a]) dn"
    using ok ap(1) D(3,4) unfolding chan_ok_def by simp
qed

subsection \<open>Popping\<close>

lemma chan_pop:
  fixes m :: mem
  assumes ok: "chan_ok m lh s (n # ns) dn"
  defines "m' \<equiv> after_pop m lh dn s n ns"
  shows "singlelinklist_pop_node lh dn m = Inr m'" and "chan_ok m' lh s ns dn"
    and "map (node_msg m') ns = map (node_msg m) ns"
    and "node_msg m' dn = node_msg m n"
    and "node_block m' dn = m_bytes (node_msg m n) @
           drop (length (m_bytes (node_msg m n))) (node_block m dn)"
    and "set (chan_fp m' lh s ns dn) \<subseteq> set (chan_fp m lh s (n # ns) dn)"
    and "agree_on (- set (chan_fp m lh s (n # ns) dn)) m m'"
    and "nalloc m' = nalloc m" and "oom m' = oom m"
proof -
  from ok have r: "ll_rep m lh s (n # ns)" and d: "node_ok m dn"
    and dis: "set (ll_fp m lh s (n # ns)) \<inter> set (node_addrs m dn) = {}"
    and fit: "length (m_bytes (node_msg m n)) \<le> length (node_block m dn)"
    by (auto simp: chan_ok_def chan_fp_def)
  show "singlelinklist_pop_node lh dn m = Inr m'" unfolding m'_def by (rule pop_eq [OF r d dis fit])
  note L = after_pop_rep [OF r d dis, folded m'_def] and D = after_pop_datanode [OF r d dis fit, folded m'_def]
  show "map (node_msg m') ns = map (node_msg m) ns" by (rule L)
  show "node_msg m' dn = node_msg m n" by (rule D)
  show bl: "node_block m' dn = m_bytes (node_msg m n) @
      drop (length (m_bytes (node_msg m n))) (node_block m dn)" by (rule D)
  have fp: "chan_fp m' lh s ns dn = ll_fp m lh s ns @ node_addrs m dn"
    by (simp add: chan_fp_def L(3) D(2))
  show "set (chan_fp m' lh s ns dn) \<subseteq> set (chan_fp m lh s (n # ns) dn)"
    unfolding fp by (auto simp: chan_fp_def ll_fp_def)
  have "distinct (ll_fp m lh s ns @ node_addrs m dn)"
    using ok by (auto simp: chan_ok_def chan_fp_def ll_fp_def)
  moreover have "length (node_block m' dn) = 1024"
    using bl fit ok by (simp add: chan_ok_def)
  moreover have "\<forall>x \<in> set ns. length (m_bytes (node_msg m' x)) \<le> 1024"
    using L(2) ok by (simp add: chan_ok_def)
  ultimately show "chan_ok m' lh s ns dn"
    using L(1) D(1) unfolding chan_ok_def fp by simp
  show "agree_on (- set (chan_fp m lh s (n # ns) dn)) m m'"
    unfolding m'_def by (rule agree_after_pop) (simp add: chan_fp_def ll_fp_def node_addrs_def)
  show "nalloc m' = nalloc m" "oom m' = oom m" by (simp_all add: m'_def after_pop_def)
qed

lemma chan_pop_empty: "chan_ok m lh s [] dn \<Longrightarrow> singlelinklist_pop_node lh dn m = Inr m"
  unfolding chan_ok_def by (elim conjE) (rule pop_empty)

subsection \<open>Writing to the consumer's node\<close>

text \<open>The heap after the \<open>data_inf\<close> of a node and its buffer have been overwritten.\<close>

definition node_write :: "mem \<Rightarrow> addr \<Rightarrow> data_inf \<Rightarrow> char list \<Rightarrow> mem" where
  "node_write m a i b = m\<lparr>infs := (infs m)(node_inf m a \<mapsto> i), bufs := (bufs m)(node_buf m a \<mapsto> b)\<rparr>"

lemma node_write_node:
  assumes "pdata i = node_buf m a"
  shows "node_inf (node_write m a i b) a = node_inf m a"
    and "node_buf (node_write m a i b) a = node_buf m a"
    and "node_addrs (node_write m a i b) a = node_addrs m a"
    and "node_block (node_write m a i b) a = b"
    and "node_msg (node_write m a i b) a =
           \<lparr>m_bytes = take (nat (data_len i)) b, m_fd = recv_fd i, m_to = send_to i\<rparr>"
    and "node_ok m a \<Longrightarrow> 0 \<le> data_len i \<Longrightarrow> data_len i \<le> int (length b) \<Longrightarrow> data_len i \<le> INT_MAX \<Longrightarrow>
           node_ok (node_write m a i b) a"
proof -
  let ?m = "node_write m a i b"
  show ni: "node_inf ?m a = node_inf m a" by (simp add: node_inf_def) (simp add: node_write_def)
  have i: "infs ?m (node_inf m a) = Some i" and bb: "bufs ?m (node_buf m a) = Some b"
    and n: "nodes ?m = nodes m" "nalloc ?m = nalloc m"
    by (simp_all add: node_write_def)
  show nb: "node_buf ?m a = node_buf m a" by (simp add: node_buf_def [of ?m] ni i assms)
  show ad: "node_addrs ?m a = node_addrs m a" by (simp add: node_addrs_def ni nb)
  show bl: "node_block ?m a = b" by (simp add: node_block_def nb bb)
  show "node_msg ?m a = \<lparr>m_bytes = take (nat (data_len i)) b, m_fd = recv_fd i, m_to = send_to i\<rparr>"
    by (simp add: node_msg_def ni i bl)
  assume "node_ok m a" "0 \<le> data_len i" "data_len i \<le> int (length b)" "data_len i \<le> INT_MAX"
  then show "node_ok ?m a" unfolding node_ok_def ad n ni nb i bl bb by simp
qed

lemma agree_node_write:
  "node_inf m a \<notin> A \<Longrightarrow> node_buf m a \<notin> A \<Longrightarrow> agree_on A m (node_write m a i b)"
  by (auto simp: agree_on_def node_write_def)

lemma chan_write:
  fixes m :: mem
  assumes ok: "chan_ok m lh s ns dn" and i: "pdata i = node_buf m dn" "0 \<le> data_len i" "data_len i \<le> 1024"
    and b: "length b = 1024"
  defines "m' \<equiv> node_write m dn i b"
  shows "chan_ok m' lh s ns dn" and "chan_fp m' lh s ns dn = chan_fp m lh s ns dn"
    and "map (node_msg m') ns = map (node_msg m) ns"
    and "agree_on (- set (chan_fp m lh s ns dn)) m m'"
    and "nalloc m' = nalloc m" and "oom m' = oom m"
proof -
  note D = node_write_node [OF i(1), of b, folded m'_def]
  have nin: "node_inf m dn \<notin> set (ll_fp m lh s ns)" "node_buf m dn \<notin> set (ll_fp m lh s ns)"
    using ok by (auto simp: chan_ok_def chan_fp_def node_addrs_def)
  then have ag: "agree_on (set (ll_fp m lh s ns)) m m'"
    unfolding m'_def by (rule agree_node_write)
  note L = agree_on_ll [OF ag subset_refl]
  show fp: "chan_fp m' lh s ns dn = chan_fp m lh s ns dn" by (simp add: chan_fp_def L(1) D(3))
  show ms: "map (node_msg m') ns = map (node_msg m) ns" by (rule L)
  have "\<forall>x \<in> set ns. length (m_bytes (node_msg m' x)) \<le> 1024"
    using ms ok by (simp add: chan_ok_def)
  moreover have "data_len i \<le> INT_MAX" "data_len i \<le> int (length b)"
    using i b by (simp_all add: INT_MAX_def)
  ultimately show "chan_ok m' lh s ns dn"
    using ok L(3) D(4) D(6) [OF _ i(2)] b unfolding chan_ok_def fp by simp
  show "agree_on (- set (chan_fp m lh s ns dn)) m m'"
    unfolding m'_def by (rule agree_node_write) (simp_all add: chan_fp_def node_addrs_def)
  show "nalloc m' = nalloc m" "oom m' = oom m" by (simp_all add: m'_def node_write_def)
qed

end
