(* ===== verification/Pipeline.thy ===== *)
theory Pipeline
  imports Uart_Pipeline Channel
begin

text \<open>
  The pipeline of the daemon as one system: receive list, parser, send list, output.
  \<open>sys_inv\<close> is the invariant of the whole state; \<open>recv_msgs\<close> and \<open>send_msgs\<close> read the
  two lists as queues of messages; \<open>response\<close> and \<open>emitted\<close> specify what the parser
  answers and what the sender does with a message.  The lemmas show that every handler,
  run from a state that satisfies the invariant, succeeds, keeps the invariant and acts
  on the two queues as specified.
\<close>

subsection \<open>Invariant and abstraction\<close>

definition sys_ok :: "globals \<Rightarrow> addr \<Rightarrow> addr list \<Rightarrow> addr \<Rightarrow> addr list \<Rightarrow> bool" where
  "sys_ok g sr rs ss sn \<longleftrightarrow>
     chan_ok (heap g) (G_recv_linklist g) sr rs (dp_node g) \<and>
     chan_ok (heap g) (G_send_linklist g) ss sn (so_node g) \<and>
     set (chan_fp (heap g) (G_recv_linklist g) sr rs (dp_node g)) \<inter>
     set (chan_fp (heap g) (G_send_linklist g) ss sn (so_node g)) = {} \<and>
     m_bytes (node_msg (heap g) (so_node g)) = [] \<and>
     length (uart_handle_analy g) = 64 \<and> length (pipe_handle_analy g) = 128"

definition sys_inv :: "globals \<Rightarrow> bool" where
  "sys_inv g \<longleftrightarrow>
     sys_ok g (sentinel (heap g) (G_recv_linklist g)) (ll_nodes (heap g) (G_recv_linklist g))
              (sentinel (heap g) (G_send_linklist g)) (ll_nodes (heap g) (G_send_linklist g))"

definition recv_msgs :: "globals \<Rightarrow> msg list" where
  "recv_msgs g = ll_contents (heap g) (G_recv_linklist g)"

definition send_msgs :: "globals \<Rightarrow> msg list" where
  "send_msgs g = ll_contents (heap g) (G_send_linklist g)"

subsection \<open>Specification of the parser and the sender\<close>

definition valid_tm :: "tm \<Rightarrow> bool" where
  \<comment> \<open>what the standard says of the result of \<open>localtime\<close>, for a four-digit year\<close>
  "valid_tm t \<longleftrightarrow>
     0 \<le> tm_sec t \<and> tm_sec t \<le> 60 \<and> 0 \<le> tm_min t \<and> tm_min t \<le> 59 \<and>
     0 \<le> tm_hour t \<and> tm_hour t \<le> 23 \<and> 1 \<le> tm_mday t \<and> tm_mday t \<le> 31 \<and>
     0 \<le> tm_mon t \<and> tm_mon t \<le> 11 \<and> 0 \<le> tm_wday t \<and> tm_wday t \<le> 6 \<and>
     -900 \<le> tm_year t \<and> tm_year t \<le> 8099"

definition time_answer :: "tm \<Rightarrow> msg" where
  "time_answer t =
     \<lparr>m_bytes = time_text (tm_sec t) (tm_min t) (tm_hour t) (tm_mday t) (tm_wday t)
                          (tm_mon t + 1) (tm_year t + 1900),
      m_fd = 0, m_to = UART\<rparr>"

definition usb_answer :: msg where
  "usb_answer = \<lparr>m_bytes = ''AXX+USB+OUL&'', m_fd = 0, m_to = UART\<rparr>"

definition starts_with :: "string \<Rightarrow> msg \<Rightarrow> bool" where
  "starts_with p x \<longleftrightarrow> take (length p) (m_bytes x) = p"

definition response :: "int \<Rightarrow> int \<Rightarrow> tm \<Rightarrow> msg \<Rightarrow> msg list" where
  "response uartfd pipefd t x =
     (if m_fd x = uartfd then (if starts_with ''time'' x then [time_answer t] else [])
      else if m_fd x = pipefd then (if starts_with ''usb'' x then [usb_answer] else [])
      else [])"

definition emitted :: "msg \<Rightarrow> sent list" where
  "emitted x =
     (if m_to x = DUER then [To_dueros (m_bytes x)]
      else if m_to x = UART then [To_uart (m_bytes x)]
      else [])"

text \<open>A counter \<open>*_handle_analy[0]\<close> after a message that is counted, or not.\<close>

definition counted :: "bool \<Rightarrow> 32 word list \<Rightarrow> 32 word list" where
  "counted b a = (if b then a[0 := a ! 0 + 1] else a)"

subsection \<open>Basic facts of the invariant\<close>

lemma sys_ok_msgs:
  assumes "sys_ok g sr rs ss sn"
  shows "sys_inv g" and "recv_msgs g = map (node_msg (heap g)) rs"
    and "send_msgs g = map (node_msg (heap g)) sn"
proof -
  from assms have R: "chan_ok (heap g) (G_recv_linklist g) sr rs (dp_node g)"
    and S: "chan_ok (heap g) (G_send_linklist g) ss sn (so_node g)"
    by (simp_all add: sys_ok_def)
  from assms show "sys_inv g"
    unfolding sys_inv_def chan_ok_determined(1,2) [OF R] chan_ok_determined(1,2) [OF S] .
  show "recv_msgs g = map (node_msg (heap g)) rs" "send_msgs g = map (node_msg (heap g)) sn"
    unfolding recv_msgs_def send_msgs_def
    by (rule chan_ok_determined(3) [OF R], rule chan_ok_determined(3) [OF S])
qed

lemma sys_invE:
  assumes "sys_inv g"
  obtains sr rs ss sn where "sys_ok g sr rs ss sn"
  using assms unfolding sys_inv_def by blast

text \<open>
  Replacing the receive channel, or the send channel, by another state of the same
  channel that stays clear of the other one.
\<close>

lemma sys_ok_recv:
  assumes ok: "sys_ok g sr rs ss sn"
    and new: "chan_ok m' (G_recv_linklist g) sr rs' (dp_node g)"
    and ag: "agree_on A (heap g) m'"
    and sub: "set (chan_fp (heap g) (G_send_linklist g) ss sn (so_node g)) \<subseteq> A"
    and fp: "set (chan_fp m' (G_recv_linklist g) sr rs' (dp_node g)) \<subseteq>
             set (chan_fp (heap g) (G_recv_linklist g) sr rs (dp_node g)) \<union> {a. nalloc (heap g) < a}"
  shows "sys_ok (g\<lparr>heap := m'\<rparr>) sr rs' ss sn"
    and "recv_msgs (g\<lparr>heap := m'\<rparr>) = map (node_msg m') rs'"
    and "send_msgs (g\<lparr>heap := m'\<rparr>) = send_msgs g"
proof -
  from ok have S: "chan_ok (heap g) (G_send_linklist g) ss sn (so_node g)"
    by (simp add: sys_ok_def)
  note F = chan_frame [OF S ag sub]
  from chan_fp_bound [OF S] fp ok
  have dis: "set (chan_fp m' (G_recv_linklist g) sr rs' (dp_node g)) \<inter>
     set (chan_fp (heap g) (G_send_linklist g) ss sn (so_node g)) = {}"
    by (fastforce simp: sys_ok_def)
  show ok': "sys_ok (g\<lparr>heap := m'\<rparr>) sr rs' ss sn"
    using ok new F(1,4) dis by (simp add: sys_ok_def F(2))
  from sys_ok_msgs(2,3) [OF this] F(3) sys_ok_msgs(3) [OF ok]
  show "recv_msgs (g\<lparr>heap := m'\<rparr>) = map (node_msg m') rs'"
    and "send_msgs (g\<lparr>heap := m'\<rparr>) = send_msgs g" by simp_all
qed

lemma sys_ok_send:
  assumes ok: "sys_ok g sr rs ss sn"
    and new: "chan_ok m' (G_send_linklist g) ss sn' (so_node g)"
    and empty: "m_bytes (node_msg m' (so_node g)) = []"
    and ag: "agree_on A (heap g) m'"
    and sub: "set (chan_fp (heap g) (G_recv_linklist g) sr rs (dp_node g)) \<subseteq> A"
    and fp: "set (chan_fp m' (G_send_linklist g) ss sn' (so_node g)) \<subseteq>
             set (chan_fp (heap g) (G_send_linklist g) ss sn (so_node g)) \<union> {a. nalloc (heap g) < a}"
  shows "sys_ok (g\<lparr>heap := m'\<rparr>) sr rs ss sn'"
    and "send_msgs (g\<lparr>heap := m'\<rparr>) = map (node_msg m') sn'"
    and "recv_msgs (g\<lparr>heap := m'\<rparr>) = recv_msgs g"
    and "node_msg m' (dp_node g) = node_msg (heap g) (dp_node g)"
    and "node_block m' (dp_node g) = node_block (heap g) (dp_node g)"
    and "node_addrs m' (dp_node g) = node_addrs (heap g) (dp_node g)"
proof -
  from ok have R: "chan_ok (heap g) (G_recv_linklist g) sr rs (dp_node g)"
    by (simp add: sys_ok_def)
  note F = chan_frame [OF R ag sub]
  from chan_fp_bound [OF R] fp ok
  have dis: "set (chan_fp (heap g) (G_recv_linklist g) sr rs (dp_node g)) \<inter>
     set (chan_fp m' (G_send_linklist g) ss sn' (so_node g)) = {}"
    by (fastforce simp: sys_ok_def)
  show ok': "sys_ok (g\<lparr>heap := m'\<rparr>) sr rs ss sn'"
    using ok new empty F(1) dis by (simp add: sys_ok_def F(2))
  from sys_ok_msgs(2,3) [OF this] F(3) sys_ok_msgs(2) [OF ok]
  show "send_msgs (g\<lparr>heap := m'\<rparr>) = map (node_msg m') sn'"
    and "recv_msgs (g\<lparr>heap := m'\<rparr>) = recv_msgs g" by simp_all
  show "node_msg m' (dp_node g) = node_msg (heap g) (dp_node g)"
    and "node_block m' (dp_node g) = node_block (heap g) (dp_node g)"
    and "node_addrs m' (dp_node g) = node_addrs (heap g) (dp_node g)" by (rule F)+
qed

subsection \<open>Receiving and queueing\<close>

lemma recv_enqueue_sys:
  assumes ok: "sys_ok g sr rs ss sn" and len: "0 < n" "n \<le> 1024" "n \<le> int (length buf)"
    and mem: "alloc_ok (heap g) 3" and room: "int (length rs) < INT_MAX"
  shows "\<exists>m'. recv_enqueue fd buf n g = Inr (g\<lparr>heap := m'\<rparr>) \<and>
     sys_ok (g\<lparr>heap := m'\<rparr>) sr (rs @ [nalloc (heap g) + 1]) ss sn \<and>
     recv_msgs (g\<lparr>heap := m'\<rparr>) =
       recv_msgs g @ [\<lparr>m_bytes = take (nat n) buf, m_fd = fd, m_to = 0\<rparr>] \<and>
     send_msgs (g\<lparr>heap := m'\<rparr>) = send_msgs g \<and>
     oom m' = oom (heap g) \<and> nalloc m' = nalloc (heap g) + 3"
proof -
  let ?bs = "take (nat n) buf" and ?a = "nalloc (heap g) + 1"
  define m' where "m' = after_insert (after_fill (heap g) ?bs fd 0) (G_recv_linklist g) sr rs ?a"
  from ok have C: "chan_ok (heap g) (G_recv_linklist g) sr rs (dp_node g)"
    and S: "chan_ok (heap g) (G_send_linklist g) ss sn (so_node g)"
    by (simp_all add: sys_ok_def)
  then have R: "ll_rep (heap g) (G_recv_linklist g) sr rs" by (simp add: chan_ok_def)
  have eq: "recv_enqueue fd buf n g = Inr (g\<lparr>heap := m'\<rparr>)"
    unfolding m'_def using len by (intro recv_enqueue_eq [OF R room _ _ _ mem]) (simp_all add: INT_MAX_def)
  have lb: "length ?bs \<le> 1024" using len by simp
  note A = chan_append [OF C room lb, of fd 0, folded m'_def]
  have sub: "set (chan_fp (heap g) (G_send_linklist g) ss sn (so_node g)) \<subseteq>
      {a. a \<le> nalloc (heap g)} - set (ll_fp (heap g) (G_recv_linklist g) sr rs)"
    using chan_fp_bound [OF S] ok by (auto simp: sys_ok_def chan_fp_def)
  note U = sys_ok_recv [OF ok A(1) A(4) sub A(3)]
  show ?thesis
    using eq U A(2,5,6) sys_ok_msgs(2) [OF ok] by (intro exI [of _ m']) simp
qed

lemma ready_send_sys:
  assumes ok: "sys_ok g sr rs ss sn" and len: "0 < n" "n \<le> 1024" "n \<le> int (length src)"
    and mem: "alloc_ok (heap g) 3" and room: "int (length sn) < INT_MAX"
  shows "\<exists>m'. ready_send_data dest (Some src) n g = Inr (0, g\<lparr>heap := m'\<rparr>) \<and>
     sys_ok (g\<lparr>heap := m'\<rparr>) sr rs ss (sn @ [nalloc (heap g) + 1]) \<and>
     send_msgs (g\<lparr>heap := m'\<rparr>) =
       send_msgs g @ [\<lparr>m_bytes = take (nat n) src, m_fd = 0, m_to = dest\<rparr>] \<and>
     recv_msgs (g\<lparr>heap := m'\<rparr>) = recv_msgs g \<and>
     oom m' = oom (heap g) \<and> nalloc m' = nalloc (heap g) + 3"
proof -
  let ?bs = "take (nat n) src" and ?a = "nalloc (heap g) + 1"
  define m' where "m' = after_insert (after_fill (heap g) ?bs 0 dest) (G_send_linklist g) ss sn ?a"
  from ok have C: "chan_ok (heap g) (G_send_linklist g) ss sn (so_node g)"
    and R: "chan_ok (heap g) (G_recv_linklist g) sr rs (dp_node g)"
    and e: "m_bytes (node_msg (heap g) (so_node g)) = []"
    by (simp_all add: sys_ok_def)
  then have S: "ll_rep (heap g) (G_send_linklist g) ss sn" by (simp add: chan_ok_def)
  have eq: "ready_send_data dest (Some src) n g = Inr (0, g\<lparr>heap := m'\<rparr>)"
    unfolding m'_def using len by (intro ready_send_eq [OF S room _ _ _ mem]) (simp_all add: INT_MAX_def)
  have lb: "length ?bs \<le> 1024" using len by simp
  note A = chan_append [OF C room lb, of 0 dest, folded m'_def]
  have sub: "set (chan_fp (heap g) (G_recv_linklist g) sr rs (dp_node g)) \<subseteq>
      {a. a \<le> nalloc (heap g)} - set (ll_fp (heap g) (G_send_linklist g) ss sn)"
    using chan_fp_bound [OF R] ok by (auto simp: sys_ok_def chan_fp_def)
  have e': "m_bytes (node_msg m' (so_node g)) = []" using A(7) e by simp
  note U = sys_ok_send [OF ok A(1) e' A(4) sub A(3)]
  show ?thesis
    using eq U(1-3) A(2,5,6) sys_ok_msgs(3) [OF ok] by (intro exI [of _ m']) simp
qed

subsection \<open>Parsing\<close>

lemma time_text_length:
  assumes "valid_tm t"
  shows "length (m_bytes (time_answer t)) = 24"
proof -
  have "length (fmt_0d 2 i) = 2" if "0 \<le> i" "i < 100" for i
    using fmt_0d_width(1) [of i 1] that by (simp add: numeral_2_eq_2)
  moreover have "length (fmt_wd 4 (tm_year t + 1900)) = 4"
    using fmt_wd_exact(1) [of 3 "tm_year t + 1900"] assms
    by (simp add: valid_tm_def nat_less_iff le_nat_iff)
  moreover have "length (fmt_d (tm_wday t)) = 1"
    using fmt_d_digit(1) [of "tm_wday t"] assms by (simp add: valid_tm_def)
  ultimately show ?thesis using assms
    by (simp add: time_answer_def time_text_def valid_tm_def)
qed

lemma time_text_no_nul: "NUL \<notin> set (m_bytes (time_answer t))"
  by (simp add: time_answer_def time_text_def)

lemma time_cmd_eq:
  assumes "valid_tm t"
  shows "Process_AT_TIME_CMD t g =
    bind_ok (ready_send_data UART (Some (m_bytes (time_answer t) @ NUL # replicate 39 NUL)) 24 g)
      (\<lambda>(ret, g'). Inr g')"
proof -
  let ?s = "m_bytes (time_answer t)"
  have s: "?s = time_text (tm_sec t) (tm_min t) (tm_hour t) (tm_mday t) (tm_wday t)
                          (tm_mon t + 1) (tm_year t + 1900)"
    by (simp add: time_answer_def)
  have "snprintf (replicate 64 NUL) 64 ?s = Inr (?s @ NUL # replicate 39 NUL)"
    using time_text_length [OF assms] by (simp add: snprintf_def sprintf_def)
  moreover have "c_strlen (?s @ NUL # replicate 39 NUL) = Inr 24"
    using c_strlen_append [OF time_text_no_nul] time_text_length [OF assms] by simp
  moreover have "int_add (tm_year t) 1900 = Inr (tm_year t + 1900)"
    "int_add (tm_mon t) 1 = Inr (tm_mon t + 1)"
    using assms by (simp_all add: int_add_def INT_MAX_def valid_tm_def)
  ultimately show ?thesis unfolding Process_AT_TIME_CMD_def
    by (simp add: s [symmetric])
qed

lemma time_cmd_sys:
  assumes ok: "sys_ok g sr rs ss sn" and t: "valid_tm t"
    and mem: "alloc_ok (heap g) 3" and room: "int (length sn) < INT_MAX"
  shows "\<exists>m'. Process_AT_TIME_CMD t g = Inr (g\<lparr>heap := m'\<rparr>) \<and>
     sys_ok (g\<lparr>heap := m'\<rparr>) sr rs ss (sn @ [nalloc (heap g) + 1]) \<and>
     send_msgs (g\<lparr>heap := m'\<rparr>) = send_msgs g @ [time_answer t] \<and>
     recv_msgs (g\<lparr>heap := m'\<rparr>) = recv_msgs g \<and>
     oom m' = oom (heap g) \<and> nalloc m' \<le> nalloc (heap g) + 3"
proof -
  have "24 \<le> int (length (m_bytes (time_answer t) @ NUL # replicate 39 NUL))"
    using time_text_length [OF t] by simp
  from ready_send_sys [OF ok _ _ this mem room, of UART]
  show ?thesis unfolding time_cmd_eq [OF t] using time_text_length [OF t]
    by (auto simp: time_answer_def)
qed

lemma usb_cmd_sys:
  assumes ok: "sys_ok g sr rs ss sn"
    and mem: "alloc_ok (heap g) 3" and room: "int (length sn) < INT_MAX"
  shows "\<exists>m'. pipe_usboul_handler t g = Inr (g\<lparr>heap := m'\<rparr>) \<and>
     sys_ok (g\<lparr>heap := m'\<rparr>) sr rs ss (sn @ [nalloc (heap g) + 1]) \<and>
     send_msgs (g\<lparr>heap := m'\<rparr>) = send_msgs g @ [usb_answer] \<and>
     recv_msgs (g\<lparr>heap := m'\<rparr>) = recv_msgs g \<and>
     oom m' = oom (heap g) \<and> nalloc m' \<le> nalloc (heap g) + 3"
proof -
  have len: "c_strlen (c_lit ''AXX+USB+OUL&'') = Inr 12"
    by (simp add: c_strlen_lit)
  have "12 \<le> int (length (c_lit ''AXX+USB+OUL&''))" by (simp add: c_lit_def)
  from ready_send_sys [OF ok _ _ this mem room, of UART]
  show ?thesis unfolding pipe_usboul_handler_def len
    by (auto simp: usb_answer_def c_lit_def)
qed

lemma strncmp_block:
  assumes "NUL \<notin> set p" and "length p \<le> 1024" and "b = bs @ replicate (1024 - length bs) NUL"
    and "length bs \<le> 1024"
  shows "strncmp_eq (c_lit p) b (length p) = Inr (take (length p) bs = p)"
proof -
  have "(take (length p) b = p) = (take (length p) bs = p)"
  proof (cases "length p \<le> length bs")
    case True
    then show ?thesis by (simp add: assms(3))
  next
    case False
    then have "take (length p) b = bs @ NUL # replicate (length p - length bs - 1) NUL"
      using assms(2,3) by (cases "length p - length bs") (simp_all add: min_def)
    then have "NUL \<in> set (take (length p) b)" by simp
    with assms(1) have "take (length p) b \<noteq> p" by metis
    moreover have "take (length p) bs \<noteq> p" using False by (metis length_take min.absorb_iff1 nat_le_linear)
    ultimately show ?thesis by simp
  qed
  then show ?thesis
    using strncmp_eq_prefix [OF assms(1), of b "[NUL]"] assms by (simp add: c_lit_def)
qed

lemma data_parse_sys:
  fixes g :: globals
  assumes ok: "sys_ok g sr rs ss sn" and t: "valid_tm t"
    and blk: "node_block (heap g) (dp_node g) =
        m_bytes x @ replicate (1024 - length (m_bytes x)) NUL" "length (m_bytes x) \<le> 1024"
    and fd: "m_fd (node_msg (heap g) (dp_node g)) = m_fd x"
    and mem: "alloc_ok (heap g) 3" and room: "int (length sn) < INT_MAX"
  defines "g1 \<equiv> g\<lparr>uart_handle_analy :=
        counted (m_fd x = G_uartfd g \<and> starts_with ''time'' x) (uart_handle_analy g),
      pipe_handle_analy :=
        counted (m_fd x \<noteq> G_uartfd g \<and> m_fd x = G_pipefd g \<and> starts_with ''usb'' x)
          (pipe_handle_analy g)\<rparr>"
  shows "\<exists>m' sn'. data_parse (node_inf (heap g) (dp_node g)) t g = Inr (g1\<lparr>heap := m'\<rparr>) \<and>
     sys_ok (g1\<lparr>heap := m'\<rparr>) sr rs ss sn' \<and>
     send_msgs (g1\<lparr>heap := m'\<rparr>) = send_msgs g @ response (G_uartfd g) (G_pipefd g) t x \<and>
     recv_msgs (g1\<lparr>heap := m'\<rparr>) = recv_msgs g \<and>
     oom m' = oom (heap g) \<and> nalloc m' \<le> nalloc (heap g) + 3"
proof -
  let ?d = "node_inf (heap g) (dp_node g)"
  from ok have "node_ok (heap g) (dp_node g)" by (simp add: sys_ok_def chan_ok_def)
  then obtain i b where N: "infs (heap g) ?d = Some i" "pdata i = node_buf (heap g) (dp_node g)"
    "bufs (heap g) (node_buf (heap g) (dp_node g)) = Some b" "node_block (heap g) (dp_node g) = b"
    "?d \<noteq> 0" "node_buf (heap g) (dp_node g) \<noteq> 0"
    by (rule node_okE)
  have fdi: "recv_fd i = m_fd x" using fd N(1) by (simp add: node_msg_def)
  have cmp: "strncmp_eq (c_lit p) b (length p) = Inr (starts_with p x)"
    if "NUL \<notin> set p" "length p \<le> 1024" for p
    using strncmp_block [OF that, of b "m_bytes x"] blk N(4) by (simp add: starts_with_def)
  have ok1: "sys_ok g1 sr rs ss sn" "heap g1 = heap g"
    using ok by (simp_all add: sys_ok_def g1_def counted_def)
  have ms: "send_msgs g1 = send_msgs g" "recv_msgs g1 = recv_msgs g"
    by (simp_all add: g1_def send_msgs_def recv_msgs_def)
  have len: "length (uart_handle_analy g) = 64" "length (pipe_handle_analy g) = 128"
    using ok by (simp_all add: sys_ok_def)
  have nil: "parse_table bump [] k src now = Inr" for bump k src now by (rule ext) simp
  consider (time) "m_fd x = G_uartfd g" "starts_with ''time'' x"
    | (usb) "m_fd x \<noteq> G_uartfd g" "m_fd x = G_pipefd g" "starts_with ''usb'' x"
    | (none) "\<not> (m_fd x = G_uartfd g \<and> starts_with ''time'' x)"
        "\<not> (m_fd x \<noteq> G_uartfd g \<and> m_fd x = G_pipefd g \<and> starts_with ''usb'' x)"
    by blast
  then show ?thesis
  proof cases
    case time
    then have "data_parse ?d t g = Process_AT_TIME_CMD t g1"
      using N fdi len cmp [of "''time''"]
      by (simp add: data_parse_def deref_Some uart_handle_def bump_uart_def rd_at_def wr_at_def
          g1_def counted_def nil del: strncmp_eq.simps)
    with time_cmd_sys [OF ok1(1) t] mem room ok1(2) ms time show ?thesis
      by (auto simp: response_def)
  next
    case usb
    then have "data_parse ?d t g = pipe_usboul_handler t g1"
      using N fdi len cmp [of "''usb''"]
      by (simp add: data_parse_def deref_Some pipe_handle_def bump_pipe_def rd_at_def wr_at_def
          g1_def counted_def nil del: strncmp_eq.simps)
    with usb_cmd_sys [OF ok1(1), of t] mem room ok1(2) ms usb show ?thesis
      by (auto simp: response_def)
  next
    case none
    then have "data_parse ?d t g = Inr g"
      using N fdi cmp [of "''usb''"] cmp [of "''time''"]
      by (auto simp add: data_parse_def deref_Some pipe_handle_def uart_handle_def simp del: strncmp_eq.simps)
    moreover have "g1 = g" unfolding g1_def counted_def if_not_P [OF none(1)] if_not_P [OF none(2)] by simp
    moreover have "response (G_uartfd g) (G_pipefd g) t x = []" using none by (auto simp: response_def)
    ultimately show ?thesis using ok by (intro exI [of _ "heap g"] exI [of _ sn]) simp
  qed
qed

lemma recv_enqueue_room:
  assumes "recv_enqueue fd buf n g = Inr g'" and "sys_ok g sr rs ss sn" and "alloc_ok (heap g) 3"
    and "0 < n" "n \<le> 1024" "n \<le> int (length buf)"
  shows "int (length rs) < INT_MAX"
proof -
  let ?m = "heap g" and ?bs = "take (nat n) buf"
  from assms(2) have lh: "G_recv_linklist g \<noteq> 0" and
    "heads ?m (G_recv_linklist g) = Some \<lparr>linklist_head = sr, linklist_tail = last (sr # rs),
       linknode_count = int (length rs), ll_mutex = Unlocked\<rparr>"
    by (simp_all add: sys_ok_def chan_ok_def ll_shape_def)
  then have h: "heads (after_fill ?m ?bs fd 0) (G_recv_linklist g) = Some \<lparr>linklist_head = sr, linklist_tail = last (sr # rs),
       linknode_count = int (length rs), ll_mutex = Unlocked\<rparr>"
    by (simp add: after_fill_def)
  have sz: "size_of_int n = nat n" using assms(4,5) by (simp add: INT_MAX_def)
  have lb: "int (length ?bs) = n" using assms(4,6) by simp
  obtain m' where "singlelinklist_insert_node (G_recv_linklist g) (nalloc ?m + 1) (after_fill ?m ?bs fd 0) = Inr m'"
    using assms(1,4,6) sz fill_after_init [OF lb, of ?m fd 0]
    by (auto simp: recv_enqueue_def init_node_eq [OF assms(3)] after_init_blocks deref_Some
        upd_inf_def memcpy_from_def)
  from insert_room [OF this _ lh h] show ?thesis by simp
qed

lemma memset_write:
  assumes "node_ok m a" and "infs m (node_inf m a) = Some i" and "length (node_block m a) = 1024"
  shows "memset0 (pdata i) 1024 m = Inr (node_write m a i (replicate 1024 NUL))"
proof -
  from assms(1) obtain b where "pdata i = node_buf m a" "bufs m (node_buf m a) = Some b"
    "node_block m a = b" "node_buf m a \<noteq> 0"
    by (rule node_okE) (use assms(2) in simp)
  moreover have "(infs m)(node_inf m a \<mapsto> i) = infs m" using assms(2) by auto
  ultimately show ?thesis
    using assms(3) by (simp add: memset0_def deref_Some node_write_def)
qed

text \<open>\<open>data_process\<close> with at least one message: the message it takes, and what it does with it.\<close>

lemma take_sys:
  fixes g :: globals
  assumes ok: "sys_ok g sr (n # rs) ss sn"
  defines "x \<equiv> node_msg (heap g) n"
  obtains nd i m1 m2 where
    "deref (nodes (heap g)) (dp_node g) = Inr nd" "deref (infs (heap g)) (data nd) = Inr i"
    "memset0 (pdata i) 1024 (heap g) = Inr m1"
    "singlelinklist_pop_node (G_recv_linklist g) (dp_node g) m1 = Inr m2"
    "sys_ok (g\<lparr>heap := m2\<rparr>) sr rs ss sn" "recv_msgs g = x # recv_msgs (g\<lparr>heap := m2\<rparr>)"
    "send_msgs (g\<lparr>heap := m2\<rparr>) = send_msgs g" "node_msg m2 (dp_node g) = x"
    "node_block m2 (dp_node g) = m_bytes x @ replicate (1024 - length (m_bytes x)) NUL"
    "length (m_bytes x) \<le> 1024" "node_ok m2 (dp_node g)" "nalloc m2 = nalloc (heap g)" "oom m2 = oom (heap g)"
proof -
  let ?m = "heap g" and ?d = "dp_node g" and ?r = "G_recv_linklist g"
  from ok have C: "chan_ok ?m ?r sr (n # rs) ?d"
    and dis: "set (chan_fp ?m ?r sr (n # rs) ?d) \<inter> set (chan_fp ?m (G_send_linklist g) ss sn (so_node g)) = {}"
    by (simp_all add: sys_ok_def)
  then have D: "node_ok ?m ?d" "length (node_block ?m ?d) = 1024" by (simp_all add: chan_ok_def)
  obtain nd i where N: "nodes ?m ?d = Some nd" "data nd = node_inf ?m ?d"
    "infs ?m (node_inf ?m ?d) = Some i" "pdata i = node_buf ?m ?d" "?d \<noteq> 0" "node_inf ?m ?d \<noteq> 0"
    "0 \<le> data_len i" "data_len i \<le> int (length (node_block ?m ?d))"
    using D(1) by (rule node_okE) (metis)
  define m1 where "m1 = node_write ?m ?d i (replicate 1024 NUL)"
  have ms: "memset0 (pdata i) 1024 ?m = Inr m1"
    unfolding m1_def by (rule memset_write [OF D(1) N(3) D(2)])
  have dl: "data_len i \<le> 1024" using N(8) D(2) by simp
  note W = chan_write [OF C N(4,7) dl length_replicate, of NUL, folded m1_def]
  define m2 where "m2 = after_pop m1 ?r ?d sr n rs"
  note P = chan_pop [OF W(1), folded m2_def]
  have x: "node_msg m1 n = x" using W(3) by (simp add: x_def)
  have lx: "length (m_bytes x) \<le> 1024" using C by (simp add: chan_ok_def x_def)
  have bl: "node_block m2 ?d = m_bytes x @ replicate (1024 - length (m_bytes x)) NUL"
    using P(5) node_write_node(4) [OF N(4), of "replicate 1024 NUL"] unfolding x m1_def [symmetric] by simp
  have ag: "agree_on (- set (chan_fp ?m ?r sr (n # rs) ?d)) ?m m2"
    using agree_on_trans [OF W(4) P(7)] W(2) by simp
  have fp: "set (chan_fp m2 ?r sr rs ?d) \<subseteq>
      set (chan_fp ?m ?r sr (n # rs) ?d) \<union> {a. nalloc ?m < a}"
    using P(6) W(2) by auto
  have sub: "set (chan_fp ?m (G_send_linklist g) ss sn (so_node g)) \<subseteq>
      - set (chan_fp ?m ?r sr (n # rs) ?d)" using dis by auto
  note U = sys_ok_recv [OF ok P(2) ag sub fp]
  have rm: "recv_msgs g = x # recv_msgs (g\<lparr>heap := m2\<rparr>)"
    using sys_ok_msgs(2) [OF ok] U(2) P(3) W(3) by (simp add: x_def)
  show ?thesis
    by (rule that [of nd i m1 m2])
      (use N ms P U rm bl lx x W(5,6) in \<open>simp_all add: deref_Some chan_ok_def\<close>)
qed

lemma data_process_sys:
  fixes g :: globals
  assumes ok: "sys_ok g sr (n # rs) ss sn" and t: "valid_tm t"
    and mem: "alloc_ok (heap g) 3" and room: "int (length sn) < INT_MAX"
  defines "x \<equiv> node_msg (heap g) n"
  defines "g1 \<equiv> g\<lparr>uart_handle_analy :=
        counted (m_fd x = G_uartfd g \<and> starts_with ''time'' x) (uart_handle_analy g),
      pipe_handle_analy :=
        counted (m_fd x \<noteq> G_uartfd g \<and> m_fd x = G_pipefd g \<and> starts_with ''usb'' x)
          (pipe_handle_analy g)\<rparr>"
  shows "\<exists>m' sn'. data_process t g = Inr (g1\<lparr>heap := m'\<rparr>) \<and>
     sys_ok (g1\<lparr>heap := m'\<rparr>) sr rs ss sn' \<and>
     recv_msgs g = x # recv_msgs (g1\<lparr>heap := m'\<rparr>) \<and>
     send_msgs (g1\<lparr>heap := m'\<rparr>) = send_msgs g @ response (G_uartfd g) (G_pipefd g) t x \<and>
     oom m' = oom (heap g) \<and> nalloc m' \<le> nalloc (heap g) + 3"
proof -
  obtain nd i m1 m2 where T:
    "deref (nodes (heap g)) (dp_node g) = Inr nd" "deref (infs (heap g)) (data nd) = Inr i"
    "memset0 (pdata i) 1024 (heap g) = Inr m1"
    "singlelinklist_pop_node (G_recv_linklist g) (dp_node g) m1 = Inr m2"
    "sys_ok (g\<lparr>heap := m2\<rparr>) sr rs ss sn" "recv_msgs g = x # recv_msgs (g\<lparr>heap := m2\<rparr>)"
    "send_msgs (g\<lparr>heap := m2\<rparr>) = send_msgs g" "node_msg m2 (dp_node g) = x"
    "node_block m2 (dp_node g) = m_bytes x @ replicate (1024 - length (m_bytes x)) NUL"
    "length (m_bytes x) \<le> 1024" "node_ok m2 (dp_node g)" "nalloc m2 = nalloc (heap g)" "oom m2 = oom (heap g)"
    unfolding x_def by (rule take_sys [OF ok])
  have al: "alloc_ok m2 3" using mem T(12,13) by (simp add: alloc_ok_def)
  obtain nd2 where N2: "nodes m2 (dp_node g) = Some nd2" "data nd2 = node_inf m2 (dp_node g)" "dp_node g \<noteq> 0"
    using T(11) by (rule node_okE)
  have "data_process t g = data_parse (node_inf m2 (dp_node g)) t (g\<lparr>heap := m2\<rparr>)"
    using T(1-4) N2 by (simp add: data_process_def deref_Some)
  moreover have "m_fd (node_msg m2 (dp_node g)) = m_fd x" using T(8) by simp
  ultimately show ?thesis
    using data_parse_sys [OF T(5) t, of x] T al room unfolding g1_def by auto
qed

lemma data_process_spurious:
  fixes g :: globals
  assumes ok: "sys_ok g sr [] ss sn"
  shows "\<exists>m'. data_process t g = Inr (g\<lparr>heap := m'\<rparr>) \<and> sys_ok (g\<lparr>heap := m'\<rparr>) sr [] ss sn \<and>
     recv_msgs (g\<lparr>heap := m'\<rparr>) = [] \<and> send_msgs (g\<lparr>heap := m'\<rparr>) = send_msgs g \<and>
     oom m' = oom (heap g) \<and> nalloc m' = nalloc (heap g)"
proof -
  let ?m = "heap g" and ?d = "dp_node g" and ?r = "G_recv_linklist g"
  from ok have C: "chan_ok ?m ?r sr [] ?d"
    and dis: "set (chan_fp ?m ?r sr [] ?d) \<inter> set (chan_fp ?m (G_send_linklist g) ss sn (so_node g)) = {}"
    by (simp_all add: sys_ok_def)
  then have D: "node_ok ?m ?d" "length (node_block ?m ?d) = 1024" by (simp_all add: chan_ok_def)
  obtain nd i where N: "nodes ?m ?d = Some nd" "data nd = node_inf ?m ?d"
    "infs ?m (node_inf ?m ?d) = Some i" "pdata i = node_buf ?m ?d" "?d \<noteq> 0" "node_inf ?m ?d \<noteq> 0"
    "node_buf ?m ?d \<noteq> 0" "0 \<le> data_len i" "data_len i \<le> int (length (node_block ?m ?d))"
    using D(1) by (rule node_okE) (metis)
  define m1 where "m1 = node_write ?m ?d i (replicate 1024 NUL)"
  have ms: "memset0 (pdata i) 1024 ?m = Inr m1"
    unfolding m1_def by (rule memset_write [OF D(1) N(3) D(2)])
  have dl: "data_len i \<le> 1024" using N(9) D(2) by simp
  note W = chan_write [OF C N(4,8) dl length_replicate, of NUL, folded m1_def]
  have fp: "set (chan_fp m1 ?r sr [] ?d) \<subseteq> set (chan_fp ?m ?r sr [] ?d) \<union> {a. nalloc ?m < a}"
    using W(2) by auto
  have sub: "set (chan_fp ?m (G_send_linklist g) ss sn (so_node g)) \<subseteq> - set (chan_fp ?m ?r sr [] ?d)"
    using dis by auto
  note U = sys_ok_recv [OF ok W(1) W(4) sub fp]
  have n1: "nodes m1 = nodes ?m" "infs m1 (node_inf ?m ?d) = Some i"
    "bufs m1 (node_buf ?m ?d) = Some (replicate 1024 NUL)"
    by (simp_all add: m1_def node_write_def)
  have cmp: "strncmp_eq (c_lit p) (replicate 1024 NUL) (length p) = Inr (p = [])"
    if "NUL \<notin> set p" "length p \<le> 1024" for p
    using strncmp_block [OF that, of "replicate 1024 NUL" "[]"] by auto
  have "data_process t g = data_parse (node_inf ?m ?d) t (g\<lparr>heap := m1\<rparr>)"
    using N ms chan_pop_empty [OF W(1)] n1 by (simp add: data_process_def deref_Some)
  also have "\<dots> = Inr (g\<lparr>heap := m1\<rparr>)"
    using N n1 cmp [of "''time''"] cmp [of "''usb''"]
    by (simp add: data_parse_def deref_Some uart_handle_def pipe_handle_def del: strncmp_eq.simps)
  finally show ?thesis using U W(5,6) by (intro exI [of _ m1]) simp
qed

subsection \<open>Sending\<close>

text \<open>What an iteration of \<open>send_out_handler\<close> does once the pop has been done.\<close>

lemma send_out_after_pop:
  fixes g :: globals
  assumes C: "chan_ok m1 (G_send_linklist g) ss sn (so_node g)"
    and pop: "singlelinklist_pop_node (G_send_linklist g) (so_node g) (heap g) = Inr m1"
  shows "\<exists>m'. send_out_handler g =
        Inr (g\<lparr>heap := m', outs := outs g @ emitted (node_msg m1 (so_node g))\<rparr>) \<and>
     chan_ok m' (G_send_linklist g) ss sn (so_node g) \<and>
     chan_fp m' (G_send_linklist g) ss sn (so_node g) = chan_fp m1 (G_send_linklist g) ss sn (so_node g) \<and>
     map (node_msg m') sn = map (node_msg m1) sn \<and>
     m_bytes (node_msg m' (so_node g)) = [] \<and>
     agree_on (- set (chan_fp m1 (G_send_linklist g) ss sn (so_node g))) m1 m' \<and>
     nalloc m' = nalloc m1 \<and> oom m' = oom m1"
proof -
  let ?d = "so_node g"
  from C have D: "node_ok m1 ?d" "length (node_block m1 ?d) = 1024" by (simp_all add: chan_ok_def)
  obtain nd i where N: "nodes m1 ?d = Some nd" "data nd = node_inf m1 ?d"
    "infs m1 (node_inf m1 ?d) = Some i" "pdata i = node_buf m1 ?d" "?d \<noteq> 0" "node_inf m1 ?d \<noteq> 0"
    "bufs m1 (node_buf m1 ?d) = Some (node_block m1 ?d)" "node_buf m1 ?d \<noteq> 0"
    "0 \<le> data_len i" "data_len i \<le> int (length (node_block m1 ?d))"
    using D(1) by (rule node_okE) (metis)
  let ?i = "i\<lparr>data_len := 0, recv_fd := -1\<rparr>"
  define m' where "m' = node_write m1 ?d ?i (replicate 1024 NUL)"
  have i: "pdata ?i = node_buf m1 ?d" "0 \<le> data_len ?i" "data_len ?i \<le> 1024" using N by simp_all
  note W = chan_write [OF C i length_replicate, of NUL, folded m'_def]
  have sz: "size_of_int (data_len i) = nat (data_len i)"
    using N(9,10) D(2) by (simp add: size_of_int_small INT_MAX_def)
  have msg: "node_msg m1 ?d = \<lparr>m_bytes = take (nat (data_len i)) (node_block m1 ?d),
      m_fd = recv_fd i, m_to = send_to i\<rparr>"
    using N by (simp add: node_msg_def)
  have le: "nat (data_len i) \<le> 1024" using N(10) D(2) by simp
  have "m_bytes (node_msg m' ?d) = []"
    using node_write_node(5) [OF i(1), of "replicate 1024 NUL"] by (simp add: m'_def)
  moreover have "send_out_handler g =
      Inr (g\<lparr>heap := m', outs := outs g @ emitted (node_msg m1 ?d)\<rparr>)"
    using pop N sz le D(2)
    by (simp add: send_out_handler_def deref_Some memset0_def upd_inf_def emitted_def msg m'_def
        node_write_def)
  ultimately show ?thesis using W by (intro exI [of _ m']) simp
qed

lemma send_out_sys:
  fixes g :: globals
  assumes ok: "sys_ok g sr rs ss (n # sn)"
  defines "x \<equiv> node_msg (heap g) n"
  shows "\<exists>m'. send_out_handler g = Inr (g\<lparr>heap := m', outs := outs g @ emitted x\<rparr>) \<and>
     sys_ok (g\<lparr>heap := m'\<rparr>) sr rs ss sn \<and>
     send_msgs g = x # send_msgs (g\<lparr>heap := m'\<rparr>) \<and>
     recv_msgs (g\<lparr>heap := m'\<rparr>) = recv_msgs g \<and>
     oom m' = oom (heap g) \<and> nalloc m' = nalloc (heap g)"
proof -
  let ?m = "heap g" and ?d = "so_node g" and ?l = "G_send_linklist g"
  from ok have C: "chan_ok ?m ?l ss (n # sn) ?d"
    and dis: "set (chan_fp ?m (G_recv_linklist g) sr rs (dp_node g)) \<inter> set (chan_fp ?m ?l ss (n # sn) ?d) = {}"
    by (simp_all add: sys_ok_def)
  define m1 where "m1 = after_pop ?m ?l ?d ss n sn"
  note P = chan_pop [OF C, folded m1_def]
  from send_out_after_pop [OF P(2,1)] obtain m' where
    eq: "send_out_handler g = Inr (g\<lparr>heap := m', outs := outs g @ emitted (node_msg m1 ?d)\<rparr>)"
    and C': "chan_ok m' ?l ss sn ?d" and fp: "chan_fp m' ?l ss sn ?d = chan_fp m1 ?l ss sn ?d"
    and ms: "map (node_msg m') sn = map (node_msg m1) sn"
    and e: "m_bytes (node_msg m' ?d) = []"
    and ag1: "agree_on (- set (chan_fp m1 ?l ss sn ?d)) m1 m'"
    and na: "nalloc m' = nalloc m1" "oom m' = oom m1" by blast
  have "agree_on (- set (chan_fp ?m ?l ss (n # sn) ?d)) m1 m'"
    using ag1 P(6) by (auto simp: agree_on_def)
  from agree_on_trans [OF P(7) this] have ag: "agree_on (- set (chan_fp ?m ?l ss (n # sn) ?d)) ?m m'"
    by simp
  have sub: "set (chan_fp ?m (G_recv_linklist g) sr rs (dp_node g)) \<subseteq>
      - set (chan_fp ?m ?l ss (n # sn) ?d)" using dis by auto
  have fp': "set (chan_fp m' ?l ss sn ?d) \<subseteq> set (chan_fp ?m ?l ss (n # sn) ?d) \<union> {a. nalloc ?m < a}"
    using P(6) fp by auto
  note U = sys_ok_send [OF ok C' e ag sub fp']
  have "send_msgs g = x # send_msgs (g\<lparr>heap := m'\<rparr>)"
    using sys_ok_msgs(3) [OF ok] U(2) ms P(3) by (simp add: x_def)
  with eq U na P(4,8,9) show ?thesis by (intro exI [of _ m']) (simp add: x_def)
qed

text \<open>Woken with an empty list, the sender writes nothing, or writes zero bytes.\<close>

lemma emitted_empty: "m_bytes x = [] \<Longrightarrow> set (emitted x) \<subseteq> {To_dueros [], To_uart []}"
  by (auto simp: emitted_def)

lemma send_out_spurious:
  fixes g :: globals
  assumes ok: "sys_ok g sr rs ss []"
  shows "\<exists>m' e. send_out_handler g = Inr (g\<lparr>heap := m', outs := outs g @ e\<rparr>) \<and>
     set e \<subseteq> {To_dueros [], To_uart []} \<and>
     sys_ok (g\<lparr>heap := m'\<rparr>) sr rs ss [] \<and>
     send_msgs (g\<lparr>heap := m'\<rparr>) = [] \<and> recv_msgs (g\<lparr>heap := m'\<rparr>) = recv_msgs g \<and>
     oom m' = oom (heap g) \<and> nalloc m' = nalloc (heap g)"
proof -
  let ?m = "heap g" and ?d = "so_node g" and ?l = "G_send_linklist g"
  from ok have C: "chan_ok ?m ?l ss [] ?d" and e0: "m_bytes (node_msg ?m ?d) = []"
    and dis: "set (chan_fp ?m (G_recv_linklist g) sr rs (dp_node g)) \<inter> set (chan_fp ?m ?l ss [] ?d) = {}"
    by (simp_all add: sys_ok_def)
  from send_out_after_pop [OF C chan_pop_empty [OF C]] obtain m' where
    eq: "send_out_handler g = Inr (g\<lparr>heap := m', outs := outs g @ emitted (node_msg ?m ?d)\<rparr>)"
    and C': "chan_ok m' ?l ss [] ?d" and fp: "chan_fp m' ?l ss [] ?d = chan_fp ?m ?l ss [] ?d"
    and e: "m_bytes (node_msg m' ?d) = []"
    and ag: "agree_on (- set (chan_fp ?m ?l ss [] ?d)) ?m m'"
    and na: "nalloc m' = nalloc ?m" "oom m' = oom ?m" by blast
  have sub: "set (chan_fp ?m (G_recv_linklist g) sr rs (dp_node g)) \<subseteq> - set (chan_fp ?m ?l ss [] ?d)"
    using dis by auto
  have fp': "set (chan_fp m' ?l ss [] ?d) \<subseteq> set (chan_fp ?m ?l ss [] ?d) \<union> {a. nalloc ?m < a}"
    using fp by auto
  note U = sys_ok_send [OF ok C' e ag sub fp']
  show ?thesis
    using eq U emitted_empty [OF e0] na
    by (intro exI [of _ m'] exI [of _ "emitted (node_msg ?m ?d)"]) simp
qed

subsection \<open>Reading\<close>

lemma c_read_cases:
  "c_read len None = (-1, replicate len NUL)"
  "c_read len (Some bs) = (int (min (length bs) len), take len bs @ replicate (len - length bs) NUL)"
  by (simp_all add: c_read_def min.commute)

text \<open>
  What the first receive call hands to the parser: the bytes of a chunk, cut at the
  1024 bytes of the local buffer.
\<close>

definition chunk :: "char list option \<Rightarrow> char list" where
  "chunk r = (case r of None \<Rightarrow> [] | Some bs \<Rightarrow> take 1024 bs)"

definition received :: "int \<Rightarrow> char list \<Rightarrow> msg list" where
  "received fd bs = (if bs = [] then [] else [\<lparr>m_bytes = bs, m_fd = fd, m_to = 0\<rparr>])"

lemma handler_sys:
  fixes g :: globals
  assumes ok: "sys_ok g sr rs ss sn" and mem: "alloc_ok (heap g) 3" and room: "int (length rs) < INT_MAX"
    and h: "h = (case c_read 1024 r of (ret, buf) \<Rightarrow> if ret > 0 then recv_enqueue fd buf ret g else Inr g)"
  shows "\<exists>m' rs'. h = Inr (g\<lparr>heap := m'\<rparr>) \<and> sys_ok (g\<lparr>heap := m'\<rparr>) sr rs' ss sn \<and>
     recv_msgs (g\<lparr>heap := m'\<rparr>) = recv_msgs g @ received fd (chunk r) \<and>
     send_msgs (g\<lparr>heap := m'\<rparr>) = send_msgs g \<and>
     oom m' = oom (heap g) \<and> nalloc m' \<le> nalloc (heap g) + 3"
proof (cases "chunk r = []")
  case True
  then have "h = Inr g" unfolding h
    by (cases r) (auto simp: c_read_cases chunk_def)
  then show ?thesis using True ok
    by (intro exI [of _ "heap g"] exI [of _ rs]) (simp add: received_def)
next
  case False
  then obtain bs where r: "r = Some bs" "bs \<noteq> []" by (cases r) (auto simp: chunk_def)
  let ?n = "int (min (length bs) 1024)"
  have n: "0 < ?n" "?n \<le> 1024" "?n \<le> int (length (take 1024 bs @ replicate (1024 - length bs) NUL))"
    using r by auto
  have tk: "take (nat ?n) (take 1024 bs @ replicate (1024 - length bs) NUL) = chunk r"
    using r by (simp add: chunk_def min_def)
  have "h = recv_enqueue fd (take 1024 bs @ replicate (1024 - length bs) NUL) ?n g"
    unfolding h using r by (simp add: c_read_cases)
  with recv_enqueue_sys [OF ok n mem room, of fd] False show ?thesis
    unfolding tk by (auto simp: received_def)
qed

lemma pipe_handler_sys:
  fixes g :: globals
  assumes "sys_ok g sr rs ss sn" and "alloc_ok (heap g) 3" and "int (length rs) < INT_MAX"
  shows "\<exists>m' rs'. pipe_connect_handler r g = Inr (g\<lparr>heap := m'\<rparr>) \<and> sys_ok (g\<lparr>heap := m'\<rparr>) sr rs' ss sn \<and>
     recv_msgs (g\<lparr>heap := m'\<rparr>) = recv_msgs g @ received (G_pipefd g) (chunk r) \<and>
     send_msgs (g\<lparr>heap := m'\<rparr>) = send_msgs g \<and>
     oom m' = oom (heap g) \<and> nalloc m' \<le> nalloc (heap g) + 3"
  by (rule handler_sys [OF assms]) (simp add: pipe_connect_handler_def)

lemma sock_handler_sys:
  fixes g :: globals
  assumes "sys_ok g sr rs ss sn" and "alloc_ok (heap g) 3" and "int (length rs) < INT_MAX"
  shows "\<exists>m' rs'. sock_recv_handler fd r g = Inr (g\<lparr>heap := m'\<rparr>) \<and> sys_ok (g\<lparr>heap := m'\<rparr>) sr rs' ss sn \<and>
     recv_msgs (g\<lparr>heap := m'\<rparr>) = recv_msgs g @ received fd (chunk r) \<and>
     send_msgs (g\<lparr>heap := m'\<rparr>) = send_msgs g \<and>
     oom m' = oom (heap g) \<and> nalloc m' \<le> nalloc (heap g) + 3"
  by (rule handler_sys [OF assms]) (simp add: sock_recv_handler_def)

text \<open>
  The second one, \<open>whole_read\<close>: \<open>rchunk\<close> is what one \<open>read\<close> stores in \<open>tmp_buf\<close>, and
  \<open>rchunks rd k j\<close> the bytes of the \<open>j\<close> reads from the \<open>k\<close>-th on.
\<close>

definition rchunk :: "char list option \<Rightarrow> char list" where
  "rchunk r = (case r of None \<Rightarrow> [] | Some bs \<Rightarrow> take TMP_BUF bs)"

definition rchunks :: "(nat \<Rightarrow> char list option) \<Rightarrow> nat \<Rightarrow> nat \<Rightarrow> char list" where
  "rchunks rd k j = concat (map (\<lambda>i. rchunk (rd i)) [k..<k + j])"

lemma rchunks_0 [simp]: "rchunks rd k 0 = []" by (simp add: rchunks_def)

lemma rchunks_Suc: "rchunks rd k (Suc j) = rchunk (rd k) @ rchunks rd (Suc k) j"
proof -
  have "[k..<k + Suc j] = k # [Suc k..<Suc k + j]" by (subst upt_conv_Cons) simp_all
  then show ?thesis by (simp add: rchunks_def)
qed

lemma c_read_rchunk:
  "nat (fst (c_read TMP_BUF r)) = length (rchunk r)"
  "fst (c_read TMP_BUF r) > 0 \<longleftrightarrow> rchunk r \<noteq> []"
  "take (length (rchunk r)) (snd (c_read TMP_BUF r)) = rchunk r"
  by (cases r; auto simp: c_read_cases rchunk_def TMP_BUF_def min_def)+

lemma whole_read_loop_ok:
  assumes "length pre = c" and "buf = pre @ suf" and "c < maxlen" and "maxlen \<le> length buf"
  shows "\<exists>j. whole_read_loop rd k buf c maxlen =
       Inr (c + length (rchunks rd k j), pre @ rchunks rd k j @ drop (length (rchunks rd k j)) suf, Suc (k + j)) \<and>
     c + length (rchunks rd k j) < maxlen \<and> j \<le> length (rchunks rd k j) \<and>
     (\<forall>i \<in> {k..<k + j}. rchunk (rd i) \<noteq> []) \<and>
     (rchunk (rd (k + j)) = [] \<or> maxlen \<le> c + length (rchunks rd k j) + length (rchunk (rd (k + j))))"
  using assms
proof (induction "maxlen - c" arbitrary: k buf c pre suf rule: less_induct)
  case less
  obtain n tmp where r: "c_read TMP_BUF (rd k) = (n, tmp)" by fastforce
  have n: "nat n = length (rchunk (rd k))" "(n > 0) = (rchunk (rd k) \<noteq> [])"
    "take (length (rchunk (rd k))) tmp = rchunk (rd k)"
    using c_read_rchunk [of "rd k"] r by simp_all
  show ?case
  proof (cases "rchunk (rd k) = [] \<or> maxlen \<le> c + length (rchunk (rd k))")
    case True
    then have "whole_read_loop rd k buf c maxlen = Inr (c, buf, Suc k)"
      using n by (subst whole_read_loop.simps) (auto simp: r)
    then show ?thesis using True less.prems by (intro exI [of _ 0]) auto
  next
    case False
    let ?x = "rchunk (rd k)"
    have le: "c + length ?x \<le> length buf" using False less.prems by simp
    have step: "whole_read_loop rd k buf c maxlen =
        whole_read_loop rd (Suc k) (pre @ ?x @ drop (length ?x) suf) (c + length ?x) maxlen"
      using False n le less.prems(1,2) by (subst whole_read_loop.simps) (auto simp: r)
    have "maxlen - (c + length ?x) < maxlen - c" using False less.prems(3) by (simp add: diff_less_mono2)
    moreover have "length (pre @ ?x) = c + length ?x"
      "pre @ ?x @ drop (length ?x) suf = (pre @ ?x) @ drop (length ?x) suf"
      "c + length ?x < maxlen" "maxlen \<le> length (pre @ ?x @ drop (length ?x) suf)"
      using False less.prems le by auto
    ultimately obtain j where
      j: "whole_read_loop rd (Suc k) (pre @ ?x @ drop (length ?x) suf) (c + length ?x) maxlen =
          Inr (c + length ?x + length (rchunks rd (Suc k) j),
            (pre @ ?x) @ rchunks rd (Suc k) j @ drop (length (rchunks rd (Suc k) j)) (drop (length ?x) suf),
            Suc (Suc k + j))"
        "c + length ?x + length (rchunks rd (Suc k) j) < maxlen" "j \<le> length (rchunks rd (Suc k) j)"
        "\<forall>i \<in> {Suc k..<Suc k + j}. rchunk (rd i) \<noteq> []"
        "rchunk (rd (Suc k + j)) = [] \<or>
          maxlen \<le> c + length ?x + length (rchunks rd (Suc k) j) + length (rchunk (rd (Suc k + j)))"
      using less.hyps [of "c + length ?x" "pre @ ?x" "pre @ ?x @ drop (length ?x) suf" "drop (length ?x) suf" "Suc k"]
      by blast
    have "Suc j \<le> length (rchunks rd k (Suc j))"
      using j(3) False by (cases ?x) (auto simp: rchunks_Suc)
    moreover have "\<forall>i \<in> {k..<k + Suc j}. rchunk (rd i) \<noteq> []"
      using j(4) False by (metis atLeastLessThan_iff add_Suc_right add_Suc le_antisym not_less_eq_eq)
    moreover have "drop (length (rchunks rd (Suc k) j)) (drop (length ?x) suf) =
        drop (length (rchunks rd k (Suc j))) suf" by (simp add: rchunks_Suc add.commute)
    ultimately show ?thesis
      using step j(1,2,5) by (intro exI [of _ "Suc j"]) (simp add: rchunks_Suc add.assoc)
  qed
qed

definition uart_input :: "(nat \<Rightarrow> char list option) \<Rightarrow> char list" where
  \<comment> \<open>the bytes \<open>whole_read\<close> leaves in the buffer of \<open>uart_connect_handler\<close>\<close>
  "uart_input rd = (case whole_read rd (replicate 1024 NUL) 1024 of
     Inl e \<Rightarrow> [] | Inr (c, buf, k) \<Rightarrow> take c buf)"

lemma whole_read_cases:
  obtains j where
    "whole_read rd (replicate 1024 NUL) 1024 =
       Inr (length (rchunks rd 0 j), rchunks rd 0 j @ replicate (1024 - length (rchunks rd 0 j)) NUL, Suc j)"
    "uart_input rd = rchunks rd 0 j" "length (rchunks rd 0 j) < 1024" "j \<le> length (rchunks rd 0 j)"
    "\<forall>i < j. rchunk (rd i) \<noteq> []"
    "rchunk (rd j) = [] \<or> 1024 \<le> length (rchunks rd 0 j) + length (rchunk (rd j))"
proof -
  have "length [] = (0::nat)" "replicate 1024 NUL = [] @ replicate 1024 NUL"
    "(0::nat) < 1024" "(1024::nat) \<le> length (replicate 1024 NUL)" by simp_all
  from whole_read_loop_ok [OF this, of rd 0] obtain j where
    j: "whole_read rd (replicate 1024 NUL) 1024 =
       Inr (length (rchunks rd 0 j), rchunks rd 0 j @ replicate (1024 - length (rchunks rd 0 j)) NUL, Suc j)"
     "length (rchunks rd 0 j) < 1024" "j \<le> length (rchunks rd 0 j)"
     "\<forall>i < j. rchunk (rd i) \<noteq> []"
     "rchunk (rd j) = [] \<or> 1024 \<le> length (rchunks rd 0 j) + length (rchunk (rd j))"
    unfolding whole_read_def by auto
  show ?thesis
    by (rule that [OF j(1) _ j(2-5)]) (simp add: uart_input_def j(1))
qed

lemma heap_idle: "heap g = m \<Longrightarrow> (g::globals)\<lparr>heap := m\<rparr> = g"
  by (cases g) simp

lemma uart_handler_sys:
  fixes g :: globals
  assumes ok: "sys_ok g sr rs ss sn" and mem: "alloc_ok (heap g) 3" and room: "int (length rs) < INT_MAX"
  shows "\<exists>m' rs'. uart_connect_handler rd added g = Inr (epoll_add added (G_uartfd g) g\<lparr>heap := m'\<rparr>) \<and>
     sys_ok (epoll_add added (G_uartfd g) g\<lparr>heap := m'\<rparr>) sr rs' ss sn \<and>
     recv_msgs (epoll_add added (G_uartfd g) g\<lparr>heap := m'\<rparr>) = recv_msgs g @ received (G_uartfd g) (uart_input rd) \<and>
     send_msgs (epoll_add added (G_uartfd g) g\<lparr>heap := m'\<rparr>) = send_msgs g \<and>
     oom m' = oom (heap g) \<and> nalloc m' \<le> nalloc (heap g) + 3"
proof -
  obtain j where j: "whole_read rd (replicate 1024 NUL) 1024 =
       Inr (length (rchunks rd 0 j), rchunks rd 0 j @ replicate (1024 - length (rchunks rd 0 j)) NUL, Suc j)"
    "uart_input rd = rchunks rd 0 j" "length (rchunks rd 0 j) < 1024"
    by (rule whole_read_cases [of rd]) blast
  let ?bs = "rchunks rd 0 j" and ?g = "epoll_add added (G_uartfd g) g"
  have g1: "heap ?g = heap g" "G_uartfd ?g = G_uartfd g" "recv_msgs ?g = recv_msgs g"
     "send_msgs ?g = send_msgs g" "sys_ok ?g sr rs ss sn"
    using ok by (simp_all add: epoll_add_def recv_msgs_def send_msgs_def sys_ok_def)
  show ?thesis
  proof (cases "?bs = []")
    case True
    then have "uart_connect_handler rd added g = Inr ?g" by (simp add: uart_connect_handler_def j(1))
    then show ?thesis using True g1 j(2)
      by (intro exI [of _ "heap g"] exI [of _ rs]) (simp add: received_def heap_idle)
  next
    case False
    have "uart_connect_handler rd added g =
        recv_enqueue (G_uartfd g) (?bs @ replicate (1024 - length ?bs) NUL) (int (length ?bs)) ?g"
      using False j(1) g1(2) by (simp add: uart_connect_handler_def)
    moreover have "0 < int (length ?bs)" "int (length ?bs) \<le> 1024"
      "int (length ?bs) \<le> int (length (?bs @ replicate (1024 - length ?bs) NUL))"
      using False j(3) by simp_all
    ultimately show ?thesis
      using recv_enqueue_sys [OF g1(5) _ _ _ _ room, of "int (length ?bs)" "?bs @ replicate (1024 - length ?bs) NUL" "G_uartfd g"]
        mem g1 False j(2) by (auto simp: received_def)
  qed
qed

end
