(* ===== verification/Files.thy ===== *)
theory Files
  imports C_Text "HOL-Library.Sublist"
begin

text \<open>
  The file helpers of \<^verbatim>\<open>uart_protocol.c\<close> and \<open>fgets\<close>, which they share with
  \<^verbatim>\<open>report_key.c\<close>.  What \<open>access\<close>, \<open>stat\<close> and \<open>fopen\<close> find is an argument: a file that can
  be opened is its list of characters.  A function that ends without \<open>return\<close> has the
  value \<open>None\<close>.
\<close>

subsection \<open>Reading lines\<close>

fun fgets_body :: "nat \<Rightarrow> char list \<Rightarrow> char list \<times> char list" where
  "fgets_body 0 cs = ([], cs)"
| "fgets_body (Suc k) [] = ([], [])"
| "fgets_body (Suc k) (c # cs) =
     (if c = newline then ([c], cs) else (case fgets_body k cs of (l, r) \<Rightarrow> (c # l, r)))"

definition c_fgets :: "nat \<Rightarrow> char list \<Rightarrow> (char list \<times> char list) option" where
  \<comment> \<open>\<open>fgets(buf, n, f)\<close>: the string stored and the rest of the file; a size of one reads nothing\<close>
  "c_fgets n cs =
     (if n = 0 then None else if n = 1 then Some ([], cs)
      else if cs = [] then None else Some (fgets_body (n - 1) cs))"

subsection \<open>Operations\<close>

definition delete_file :: "bool \<Rightarrow> string \<Rightarrow> char list option res" where
  \<comment> \<open>the command given to \<open>system\<close>, if any\<close>
  "delete_file exists filename =
     (if exists then
        bind_ok (sprintf (replicate 64 NUL) (''rm '' @ filename)) (\<lambda>cmd. Inr (Some cmd))
      else Inr None)"

definition file_exists :: "(bool \<times> int) option \<Rightarrow> int" where
  \<comment> \<open>the result of \<open>stat\<close>: whether it is a directory, and its size\<close>
  "file_exists st =
     (case st of None \<Rightarrow> 0 | Some (is_dir, st_size) \<Rightarrow> if \<not> is_dir \<and> st_size > 0 then 1 else 0)"

fun hangshu_loop :: "char list \<Rightarrow> int \<Rightarrow> int res" where
  "hangshu_loop [] n = Inr n"
| "hangshu_loop (ch # cs) n =
     bind_ok (if ch = newline then int_inc n else Inr n) (\<lambda>n'. hangshu_loop cs n')"

definition hangshu :: "char list option \<Rightarrow> int res" where
  "hangshu file = (case file of None \<Rightarrow> Inr (-1) | Some cs \<Rightarrow> hangshu_loop cs 0)"

fun compare_loop :: "nat \<Rightarrow> int \<Rightarrow> char list \<Rightarrow> string \<Rightarrow> int res" where
  \<comment> \<open>the loop over the lines; the first argument is \<open>hangnum - i\<close>\<close>
  "compare_loop 0 i cs Url = Inr 0"
| "compare_loop (Suc k) i cs Url =
     (case c_fgets 512 cs of None \<Rightarrow> Inr 0
      | Some (deline, cs') \<Rightarrow>
          bind_ok (strncmp_eq (c_lit deline) (c_lit Url) (size_of_int (int (length Url) - 1))) (\<lambda>eq.
            if eq then Inr (i + 1) else compare_loop k (i + 1) cs' Url))"

definition compare_FileAndUrl :: "string option \<Rightarrow> string option \<Rightarrow> char list option \<Rightarrow> bool \<Rightarrow> int option res" where
  \<comment> \<open>the file as \<open>fopen(.., "r")\<close> finds it, and whether \<open>fopen(.., "r+")\<close> succeeds too\<close>
  "compare_FileAndUrl filepatch Url file writable =
     (case (Url, filepatch) of
        (Some url, Some path) \<Rightarrow>
          bind_ok (hangshu file) (\<lambda>hangnum.
          (case file of
             Some cs \<Rightarrow> if writable then bind_ok (compare_loop (nat hangnum) 0 cs url) (\<lambda>r. Inr (Some r))
                        else Inr (Some (-1))
           | None \<Rightarrow> Inr (Some (-1))))
      | _ \<Rightarrow> Inr None)"

subsection \<open>Lines\<close>

lemma fgets_body_line:
  assumes "newline \<notin> set l" and "length l < k"
  shows "fgets_body k (l @ newline # cs) = (l @ [newline], cs)"
  using assms
proof (induction l arbitrary: k)
  case Nil
  then show ?case by (cases k) auto
next
  case (Cons c l)
  then show ?case by (cases k) auto
qed

lemma fgets_body_cut:
  assumes "newline \<notin> set l" and "k \<le> length l"
  shows "fgets_body k (l @ cs) = (take k l, drop k l @ cs)"
  using assms
proof (induction l arbitrary: k)
  case Nil
  then show ?case by simp
next
  case (Cons c l)
  then show ?case by (cases k) auto
qed

lemma hangshu_loop_count:
  assumes "n \<le> INT_MAX"
  shows "hangshu_loop cs n =
     (if n + int (count_list cs newline) \<le> INT_MAX then Inr (n + int (count_list cs newline))
      else Inl Signed_overflow)"
  using assms
proof (induction cs arbitrary: n)
  case Nil
  then show ?case by simp
next
  case (Cons c cs)
  show ?case
  proof (cases "c = newline")
    case True
    then show ?thesis using Cons.IH [of "n + 1"] Cons.prems by (auto simp: int_inc_def)
  next
    case False
    then show ?thesis using Cons.IH [of n] Cons.prems by auto
  qed
qed

text \<open>A line that is ended by a newline and fits is compared as a whole, newline included.\<close>

lemma strncmp_line:
  assumes "NUL \<notin> set u" and "NUL \<notin> set l" and "newline \<notin> set u"
  shows "strncmp_eq (l @ newline # x) (u @ y) (length u) = Inr (prefix u l)"
  using assms
proof (induction u arbitrary: l)
  case Nil
  then show ?case by simp
next
  case (Cons c u)
  show ?case
  proof (cases l)
    case Nil
    then show ?thesis using Cons.prems by auto
  next
    case (Cons d l')
    then show ?thesis using Cons.IH [of l'] Cons.prems by auto
  qed
qed

definition lines_of :: "char list list \<Rightarrow> char list" where
  "lines_of ls = concat (map (\<lambda>l. l @ [newline]) ls)"

lemma lines_of_simps [simp]:
  "lines_of [] = []" "lines_of (l # ls) = l @ newline # lines_of ls"
  by (simp_all add: lines_of_def)

lemma count_lines:
  "\<forall>l \<in> set ls. newline \<notin> set l \<Longrightarrow> count_list (lines_of ls) newline = length ls"
proof (induction ls)
  case (Cons l ls)
  then have "count_list l newline = 0" by (simp add: count_list_0_iff)
  then show ?case using Cons by simp
qed simp

definition short_line :: "char list \<Rightarrow> bool" where
  "short_line l \<longleftrightarrow> newline \<notin> set l \<and> NUL \<notin> set l \<and> length l \<le> 510"

lemma fgets_line:
  assumes "short_line l"
  shows "c_fgets 512 (l @ newline # cs) = Some (l @ [newline], cs)"
  using assms fgets_body_line [of l 511 cs] by (simp add: c_fgets_def short_line_def)

definition first_match :: "string \<Rightarrow> char list list \<Rightarrow> nat" where
  \<comment> \<open>the number of the first line that starts with \<open>u\<close>, counted from one, or zero\<close>
  "first_match u ls =
     (let k = length (takeWhile (\<lambda>l. \<not> prefix u l) ls) in if k < length ls then k + 1 else 0)"

lemma compare_loop_first:
  assumes "\<forall>l \<in> set ls. short_line l" and "NUL \<notin> set u" and "newline \<notin> set u"
    and "int (length u) \<le> INT_MAX"
  shows "compare_loop (length ls) i (lines_of ls @ rest) (u @ [c]) =
     Inr (if first_match u ls = 0 then 0 else i + int (first_match u ls))"
  using assms(1)
proof (induction ls arbitrary: i)
  case Nil
  then show ?case by (simp add: first_match_def)
next
  case (Cons l ls)
  have sz: "size_of_int (int (length (u @ [c])) - 1) = length u" using assms(4) by simp
  have eq: "strncmp_eq (c_lit (l @ [newline])) (c_lit (u @ [c])) (length u) = Inr (prefix u l)"
    using strncmp_line [of u l "[NUL]" "[c, NUL]"] Cons.prems assms(2,3) by (simp add: c_lit_def short_line_def)
  have fg: "c_fgets 512 (lines_of (l # ls) @ rest) = Some (l @ [newline], lines_of ls @ rest)"
    using fgets_line [of l "lines_of ls @ rest"] Cons.prems by simp
  have fm: "first_match u (l # ls) = (if prefix u l then 1 else if first_match u ls = 0 then 0 else first_match u ls + 1)"
    by (simp add: first_match_def Let_def)
  show ?case
    using Cons.IH [of "i + 1"] Cons.prems unfolding length_Cons compare_loop.simps fg option.case prod.case sz eq fm
    by simp
qed

subsection \<open>Properties\<close>

text \<open>C38: for a file with lines of at most 510 characters, \<open>compare_FileAndUrl\<close> returns the number
  of the first line that starts with the address without its last character, and 0 when
  there is none; what follows the last newline is not looked at.\<close>

theorem compare_finds_first_line:
  assumes "\<forall>l \<in> set ls. short_line l" and "newline \<notin> set rest"
    and "NUL \<notin> set u" and "newline \<notin> set u" and "int (length u) \<le> INT_MAX" and "int (length ls) \<le> INT_MAX"
  shows "compare_FileAndUrl (Some path) (Some (u @ [c])) (Some (lines_of ls @ rest)) True =
     Inr (Some (int (first_match u ls)))"
proof -
  have "count_list rest newline = 0" using assms(2) by (simp add: count_list_0_iff)
  then have "count_list (lines_of ls @ rest) newline = length ls"
    using count_lines [of ls] assms(1) by (simp add: short_line_def)
  then have "hangshu (Some (lines_of ls @ rest)) = Inr (int (length ls))"
    using hangshu_loop_count [of 0 "lines_of ls @ rest"] assms(6) by (simp add: hangshu_def INT_MAX_def)
  then show ?thesis using compare_loop_first [OF assms(1,3-5), of 0 rest c]
    by (simp add: compare_FileAndUrl_def)
qed

theorem compare_finds_first_line_witness:
  "compare_FileAndUrl (Some ''f'') (Some ''http!'') (Some (lines_of [''a'', ''http://x''] @ ''http'')) True =
     Inr (Some 2)"
  using compare_finds_first_line [of "[''a'', ''http://x'']" "''http''" "''http''" "''f''" "CHR ''!''"]
  by (simp add: short_line_def newline_def INT_MAX_def first_match_def)

text \<open>A longer line is read in pieces, each of which counts as a line, so a later line that
  matches may not be reached.\<close>

theorem long_line_hides_match:
  "compare_FileAndUrl (Some path) (Some ''abc'') (Some (lines_of [replicate 600 (CHR ''x''), ''ab''])) True =
     Inr (Some 0) \<and>
   first_match ''ab'' [replicate 600 (CHR ''x''), ''ab''] = 2"
proof
  let ?x = "CHR ''x''" and ?r = "newline # ''ab'' @ newline # []"
  have nx: "newline \<notin> set (replicate k ?x)" for k by (simp add: newline_def)
  have "count_list (lines_of [replicate 600 ?x, ''ab'']) newline = 2"
    using count_lines [of "[replicate 600 ?x, ''ab'']"] by (simp add: newline_def)
  then have h: "hangshu (Some (lines_of [replicate 600 ?x, ''ab''])) = Inr 2"
    using hangshu_loop_count [of 0 "lines_of [replicate 600 ?x, ''ab'']"] by (simp add: hangshu_def INT_MAX_def)
  have 1: "c_fgets 512 (lines_of [replicate 600 ?x, ''ab'']) = Some (replicate 511 ?x, replicate 89 ?x @ ?r)"
    using fgets_body_cut [OF nx [of 600], of 511 ?r] by (simp add: c_fgets_def)
  have 2: "c_fgets 512 (replicate 89 ?x @ ?r) = Some (replicate 89 ?x @ [newline], ''ab'' @ [newline])"
    using fgets_body_line [OF nx [of 89], of 511 "''ab'' @ [newline]"] by (simp add: c_fgets_def)
  have s: "strncmp_eq (c_lit (replicate (Suc k) ?x @ y)) (c_lit ''abc'') (Suc n) = Inr False" for k y n
    by (simp add: c_lit_def)
  have sz: "size_of_int (int (length ''abc'') - 1) = Suc 1" by (simp add: INT_MAX_def)
  have L: "compare_loop (Suc (Suc 0)) 0 (lines_of [replicate 600 ?x, ''ab'']) ''abc'' = Inr 0"
    unfolding compare_loop.simps 1 option.case prod.case sz
    using s [of 510 "[]" 1] s [of 88 "[newline]" 1] 2 by simp
  then show "compare_FileAndUrl (Some path) (Some ''abc'') (Some (lines_of [replicate 600 ?x, ''ab''])) True =
     Inr (Some 0)"
    unfolding compare_FileAndUrl_def option.case prod.case h bind_ok.simps
    using L by (simp add: eval_nat_numeral del: compare_loop.simps lines_of_simps)
  have "\<not> prefix ''ab'' (replicate 600 ?x)"
    using set_mono_prefix [of "''ab''" "replicate 600 ?x"] by auto
  then show "first_match ''ab'' [replicate 600 ?x, ''ab''] = 2" by (simp add: first_match_def)
qed

text \<open>\<open>hangshu\<close> is the number of newlines of the file, as long as an \<open>int\<close> can hold it.\<close>

theorem hangshu_counts_newlines:
  "hangshu (Some cs) =
     (if int (count_list cs newline) \<le> INT_MAX then Inr (int (count_list cs newline)) else Inl Signed_overflow)"
  using hangshu_loop_count [of 0 cs] by (simp add: hangshu_def INT_MAX_def)

text \<open>\<open>delete_file\<close> runs \<open>rm\<close> on the name it is given when the name has at most 60 characters,
  and overflows its command buffer with a longer one.\<close>

theorem delete_file_command:
  "delete_file True filename =
     (if length filename \<le> 60 then
        Inr (Some (''rm '' @ filename @ NUL # replicate (60 - length filename) NUL))
      else Inl Out_of_bounds)"
  by (simp add: delete_file_def sprintf_def)

end
