(* ===== verification/Linklist_Test.thy ===== *)
theory Linklist_Test
  imports Pipeline Files
begin

text \<open>
  \<open>test\<close> of \<^verbatim>\<open>linklist.c\<close>, an interactive exercise of the list: every line of the standard
  input is stored in a new node and appended, except \<open>pop\<close>, which takes the first message
  out and prints it, and \<open>quit\<close>.  The result is what \<open>test\<close> returns (\<open>None\<close> when it ends
  without a \<open>return\<close>), what it has printed, and the heap it leaves behind.
\<close>

subsection \<open>The program\<close>

definition read_line :: "addr \<Rightarrow> string \<Rightarrow> mem \<Rightarrow> (string \<times> mem) res" where
  \<comment> \<open>\<open>memset\<close> and \<open>fgets\<close> into the buffer of a node; the result is the rest of the input\<close>
  "read_line node input m =
     bind_ok (deref (nodes m) node) (\<lambda>n.
     bind_ok (deref (infs m) (data n)) (\<lambda>d.
     bind_ok (memset0 (pdata d) 1024 m) (\<lambda>m1.
       case c_fgets 1024 input of
         None \<Rightarrow> Inr (input, m1)
       | Some (l, rest) \<Rightarrow>
           bind_ok (memcpy_from (pdata d) (c_lit l) (length l + 1) m1) (\<lambda>m2. Inr (rest, m2)))))"

definition node_text :: "addr \<Rightarrow> mem \<Rightarrow> char list res" where
  \<comment> \<open>\<open>node->data->pdata\<close>\<close>
  "node_text node m =
     bind_ok (deref (nodes m) node) (\<lambda>n. bind_ok (deref (infs m) (data n)) (\<lambda>d. deref (bufs m) (pdata d)))"

definition count_line :: "int \<Rightarrow> addr \<Rightarrow> mem \<Rightarrow> string res" where
  "count_line line head m =
     bind_ok (deref (heads m) head) (\<lambda>h.
       Inr (fmt_d line @ '' node count: '' @ fmt_d (linknode_count h) @ [newline]))"

definition pop_command :: "addr \<Rightarrow> mem \<Rightarrow> (string \<times> mem) res" where
  "pop_command head m =
     bind_ok (singlelinklist_init_node 1024 m) (\<lambda>(node2, m1).
     bind_ok (singlelinklist_pop_node head node2 m1) (\<lambda>m2.
     bind_ok (count_line 219 head m2) (\<lambda>s.
     bind_ok (deref (nodes m2) node2) (\<lambda>n.
     bind_ok (deref (infs m2) (data n)) (\<lambda>d.
     bind_ok (deref (bufs m2) (pdata d)) (\<lambda>b.
     bind_ok (c_strlen b) (\<lambda>len.
     bind_ok (singlelinklist_destory_node node2 m2) (\<lambda>m3.
       Inr (s @ ''node2:len: ['' @ fmt_d (data_len d) @ ''] '' @ take len b @ [newline], m3)))))))))"

definition append_command :: "addr \<Rightarrow> addr \<Rightarrow> mem \<Rightarrow> (string \<times> mem) res" where
  "append_command head node m =
     bind_ok (deref (nodes m) node) (\<lambda>n.
     bind_ok (node_text node m) (\<lambda>b.
     bind_ok (c_strlen b) (\<lambda>len.
     bind_ok (upd_inf (data n) (\<lambda>d. d\<lparr>data_len := int len\<rparr>) m) (\<lambda>m1.
     bind_ok (singlelinklist_insert_node head node m1) (\<lambda>m2.
     bind_ok (count_line 229 head m2) (\<lambda>s.
       Inr (s, m2)))))))"

text \<open>
  The loop, with the array \<open>record\<close> and the index \<open>i\<close>.  Every round stores its node in
  \<open>record\<close>, so there are at most as many rounds as it has entries left.
\<close>

function test_loop :: "addr \<Rightarrow> addr list \<Rightarrow> nat \<Rightarrow> string \<Rightarrow> mem \<Rightarrow> (int option \<times> string \<times> mem) res" where
  "test_loop head nrecord i input m =
     bind_ok (singlelinklist_init_node 1024 m) (\<lambda>(node, m1).
     if node = 0 then Inr (Some (-1), [], m1)
     else
       bind_ok (wr_at nrecord (int i) node) (\<lambda>nrecord'.
       bind_ok (read_line node input m1) (\<lambda>(rest, m2).
       bind_ok (node_text node m2) (\<lambda>b.
       bind_ok (strncmp_eq (c_lit ''pop'') b 3) (\<lambda>is_pop.
       if is_pop then
         bind_ok (pop_command head m2) (\<lambda>(s, m3).
         bind_ok (test_loop head nrecord' (Suc i) rest m3) (\<lambda>(r, t, m4). Inr (r, s @ t, m4)))
       else
         bind_ok (strncmp_eq (c_lit ''quit'') b 4) (\<lambda>is_quit.
         if is_quit then bind_ok (destory_singlelinklist head m2) (\<lambda>(s, m3). Inr (None, s, m3))
         else
           bind_ok (append_command head node m2) (\<lambda>(s, m3).
           bind_ok (test_loop head nrecord' (Suc i) rest m3) (\<lambda>(r, t, m4). Inr (r, s @ t, m4)))))))))"
  by pat_completeness auto
termination
  by (relation "measure (\<lambda>(head, nrecord, i, input, m). length nrecord - i)")
    (auto simp: wr_at_def split: if_splits)

declare test_loop.simps [simp del]

definition test :: "bool \<Rightarrow> string \<Rightarrow> mem \<Rightarrow> (int option \<times> string \<times> mem) res" where
  \<comment> \<open>the flag is the outcome of \<open>pthread_mutex_init\<close>\<close>
  "test mutex_ok stdin m =
     bind_ok (init_singlelinklist mutex_ok m) (\<lambda>(head, m1). test_loop head (replicate 1024 0) 0 stdin m1)"

subsection \<open>Reading a line into a new node\<close>

definition filled :: "mem \<Rightarrow> string \<Rightarrow> mem" where
  \<comment> \<open>a new node of 1024 bytes that holds the text \<open>t\<close>\<close>
  "filled m t = (after_init m 1024)\<lparr>bufs := (bufs m)(nalloc m + 3 \<mapsto> t @ replicate (1024 - length t) NUL)\<rparr>"

lemma size_1024 [simp]: "size_of_int 1024 = 1024"
  by (simp add: size_of_int_def)

lemma filled_fields:
  "infs (filled m t) = (infs m)(nalloc m + 2 \<mapsto> \<lparr>pdata = nalloc m + 3, data_len = 0, recv_fd = 0, send_to = 0\<rparr>)"
  "nodes (filled m t) = (nodes m)(nalloc m + 1 \<mapsto> \<lparr>nxt = 0, data = nalloc m + 2\<rparr>)"
  "bufs (filled m t) = (bufs m)(nalloc m + 3 \<mapsto> t @ replicate (1024 - length t) NUL)"
  "heads (filled m t) = heads m" "nalloc (filled m t) = nalloc m + 3" "oom (filled m t) = oom m"
  by (simp_all add: filled_def after_init_def)

lemma memset_new: "memset0 (nalloc m + 3) 1024 (after_init m 1024) = Inr (filled m [])"
  by (simp add: memset0_def after_init_blocks deref_Some filled_def)

lemma zeros_after:
  "length (t :: string) \<le> 1023 \<Longrightarrow> replicate (1024 - length t) NUL = NUL # replicate (1023 - length t) NUL"
  by (cases "1024 - length t") (simp_all add: Suc_diff_le)

lemma read_line_new:
  assumes "c_fgets 1024 input = Some (t, rest)" and "length t \<le> 1023"
  shows "read_line (nalloc m + 1) input (after_init m 1024) = Inr (rest, filled m t)"
proof -
  have "memcpy_from (nalloc m + 3) (c_lit t) (length t + 1) (filled m []) = Inr (filled m t)"
    using assms(2)
    by (simp add: memcpy_from_def filled_fields deref_Some c_lit_def) (simp add: filled_def zeros_after)
  with assms show ?thesis
    by (simp add: read_line_def after_init_blocks deref_Some memset_new)
qed

lemma read_line_eof:
  assumes "c_fgets 1024 input = None"
  shows "read_line (nalloc m + 1) input (after_init m 1024) = Inr (input, filled m [])"
  using assms by (simp add: read_line_def after_init_blocks deref_Some memset_new)

lemma filled_node:
  assumes "length t \<le> 1024"
  shows "node_addrs (filled m t) (nalloc m + 1) = [nalloc m + 1, nalloc m + 2, nalloc m + 3]"
    and "node_buf (filled m t) (nalloc m + 1) = nalloc m + 3"
    and "node_block (filled m t) (nalloc m + 1) = t @ replicate (1024 - length t) NUL"
    and "node_ok (filled m t) (nalloc m + 1)"
    and "node_text (nalloc m + 1) (filled m t) = Inr (t @ replicate (1024 - length t) NUL)"
  using assms
  by (simp_all add: node_addrs_def node_inf_def node_buf_def node_block_def node_ok_def node_text_def
      filled_fields deref_Some INT_MAX_def)

lemma agree_filled: "A \<subseteq> {a. a \<le> nalloc m} \<Longrightarrow> agree_on A m (filled m t)"
  by (auto simp: agree_on_def filled_fields)

lemma text_strlen:
  assumes "NUL \<notin> set t" and "length t \<le> 1023"
  shows "c_strlen (t @ replicate (1024 - length t) NUL) = Inr (length t)"
  using c_strlen_append [OF assms(1)] assms(2) by (simp add: zeros_after)

subsection \<open>The commands\<close>

text \<open>The state of the loop: the list, its messages, and the buffers of nodes no one holds any more.\<close>

definition holds_text :: "mem \<Rightarrow> addr \<Rightarrow> bool" where
  \<comment> \<open>the buffer of a node holds its message as a C string\<close>
  "holds_text m n \<longleftrightarrow> NUL \<in> set (node_block m n) \<and> c_string (node_block m n) = m_bytes (node_msg m n)"

definition test_ok :: "mem \<Rightarrow> addr \<Rightarrow> addr \<Rightarrow> addr list \<Rightarrow> string list \<Rightarrow> addr set \<Rightarrow> bool" where
  "test_ok m lh s ns q L \<longleftrightarrow>
     ll_rep m lh s ns \<and> map (\<lambda>n. m_bytes (node_msg m n)) ns = q \<and>
     (\<forall>x \<in> set q. length x \<le> 1023 \<and> NUL \<notin> set x) \<and> (\<forall>n \<in> set ns. holds_text m n) \<and>
     dom (bufs m) = node_buf m ` set ns \<union> L \<and> node_buf m ` set ns \<inter> L = {} \<and>
     finite L \<and> L \<subseteq> {a. a \<le> nalloc m}"

lemma node_buf_in_fp: "n \<in> set ns \<Longrightarrow> node_buf m n \<in> set (ll_fp m lh s ns)"
  by (auto simp: ll_fp_def node_addrs_def)

lemma agree_node_buf:
  "agree_on A m m' \<Longrightarrow> set (node_addrs m n) \<subseteq> A \<Longrightarrow> node_buf m' n = node_buf m n"
  using agree_on_node(1) [of A m m' n] by (simp add: node_addrs_def)

lemma node_addrs_in_fp: "n \<in> set ns \<Longrightarrow> set (node_addrs m n) \<subseteq> set (ll_fp m lh s ns)"
  by (auto simp: ll_fp_def)

lemma test_ok_agree:
  assumes ok: "test_ok m lh s ns q L" and ag: "agree_on A m m'" and sub: "set (ll_fp m lh s ns) \<subseteq> A"
  shows "ll_rep m' lh s ns" and "map (\<lambda>n. m_bytes (node_msg m' n)) ns = q"
    and "node_buf m' ` set ns = node_buf m ` set ns" and "\<forall>n \<in> set ns. holds_text m' n"
proof -
  show "ll_rep m' lh s ns" using ok agree_on_ll(3) [OF ag sub] by (simp add: test_ok_def)
  have eq: "node_msg m' n = node_msg m n" "node_buf m' n = node_buf m n" "node_block m' n = node_block m n"
    if "n \<in> set ns" for n
    using agree_on_node(2,3) [OF ag, of n] agree_node_buf [OF ag, of n] node_addrs_in_fp [OF that, of m lh s] sub by blast+
  show "map (\<lambda>n. m_bytes (node_msg m' n)) ns = q" using ok eq(1) by (auto simp: test_ok_def)
  show "node_buf m' ` set ns = node_buf m ` set ns" by (intro image_cong [OF refl] eq(2))
  show "\<forall>n \<in> set ns. holds_text m' n" using ok eq(1,3) by (simp add: test_ok_def holds_text_def)
qed

lemma test_ok_filled:
  assumes ok: "test_ok m lh s ns q L"
  shows "test_ok (filled m t) lh s ns q (insert (nalloc m + 3) L)"
proof -
  have R: "ll_rep m lh s ns" using ok by (simp add: test_ok_def)
  note T = test_ok_agree [OF ok agree_filled [OF order_refl] ll_fp_bound [OF R], of t]
  have "nalloc m + 3 \<notin> node_buf m ` set ns" using ll_fp_bound [OF R] node_buf_in_fp [of _ ns m lh s] by fastforce
  then show ?thesis using ok T unfolding test_ok_def by (auto simp: filled_fields)
qed

lemma append_command_ok:
  assumes ok: "test_ok m lh s ns q L" and t: "length t \<le> 1023" "NUL \<notin> set t" and room: "int (length ns) < INT_MAX"
  shows "\<exists>m'. append_command lh (nalloc m + 1) (filled m t) =
       Inr (fmt_d 229 @ '' node count: '' @ fmt_d (int (length q) + 1) @ [newline], m') \<and>
     test_ok m' lh s (ns @ [nalloc m + 1]) (q @ [t]) L \<and> nalloc m' = nalloc m + 3 \<and> oom m' = oom m"
proof -
  let ?a = "nalloc m + 1" and ?f = "filled m t"
  from ok have R: "ll_rep m lh s ns" and lq: "length q = length ns" by (auto simp: test_ok_def)
  define m1 where "m1 = ?f\<lparr>infs := (infs m)(nalloc m + 2 \<mapsto>
      \<lparr>pdata = nalloc m + 3, data_len = int (length t), recv_fd = 0, send_to = 0\<rparr>)\<rparr>"
  have F: "infs m1 = (infs m)(nalloc m + 2 \<mapsto>
      \<lparr>pdata = nalloc m + 3, data_len = int (length t), recv_fd = 0, send_to = 0\<rparr>)"
    "nodes m1 = nodes ?f" "bufs m1 = bufs ?f" "heads m1 = heads m" "nalloc m1 = nalloc m + 3" "oom m1 = oom m"
    by (simp_all add: m1_def filled_fields)
  have nd: "node_addrs m1 ?a = [nalloc m + 1, nalloc m + 2, nalloc m + 3]" "node_ok m1 ?a"
    "node_buf m1 ?a = nalloc m + 3" "m_bytes (node_msg m1 ?a) = t"
    "node_block m1 ?a = t @ replicate (1024 - length t) NUL"
    using t(1) by (simp_all add: node_addrs_def node_inf_def node_buf_def node_block_def node_ok_def
        node_msg_def F filled_fields INT_MAX_def)
  have ag: "agree_on {a. a \<le> nalloc m} m m1" by (auto simp: agree_on_def F filled_fields)
  note T = test_ok_agree [OF ok ag ll_fp_bound [OF R]]
  have fpm: "ll_fp m1 lh s ns = ll_fp m lh s ns" by (rule agree_on_ll(1) [OF ag ll_fp_bound [OF R]])
  have dis: "set (ll_fp m1 lh s ns) \<inter> set (node_addrs m1 ?a) = {}"
    unfolding fpm nd(1) using ll_fp_bound [OF R] by auto
  define m2 where "m2 = after_insert m1 lh s ns ?a"
  note I = insert_eq [OF T(1) nd(2) dis room, folded m2_def] after_insert_rep(1) [OF T(1) nd(2) dis, folded m2_def]
  have N: "node_msg m2 x = node_msg m1 x" "node_addrs m2 x = node_addrs m1 x" "node_block m2 x = node_block m1 x" for x
    unfolding m2_def by (rule after_insert_node)+
  then have B: "node_buf m2 x = node_buf m1 x" for x by (metis list.inject node_addrs_def)
  have "holds_text m1 ?a" using t nd(4,5) by (simp add: holds_text_def zeros_after c_string_append)
  then have tx: "\<forall>x \<in> set (ns @ [?a]). holds_text m2 x" using T(4) by (simp add: holds_text_def N)
  have f2: "bufs m2 = bufs ?f" "nalloc m2 = nalloc m + 3" "oom m2 = oom m"
    by (simp_all add: m2_def after_insert_def F)
  have h2: "heads m2 lh = Some \<lparr>linklist_head = s, linklist_tail = ?a,
      linknode_count = int (length ns) + 1, ll_mutex = Unlocked\<rparr>" "lh \<noteq> 0"
    using R by (simp_all add: m2_def after_insert_def ll_shape_def)
  have "append_command lh ?a ?f =
       Inr (fmt_d 229 @ '' node count: '' @ fmt_d (int (length q) + 1) @ [newline], m2)"
    using I(1) h2 lq filled_node(5) [of t m] text_strlen [OF t(2,1)] t(1)
    by (simp add: append_command_def filled_fields deref_Some upd_inf_def count_line_def m1_def fun_upd_twist)
  moreover have nb: "nalloc m + 3 \<notin> node_buf m ` set ns"
    using ll_fp_bound [OF R] node_buf_in_fp [of _ ns m lh s] by fastforce
  have "test_ok m2 lh s (ns @ [?a]) (q @ [t]) L"
    using ok T I(2) t nd nb tx unfolding test_ok_def by (auto simp: N B f2 filled_fields)
  ultimately show ?thesis using f2 by blast
qed


text \<open>Popping into a new node, with and without a message in the list.\<close>

lemma pop_into_new:
  assumes ok: "test_ok m lh s ns q L"
  defines "x \<equiv> case q of [] \<Rightarrow> [] | x # _ \<Rightarrow> x"
  shows "\<exists>m2. singlelinklist_pop_node lh (nalloc m + 1) (after_init m 1024) = Inr m2 \<and> node_ok m2 (nalloc m + 1) \<and>
      node_addrs m2 (nalloc m + 1) = node_addrs (after_init m 1024) (nalloc m + 1) \<and> m_bytes (node_msg m2 (nalloc m + 1)) = x \<and>
      node_block m2 (nalloc m + 1) = x @ replicate (1024 - length x) NUL \<and>
      ll_rep m2 lh s (tl ns) \<and> set (ll_fp m2 lh s (tl ns)) \<inter> set (node_addrs m2 (nalloc m + 1)) = {} \<and>
      map (\<lambda>n. m_bytes (node_msg m2 n)) (tl ns) = tl q \<and> (\<forall>n \<in> set (tl ns). holds_text m2 n) \<and>
      dom (bufs m2) = insert (nalloc m + 3) (node_buf m2 ` set (tl ns) \<union> L) \<and>
      node_buf m2 ` set (tl ns) \<inter> insert (nalloc m + 3) L = {} \<and>
      nalloc m2 = nalloc m + 3 \<and> oom m2 = oom m"
proof -
  let ?a = "nalloc m + 1" and ?i = "after_init m 1024"
  from ok have R: "ll_rep m lh s ns" and lq: "length q = length ns" by (auto simp: test_ok_def)
  note nd = after_init_node [of m 1024]
  have ag: "agree_on {a. a \<le> nalloc m} m ?i" by (rule agree_after_init) simp
  note T = test_ok_agree [OF ok ag ll_fp_bound [OF R]]
  have fpm: "ll_fp ?i lh s ns = ll_fp m lh s ns" by (rule agree_on_ll(1) [OF ag ll_fp_bound [OF R]])
  have dis: "set (ll_fp ?i lh s ns) \<inter> set (node_addrs ?i ?a) = {}"
    unfolding fpm nd(1) using ll_fp_bound [OF R] by auto
  have nb: "nalloc m + 3 \<notin> node_buf m ` set ns" "nalloc m + 3 \<notin> L"
    using ll_fp_bound [OF R] node_buf_in_fp [of _ ns m lh s] ok by (fastforce simp: test_ok_def)+
  have ib: "node_buf ?i ?a = nalloc m + 3" "node_inf ?i ?a = nalloc m + 2"
    using nd(1) by (simp_all add: node_addrs_def)
  show ?thesis
  proof (cases ns)
    case Nil
    then have "q = []" using lq by simp
    then show ?thesis using Nil T dis nd ok pop_empty [OF T(1) [unfolded Nil]]
      by (auto simp: x_def after_init_blocks test_ok_def after_init_def)
  next
    case (Cons n ns')
    from Cons lq obtain q' where q: "q = x # q'" by (cases q) (auto simp: x_def)
    let ?m2 = "after_pop ?i lh ?a s n ns'"
    have x: "m_bytes (node_msg ?i n) = x" "map (\<lambda>n. m_bytes (node_msg ?i n)) ns' = q'"
      using T(2) Cons q by simp_all
    have xl: "length x \<le> 1023" using ok q by (simp add: test_ok_def)
    then have fit: "length (m_bytes (node_msg ?i n)) \<le> length (node_block ?i ?a)"
      using x nd(2) by simp
    note r = T(1) [unfolded Cons] and d = dis [unfolded Cons]
    note A = after_pop_rep [OF r nd(3) d] and D = after_pop_datanode [OF r nd(3) d fit]
    let ?A = "set (concat (map (node_addrs ?i) ns'))"
    have di: "distinct (lh # s # node_addrs ?i n @ concat (map (node_addrs ?i) ns'))"
      using r by (simp add: ll_shape_def ll_fp_def)
    then have "\<forall>y \<in> set [lh, s, n, node_inf ?i ?a, node_inf ?i n, node_buf ?i ?a, node_buf ?i n]. y \<notin> ?A"
      using d by (auto simp: ll_fp_def node_addrs_def)
    then have ag2: "agree_on ?A ?i ?m2" by (rule agree_after_pop)
    have nb2: "node_buf ?m2 ` set ns' = node_buf ?i ` set ns'"
      by (intro image_cong refl agree_node_buf [OF ag2]) auto
    have n0: "node_buf ?i n \<notin> node_buf ?i ` set ns'" "node_buf ?i n \<noteq> node_buf ?i ?a"
      using di d by (auto simp: node_addrs_def ll_fp_def)
    have n1: "node_buf ?i n \<in> node_buf m ` set ns" "node_buf ?i ` set ns' \<subseteq> node_buf m ` set ns"
      using T(3) Cons by auto
    then have n2: "node_buf ?i n \<notin> L" "node_buf ?i ` set ns' \<inter> L = {}" "nalloc m + 3 \<notin> node_buf ?i ` set ns'"
    proof -
      have "node_buf m ` set ns \<inter> L = {}" using ok by (simp add: test_ok_def)
      with n1 show "node_buf ?i n \<notin> L" "node_buf ?i ` set ns' \<inter> L = {}" by blast+
      show "nalloc m + 3 \<notin> node_buf ?i ` set ns'" using n1(2) nb(1) by blast
    qed
    have "dom (bufs ?i) = insert (nalloc m + 3) (insert (node_buf ?i n) (node_buf ?i ` set ns') \<union> L)"
      using ok T(3) Cons by (auto simp: test_ok_def after_init_blocks)
    then have dm: "dom (bufs ?m2) = insert (nalloc m + 3) (node_buf ?m2 ` set ns' \<union> L)"
      unfolding nb2 using n0 n2 ib by (auto simp: after_pop_def)
    have msg: "map (\<lambda>n. m_bytes (node_msg ?m2 n)) ns' = q'"
      using x(2) A(2) by (metis (mono_tags, lifting) map_eq_conv)
    have tx: "\<forall>n \<in> set ns'. holds_text ?m2 n"
    proof
      fix y
      assume y: "y \<in> set ns'"
      then have "set (node_addrs ?i y) \<subseteq> ?A" by auto
      from agree_on_node(2,3) [OF ag2 this] T(4) y Cons show "holds_text ?m2 y" by (simp add: holds_text_def)
    qed
    have dj: "set (ll_fp ?m2 lh s ns') \<inter> set (node_addrs ?m2 ?a) = {}"
      unfolding A(3) D(2) using d by (auto simp: ll_fp_def)
    have bl: "node_block ?m2 ?a = x @ replicate (1024 - length x) NUL"
      using D(4) x(1) nd(2) by simp
    have al: "nalloc ?m2 = nalloc m + 3" "oom ?m2 = oom m" by (simp_all add: after_pop_def after_init_def)
    have "singlelinklist_pop_node lh ?a ?i = Inr ?m2" by (rule pop_eq [OF r nd(3) d fit])
    then show ?thesis
      using D(1-3) A(1) x(1) msg tx dj bl dm nb2 n2 al unfolding Cons q list.sel
      by (intro exI [of _ ?m2] conjI) (simp_all, blast?)
  qed
qed

lemma pop_command_ok:
  assumes ok: "test_ok m lh s ns q L" and al: "alloc_ok m 3"
  defines "x \<equiv> case q of [] \<Rightarrow> [] | x # _ \<Rightarrow> x"
  shows "\<exists>m'. pop_command lh m =
       Inr (fmt_d 219 @ '' node count: '' @ fmt_d (int (length (tl q))) @ [newline] @
            ''node2:len: ['' @ fmt_d (int (length x)) @ ''] '' @ x @ [newline], m') \<and>
     test_ok m' lh s (tl ns) (tl q) L \<and> nalloc m' = nalloc m + 3 \<and> oom m' = oom m"
proof -
  let ?a = "nalloc m + 1" and ?i = "after_init m 1024"
  from ok have R: "ll_rep m lh s ns" and lq: "length q = length ns" by (auto simp: test_ok_def)
  note nd = after_init_node [of m 1024]
  have nb: "nalloc m + 3 \<notin> L" using ok by (auto simp: test_ok_def)
  obtain m2 where P: "singlelinklist_pop_node lh ?a ?i = Inr m2" "node_ok m2 ?a"
      "node_addrs m2 ?a = node_addrs ?i ?a" "m_bytes (node_msg m2 ?a) = x"
      "node_block m2 ?a = x @ replicate (1024 - length x) NUL"
      "ll_rep m2 lh s (tl ns)" "set (ll_fp m2 lh s (tl ns)) \<inter> set (node_addrs m2 ?a) = {}"
      "map (\<lambda>n. m_bytes (node_msg m2 n)) (tl ns) = tl q" "\<forall>n \<in> set (tl ns). holds_text m2 n"
      "dom (bufs m2) = insert (nalloc m + 3) (node_buf m2 ` set (tl ns) \<union> L)"
      "node_buf m2 ` set (tl ns) \<inter> insert (nalloc m + 3) L = {}"
      "nalloc m2 = nalloc m + 3" "oom m2 = oom m"
    using pop_into_new [OF ok, folded x_def] by (elim exE conjE) (rule that)
  have xs: "length x \<le> 1023" "NUL \<notin> set x" using ok by (auto simp: x_def test_ok_def split: list.split)
  obtain nn i b where N: "nodes m2 ?a = Some nn" "data nn = node_inf m2 ?a" "node_inf m2 ?a \<noteq> 0"
    "infs m2 (node_inf m2 ?a) = Some i" "pdata i = node_buf m2 ?a" "node_buf m2 ?a \<noteq> 0"
    "bufs m2 (node_buf m2 ?a) = Some b" "node_block m2 ?a = b" "0 \<le> data_len i" "data_len i \<le> int (length b)"
    using P(2) by (rule node_okE) (metis)
  have b: "b = x @ replicate (1024 - length x) NUL" using N(8) P(5) by simp
  have dl: "data_len i = int (length x)"
  proof -
    have "m_bytes (node_msg m2 ?a) = take (nat (data_len i)) b" using N by (simp add: node_msg_def)
    then have "length (take (nat (data_len i)) b) = length x" using P(4) by simp
    then show ?thesis using N(9,10) by simp
  qed
  have ba: "node_buf m2 ?a = nalloc m + 3" "node_inf m2 ?a = nalloc m + 2"
    using P(3) nd(1) by (simp_all add: node_addrs_def)
  define m3 where "m3 = m2\<lparr>nodes := (nodes m2)(?a := None), infs := (infs m2)(node_inf m2 ?a := None),
      bufs := (bufs m2)(node_buf m2 ?a := None)\<rparr>"
  have D: "singlelinklist_destory_node ?a m2 = Inr m3"
    unfolding m3_def by (rule destory_node_eq [OF P(2)])
  have f3: "nalloc m3 = nalloc m + 3" "oom m3 = oom m" "bufs m3 = (bufs m2)(nalloc m + 3 := None)"
    using P ba by (simp_all add: m3_def)
  have cnt: "count_line 219 lh m2 = Inr (fmt_d 219 @ '' node count: '' @ fmt_d (int (length (tl q))) @ [newline])"
    using P(6) lq by (simp add: count_line_def ll_shape_def deref_Some)
  have "pop_command lh m =
       Inr (fmt_d 219 @ '' node count: '' @ fmt_d (int (length (tl q))) @ [newline] @
            ''node2:len: ['' @ fmt_d (int (length x)) @ ''] '' @ x @ [newline], m3)"
    using init_node_eq [OF al, of 1024] P(1) cnt N D dl text_strlen [OF xs(2,1)] b
    by (simp add: pop_command_def deref_Some)
  moreover have ag3: "agree_on (- set (node_addrs m2 ?a)) m2 m3"
    by (auto simp: agree_on_def m3_def node_addrs_def)
  have t2: "test_ok m2 lh s (tl ns) (tl q) (insert (nalloc m + 3) L)"
  proof -
    have "finite L" "L \<subseteq> {a. a \<le> nalloc m}" "\<forall>y \<in> set (tl q). length y \<le> 1023 \<and> NUL \<notin> set y"
      using ok by (cases q; simp add: test_ok_def)+
    with P(6,8-12) show ?thesis unfolding test_ok_def by auto
  qed
  have "set (ll_fp m2 lh s (tl ns)) \<subseteq> - set (node_addrs m2 ?a)" using P(7) by blast
  note T3 = test_ok_agree [OF t2 ag3 this]
  have "test_ok m3 lh s (tl ns) (tl q) L"
    using t2 T3 nb P(10-12) unfolding test_ok_def f3 by auto
  ultimately show ?thesis using f3 by blast
qed

subsection \<open>The loop\<close>

definition line_ok :: "string \<Rightarrow> bool" where
  "line_ok l \<longleftrightarrow> newline \<notin> set l \<and> NUL \<notin> set l \<and> length l \<le> 1022"

abbreviation is_pop :: "string \<Rightarrow> bool" where "is_pop l \<equiv> take 3 l = ''pop''"
abbreviation is_quit :: "string \<Rightarrow> bool" where "is_quit l \<equiv> take 4 l = ''quit''"

lemma command_test:
  "take 3 (l @ newline # z) = ''pop'' \<longleftrightarrow> is_pop l" "take 4 (l @ newline # z) = ''quit'' \<longleftrightarrow> is_quit l"
proof -
  show "take 3 (l @ newline # z) = ''pop'' \<longleftrightarrow> is_pop l"
    by (cases l; cases "tl l"; cases "tl (tl l)"; cases "tl (tl (tl l))") (auto simp: newline_def take_Cons')
  show "take 4 (l @ newline # z) = ''quit'' \<longleftrightarrow> is_quit l"
    by (cases l; cases "tl l"; cases "tl (tl l)"; cases "tl (tl (tl l))"; cases "tl (tl (tl (tl l)))")
      (auto simp: newline_def take_Cons')
qed

lemma test_round:
  assumes al: "alloc_ok m 3" and i: "i < length r" and l: "line_ok l"
  defines "r' \<equiv> r[i := nalloc m + 1]" and "t \<equiv> l @ [newline]"
  shows "test_loop lh r i (l @ newline # rest) m =
     (if is_pop l then
        bind_ok (pop_command lh (filled m t)) (\<lambda>(s, m3).
        bind_ok (test_loop lh r' (Suc i) rest m3) (\<lambda>(x, u, m4). Inr (x, s @ u, m4)))
      else if is_quit l then
        bind_ok (destory_singlelinklist lh (filled m t)) (\<lambda>(s, m3). Inr (None, s, m3))
      else
        bind_ok (append_command lh (nalloc m + 1) (filled m t)) (\<lambda>(s, m3).
        bind_ok (test_loop lh r' (Suc i) rest m3) (\<lambda>(x, u, m4). Inr (x, s @ u, m4))))"
proof -
  have tl: "length t \<le> 1023" "length t \<le> 1024" using l by (simp_all add: t_def line_ok_def)
  have fg: "c_fgets 1024 (l @ newline # rest) = Some (t, rest)"
    using l fgets_body_line [of l 1023 rest] by (simp add: c_fgets_def line_ok_def t_def)
  let ?b = "t @ replicate (1024 - length t) NUL"
  have len: "length ''pop'' = 3" "length ''quit'' = 4" by simp_all
  have b3: "3 \<le> length ?b" "4 \<le> length ?b" using tl by simp_all
  have cl: "c_lit ''pop'' = ''pop'' @ [NUL]" "c_lit ''quit'' = ''quit'' @ [NUL]" by (simp_all only: c_lit_def)
  have bl: "?b = l @ newline # replicate (1024 - length t) NUL" by (simp add: t_def)
  have "strncmp_eq (''pop'' @ [NUL]) ?b 3 = Inr (take 3 ?b = ''pop'')"
    by (rule strncmp_eq_prefix [of "''pop''" ?b, unfolded len]) (use b3 in simp_all)
  moreover have "strncmp_eq (''quit'' @ [NUL]) ?b 4 = Inr (take 4 ?b = ''quit'')"
    by (rule strncmp_eq_prefix [of "''quit''" ?b, unfolded len]) (use b3 in simp_all)
  ultimately have cmd: "strncmp_eq (c_lit ''pop'') ?b 3 = Inr (is_pop l)" "strncmp_eq (c_lit ''quit'') ?b 4 = Inr (is_quit l)"
    unfolding cl bl command_test by simp_all
  have w: "wr_at r (int i) (nalloc m + 1) = Inr r'" using i by (simp add: wr_at_def r'_def)
  note n5 = filled_node(5) [OF tl(2), of m]
  note rl = read_line_new [OF fg tl(1), of m]
  show ?thesis
    by (subst test_loop.simps)
      (simp only: init_node_eq [OF al] bind_ok.simps prod.case w rl n5 cmd if_False add_is_0 one_neq_zero simp_thms)
qed

lemma test_round_full:
  assumes "alloc_ok m 3"
  shows "test_loop lh r (length r) input m = Inl Out_of_bounds"
  using assms by (subst test_loop.simps) (simp add: init_node_eq wr_at_def)

fun console :: "string list \<Rightarrow> string list \<Rightarrow> string" where
  \<comment> \<open>what is printed for these lines, with these messages in the list\<close>
  "console [] q = []"
| "console (l # ls) q =
     (if is_pop l then
        (let x = (case q of [] \<Rightarrow> [] | x # _ \<Rightarrow> x) in
         fmt_d 219 @ '' node count: '' @ fmt_d (int (length (tl q))) @ [newline] @
         ''node2:len: ['' @ fmt_d (int (length x)) @ ''] '' @ x @ [newline] @ console ls (tl q))
      else if is_quit l then destory_lines q
      else fmt_d 229 @ '' node count: '' @ fmt_d (int (length q) + 1) @ [newline] @ console ls (q @ [l @ [newline]]))"

fun lost_nodes :: "string list \<Rightarrow> nat" where
  \<comment> \<open>the nodes that held a command\<close>
  "lost_nodes [] = 0"
| "lost_nodes (l # ls) =
     (if is_pop l then Suc (lost_nodes ls) else if is_quit l then 1 else lost_nodes ls)"

lemma quit_ok:
  assumes ok: "test_ok m lh s ns q L"
  shows "\<exists>m'. destory_singlelinklist lh (filled m t) = Inr (destory_lines q, m') \<and>
     dom (bufs m') = insert (nalloc m + 3) L"
proof -
  have F: "test_ok (filled m t) lh s ns q (insert (nalloc m + 3) L)" by (rule test_ok_filled [OF ok])
  then have R: "ll_rep (filled m t) lh s ns" by (simp add: test_ok_def)
  show ?thesis
  proof (cases "ns = []")
    case True
    with destory_empty_list [of "filled m t" lh s] R F show ?thesis by (auto simp: test_ok_def)
  next
    case False
    have "\<forall>n \<in> set ns. NUL \<in> set (node_block (filled m t) n)"
      and q: "map (\<lambda>n. c_string (node_block (filled m t) n)) ns = q"
      using F by (auto simp: test_ok_def holds_text_def)
    from destory_list_ok [OF R False this(1), unfolded q] obtain m' where
      "destory_singlelinklist lh (filled m t) = Inr (destory_lines q, m')"
      "bufs m' = (bufs (filled m t)) |` (- node_buf (filled m t) ` set ns)" by blast
    with F show ?thesis by (intro exI [of _ m']) (auto simp: test_ok_def)
  qed
qed

lemma test_step:
  assumes ok: "test_ok m lh s ns q L" and mem: "\<forall>n. \<not> oom m n" and i: "i < length r" and l: "line_ok l" "\<not> is_quit l"
    and room: "int (length q) < INT_MAX"
  defines "q' \<equiv> if is_pop l then tl q else q @ [l @ [newline]]"
  shows "\<exists>r' t m' ns' L'.
     test_loop lh r i (l @ newline # rest) m =
       bind_ok (test_loop lh r' (Suc i) rest m') (\<lambda>(x, u, m4). Inr (x, t @ u, m4)) \<and>
     length r' = length r \<and> test_ok m' lh s ns' q' L' \<and> oom m' = oom m \<and>
     card L' = card L + (if is_pop l then 1 else 0) \<and> (\<forall>ls. console (l # ls) q = t @ console ls q')"
proof -
  let ?t = "l @ [newline]" and ?r = "r[i := nalloc m + 1]"
  have al: "alloc_ok m 3" using mem by (simp add: alloc_ok_def)
  have t: "length ?t \<le> 1023" "NUL \<notin> set ?t" using l(1) by (simp_all add: line_ok_def newline_def)
  note R = test_round [OF al i l(1), of lh rest]
  show ?thesis
  proof (cases "is_pop l")
    case True
    have "alloc_ok (filled m ?t) 3" using mem by (simp add: alloc_ok_def filled_fields)
    from pop_command_ok [OF test_ok_filled [OF ok] this] obtain m' where
      m': "pop_command lh (filled m ?t) =
         Inr (fmt_d 219 @ '' node count: '' @ fmt_d (int (length (tl q))) @ [newline] @
            ''node2:len: ['' @ fmt_d (int (length (case q of [] \<Rightarrow> [] | x # _ \<Rightarrow> x))) @ ''] '' @
            (case q of [] \<Rightarrow> [] | x # _ \<Rightarrow> x) @ [newline], m')"
        "test_ok m' lh s (tl ns) (tl q) (insert (nalloc m + 3) L)" "oom m' = oom m"
      by (auto simp: filled_fields)
    have "nalloc m + 3 \<notin> L" "finite L" using ok by (auto simp: test_ok_def)
    then have "card (insert (nalloc m + 3) L) = card L + 1" by simp
    with R m' True show ?thesis
      by (intro exI [of _ ?r] exI [of _ m'] exI [of _ "insert (nalloc m + 3) L"] exI conjI)
        (simp_all add: q'_def Let_def)
  next
    case False
    have "int (length ns) < INT_MAX" using room ok by (auto simp: test_ok_def)
    from append_command_ok [OF ok t this] obtain m' where
      "append_command lh (nalloc m + 1) (filled m ?t) =
         Inr (fmt_d 229 @ '' node count: '' @ fmt_d (int (length q) + 1) @ [newline], m')"
      "test_ok m' lh s (ns @ [nalloc m + 1]) (q @ [?t]) L" "oom m' = oom m" by blast
    with R False l(2) show ?thesis
      by (intro exI [of _ ?r] exI [of _ m'] exI [of _ L] exI conjI) (simp_all add: q'_def)
  qed
qed

lemma test_loop_quits:
  assumes "test_ok m lh s ns q L" and "\<forall>n. \<not> oom m n" and "length r = 1024" and "list_all line_ok ls"
    and "list_ex is_quit ls" and "i + length (takeWhile (\<lambda>l. \<not> is_quit l) ls) < 1024" and "length q \<le> i"
  shows "\<exists>m'. test_loop lh r i (lines_of ls @ rest) m = Inr (None, console ls q, m') \<and>
     card (dom (bufs m')) = card L + lost_nodes ls"
  using assms
proof (induction ls arbitrary: m ns q L r i)
  case Nil
  then show ?case by simp
next
  case (Cons l ls)
  show ?case
  proof (cases "is_quit l")
    case True
    then have np: "\<not> is_pop l" by (cases l; cases "tl l"; simp)
    have "alloc_ok m 3" using Cons.prems(2) by (simp add: alloc_ok_def)
    from test_round [OF this, of i r l lh "lines_of ls @ rest"] quit_ok [OF Cons.prems(1), of "l @ [newline]"] obtain m' where
      "test_loop lh r i (lines_of (l # ls) @ rest) m = Inr (None, destory_lines q, m')" "dom (bufs m') = insert (nalloc m + 3) L"
      using Cons.prems True np by auto
    moreover have "nalloc m + 3 \<notin> L" "finite L" using Cons.prems(1) by (auto simp: test_ok_def)
    ultimately show ?thesis using True np by simp
  next
    case False
    let ?q = "if is_pop l then tl q else q @ [l @ [newline]]"
    have "i < length r" "int (length q) < INT_MAX" "line_ok l"
      using Cons.prems False by (simp_all add: INT_MAX_def)
    from test_step [OF Cons.prems(1,2) this(1,3) False this(2), of "lines_of ls @ rest"] obtain r' t m' ns' L' where
      st: "test_loop lh r i (l @ newline # lines_of ls @ rest) m =
         bind_ok (test_loop lh r' (Suc i) (lines_of ls @ rest) m') (\<lambda>(x, u, m4). Inr (x, t @ u, m4))"
      "length r' = length r" "test_ok m' lh s ns' ?q L'" "oom m' = oom m"
      "card L' = card L + (if is_pop l then 1 else 0)" "\<forall>ls. console (l # ls) q = t @ console ls ?q" by blast
    have "\<forall>n. \<not> oom m' n" "length r' = 1024" "list_all line_ok ls" "list_ex is_quit ls"
      "Suc i + length (takeWhile (\<lambda>l. \<not> is_quit l) ls) < 1024" "length ?q \<le> Suc i"
      using Cons.prems st(2,4) False by auto
    from Cons.IH [OF st(3) this] obtain m4 where
      "test_loop lh r' (Suc i) (lines_of ls @ rest) m' = Inr (None, console ls ?q, m4)"
      "card (dom (bufs m4)) = card L' + lost_nodes ls" by blast
    with st(1,5) st(6) [rule_format, of ls] False show ?thesis by simp
  qed
qed

lemma test_loop_overflows:
  assumes "test_ok m lh s ns q L" and "\<forall>n. \<not> oom m n" and "length r = 1024" and "list_all line_ok ls"
    and "1024 \<le> i + length (takeWhile (\<lambda>l. \<not> is_quit l) ls)" and "length q \<le> i" and "i \<le> 1024"
  shows "test_loop lh r i (lines_of ls @ rest) m = Inl Out_of_bounds"
  using assms
proof (induction ls arbitrary: m ns q L r i)
  case Nil
  then have "i = length r" "alloc_ok m 3" by (simp_all add: alloc_ok_def)
  with test_round_full show ?case by simp
next
  case (Cons l ls)
  show ?case
  proof (cases "i = 1024")
    case True
    then have "i = length r" "alloc_ok m 3" using Cons.prems by (simp_all add: alloc_ok_def)
    with test_round_full show ?thesis by simp
  next
    case False
    let ?q = "if is_pop l then tl q else q @ [l @ [newline]]"
    have nq: "\<not> is_quit l" using Cons.prems False by (auto split: if_splits)
    have "i < length r" "int (length q) < INT_MAX" "line_ok l"
      using Cons.prems False by (simp_all add: INT_MAX_def)
    from test_step [OF Cons.prems(1,2) this(1,3) nq this(2), of "lines_of ls @ rest"] obtain r' t m' ns' L' where
      st: "test_loop lh r i (l @ newline # lines_of ls @ rest) m =
         bind_ok (test_loop lh r' (Suc i) (lines_of ls @ rest) m') (\<lambda>(x, u, m4). Inr (x, t @ u, m4))"
      "length r' = length r" "test_ok m' lh s ns' ?q L'" "oom m' = oom m" by blast
    have "\<forall>n. \<not> oom m' n" "length r' = 1024" "list_all line_ok ls"
      "1024 \<le> Suc i + length (takeWhile (\<lambda>l. \<not> is_quit l) ls)" "length ?q \<le> Suc i" "Suc i \<le> 1024"
      using Cons.prems st(2,4) False nq by auto
    from Cons.IH [OF st(3) this] st(1) show ?thesis by simp
  qed
qed

subsection \<open>What \<open>test\<close> does\<close>

definition empty_heap :: mem where
  "empty_heap = \<lparr>nodes = (\<lambda>_. None), infs = (\<lambda>_. None), bufs = (\<lambda>_. None), heads = (\<lambda>_. None),
                nalloc = 0, oom = (\<lambda>_. False)\<rparr>"

lemma test_start:
  obtains m where "init_singlelinklist True empty_heap = Inr (2, m)" "test_ok m 2 1 [] [] {}" "\<forall>n. \<not> oom m n"
proof -
  let ?m = "empty_heap\<lparr>nodes := [1 \<mapsto> \<lparr>nxt = 1, data = 0\<rparr>],
    heads := [2 \<mapsto> \<lparr>linklist_head = 1, linklist_tail = 1, linknode_count = 0, ll_mutex = Unlocked\<rparr>], nalloc := 2\<rparr>"
  have "init_singlelinklist True empty_heap = Inr (2, ?m)"
    by (simp add: init_singlelinklist_def calloc_def upd_node_def deref_Some empty_heap_def fun_upd_def numeral_2_eq_2 fun_eq_iff)
  moreover have "test_ok ?m 2 1 [] [] {}"
    by (simp add: test_ok_def ll_shape_def ll_fp_def node_inf_def empty_heap_def)
  ultimately show ?thesis by (rule that) (simp add: empty_heap_def)
qed

text \<open>C25: the interactive exercise of the list, for lines that fit and contain no NUL, up to the
  first that starts with \<open>quit\<close>: if fewer than 1024 lines come before it, \<open>test\<close> prints what
  a queue of strings would, lists what is left in it, frees the list, and loses the nodes that
  held the commands;
  otherwise it writes past the end of \<open>record\<close>.\<close>

theorem list_exercise:
  assumes "list_all line_ok ls" and "list_ex is_quit ls"
  shows "if length (takeWhile (\<lambda>l. \<not> is_quit l) ls) < 1024
     then \<exists>m. test True (lines_of ls @ rest) empty_heap = Inr (None, console ls [], m) \<and>
       card (dom (bufs m)) = lost_nodes ls
     else test True (lines_of ls @ rest) empty_heap = Inl Out_of_bounds"
proof -
  obtain m where m: "init_singlelinklist True empty_heap = Inr (2, m)" "test_ok m 2 1 [] [] {}" "\<forall>n. \<not> oom m n"
    by (rule test_start)
  have t: "test True (lines_of ls @ rest) empty_heap = test_loop 2 (replicate 1024 0) 0 (lines_of ls @ rest) m"
    by (simp add: test_def m(1))
  show ?thesis
  proof (cases "length (takeWhile (\<lambda>l. \<not> is_quit l) ls) < 1024")
    case True
    then have "0 + length (takeWhile (\<lambda>l. \<not> is_quit l) ls) < 1024" "length ([] :: string list) \<le> 0" by simp_all
    from test_loop_quits [OF m(2,3) length_replicate assms this, where rest = rest] True show ?thesis by (simp add: t)
  next
    case False
    then have "1024 \<le> 0 + length (takeWhile (\<lambda>l. \<not> is_quit l) ls)" "length ([] :: string list) \<le> 0"
      "(0 :: nat) \<le> 1024" by simp_all
    from test_loop_overflows [OF m(2,3) length_replicate assms(1) this, where rest = rest] False show ?thesis by (simp add: t)
  qed
qed

lemma list_exercise_witness:
  "(\<exists>m. test True (lines_of [''hi'', ''pop'', ''ho'', ''quit'']) empty_heap =
     Inr (None, ''229 node count: 1'' @ [newline] @ ''219 node count: 0'' @ [newline] @ ''node2:len: [3] hi'' @
       [newline, newline] @ ''229 node count: 1'' @ [newline] @ ''destorying [1]:[ho'' @ [newline] @ '']'' @ [newline], m) \<and>
     card (dom (bufs m)) = 2) \<and>
   test True (lines_of (replicate 1024 ''hi'' @ [''quit''])) empty_heap = Inl Out_of_bounds"
proof
  let ?ls = "[''hi'', ''pop'', ''ho'', ''quit'']"
  have "list_all line_ok ?ls" "list_ex is_quit ?ls" by (simp_all add: line_ok_def newline_def)
  from list_exercise [OF this, of "[]"]
  have "\<exists>m. test True (lines_of ?ls) empty_heap = Inr (None, console ?ls [], m) \<and> card (dom (bufs m)) = lost_nodes ?ls"
    by (simp del: console.simps lines_of_simps)
  moreover have "console ?ls [] = ''229 node count: 1'' @ [newline] @ ''219 node count: 0'' @ [newline] @ ''node2:len: [3] hi'' @
       [newline, newline] @ ''229 node count: 1'' @ [newline] @ ''destorying [1]:[ho'' @ [newline] @ '']'' @ [newline]"
    by code_simp
  moreover have "lost_nodes ?ls = 2" by simp
  ultimately show "\<exists>m. test True (lines_of ?ls) empty_heap =
     Inr (None, ''229 node count: 1'' @ [newline] @ ''219 node count: 0'' @ [newline] @ ''node2:len: [3] hi'' @
       [newline, newline] @ ''229 node count: 1'' @ [newline] @ ''destorying [1]:[ho'' @ [newline] @ '']'' @ [newline], m) \<and>
     card (dom (bufs m)) = 2" by metis
  let ?l2 = "replicate 1024 ''hi'' @ [''quit'']"
  have "list_all line_ok ?l2" "list_ex is_quit ?l2" by (simp_all add: line_ok_def newline_def list_all_iff)
  moreover have "takeWhile (\<lambda>l. \<not> is_quit l) ?l2 = replicate 1024 ''hi''"
    by (subst takeWhile_append2) simp_all
  then have "\<not> length (takeWhile (\<lambda>l. \<not> is_quit l) ?l2) < 1024" by (simp only: length_replicate)
  ultimately show "test True (lines_of ?l2) empty_heap = Inl Out_of_bounds"
    using list_exercise [of ?l2 "[]"] by (simp only: if_False append_Nil2)
qed

end
