(* ===== verification/Daemon.thy ===== *)
theory Daemon
  imports Pipeline "HOL-Library.Sublist"
begin

text \<open>
  Whole runs of the daemon (\<^verbatim>\<open>main\<close>, \<open>epoll_start\<close> and the handlers of
  \<^verbatim>\<open>uart_start.c\<close>): the state after the start, runs as sequences of handler executions in
  any order, and the abstract machine of two queues and an output that every run refines.
  A handler execution is one event: the handlers of different threads share nothing but the
  two lists, whose operations are critical sections of the lists' own mutex, and the
  counters and consumer nodes, which belong to one thread each.
\<close>

subsection \<open>The start\<close>

text \<open>The heap in which the four structures of the daemon have been allocated in order.\<close>

lemma boot_heap:
  assumes "alloc_ok m 10" and "nalloc m = k"
  shows "\<exists>m1 m2 m3 m4.
     init_singlelinklist True m = Inr (k + 2, m1) \<and> init_singlelinklist True m1 = Inr (k + 4, m2) \<and>
     singlelinklist_init_node 1024 m2 = Inr (k + 5, m3) \<and> singlelinklist_init_node 1024 m3 = Inr (k + 8, m4) \<and>
     chan_ok m4 (k + 2) (k + 1) [] (k + 5) \<and> chan_ok m4 (k + 4) (k + 3) [] (k + 8) \<and>
     chan_fp m4 (k + 2) (k + 1) [] (k + 5) = [k + 2, k + 1, k + 5, k + 6, k + 7] \<and>
     chan_fp m4 (k + 4) (k + 3) [] (k + 8) = [k + 4, k + 3, k + 8, k + 9, k + 10] \<and>
     m_bytes (node_msg m4 (k + 8)) = [] \<and> nalloc m4 = k + 10 \<and> oom m4 = oom m"
proof -
  have al: "alloc_ok m' j" if "oom m' = oom m" "nalloc m' = k + i" "i + j \<le> 10" for m' i j
    unfolding alloc_ok_def
  proof (intro allI impI)
    fix x
    assume "x < j"
    then have "i + x < 10" using that(3) by simp
    with assms(1) have "\<not> oom m (nalloc m + (i + x))" unfolding alloc_ok_def by blast
    then show "\<not> oom m' (nalloc m' + x)" using that assms(2) by (simp add: add.assoc)
  qed
  obtain m1 where m1: "init_singlelinklist True m = Inr (k + 2, m1)" "ll_rep m1 (k + 2) (k + 1) []"
    "nalloc m1 = k + 2" "oom m1 = oom m"
    using init_list_ok [of m] al [of m 0 2] assms(2) by auto
  obtain m2 where m2: "init_singlelinklist True m1 = Inr (k + 4, m2)" "ll_rep m2 (k + 4) (k + 3) []"
    "agree_on {a. a \<le> k + 2} m1 m2" "nalloc m2 = k + 4" "oom m2 = oom m"
  proof -
    have e: "k + 2 + 2 = k + 4" "k + 2 + 1 = k + 3" by simp_all
    have "alloc_ok m1 2" using m1 by (intro al [of m1 2 2]) simp_all
    from init_list_ok [OF this, unfolded m1(3,4) e] that show ?thesis by blast
  qed
  define m3 where "m3 = after_init m2 1024"
  define m4 where "m4 = after_init m3 1024"
  have n3: "nalloc m3 = k + 7" "oom m3 = oom m" and n4: "nalloc m4 = k + 10" "oom m4 = oom m"
    by (simp_all add: m3_def m4_def after_init_def m2)
  have ag3: "agree_on {a. a \<le> k + 4} m2 m3" and ag4: "agree_on {a. a \<le> k + 7} m3 m4"
    unfolding m3_def m4_def by (intro agree_after_init; simp add: m2 n3 [unfolded m3_def])+
  have i3: "singlelinklist_init_node 1024 m2 = Inr (k + 5, m3)"
    and i4: "singlelinklist_init_node 1024 m3 = Inr (k + 8, m4)"
    using init_node_eq [of m2] init_node_eq [of m3] al [of m2 4 3] al [of m3 7 3] m2 n3
    by (simp_all add: m3_def m4_def add.commute [of _ k])
  note a3 = after_init_node [of m2 1024, folded m3_def, unfolded m2(4)]
    and a4 = after_init_node [of m3 1024, folded m4_def, unfolded n3(1)]
  have e: "k + 4 + 1 = k + 5" "k + 4 + 2 = k + 6" "k + 4 + 3 = k + 7"
    "k + 7 + 1 = k + 8" "k + 7 + 2 = k + 9" "k + 7 + 3 = k + 10" by simp_all
  note a3 = a3 [unfolded e] and a4 = a4 [unfolded e]
  have "set (node_addrs m3 (k + 5)) \<subseteq> {a. a \<le> k + 7}" by (simp add: a3)
  note d = agree_on_node [OF ag4 this]
  have ag14: "agree_on {a. a \<le> k + 2} m1 m4"
    using agree_on_trans [OF agree_on_trans [OF m2(3) ag3, of "{a. a \<le> k + 2}"] ag4, of "{a. a \<le> k + 2}"]
    by force
  have ag24: "agree_on {a. a \<le> k + 4} m2 m4"
    using agree_on_trans [OF ag3 ag4, of "{a. a \<le> k + 4}"] by force
  have "ll_rep m4 (k + 2) (k + 1) []"
    by (rule agree_on_ll(3) [OF ag14 _ m1(2)]) (simp add: ll_fp_def)
  moreover have "ll_rep m4 (k + 4) (k + 3) []"
    by (rule agree_on_ll(3) [OF ag24 _ m2(2)]) (simp add: ll_fp_def)
  moreover have f: "chan_fp m4 (k + 2) (k + 1) [] (k + 5) = [k + 2, k + 1, k + 5, k + 6, k + 7]"
     "chan_fp m4 (k + 4) (k + 3) [] (k + 8) = [k + 4, k + 3, k + 8, k + 9, k + 10]"
    by (simp_all add: chan_fp_def ll_fp_def a4 d(1) a3 del: add_Suc_right)
  ultimately show ?thesis
    using m1(1) m2(1) i3 i4 n4 a4 a3 d
    by (intro exI [of _ m1] exI [of _ m2] exI [of _ m3] exI [of _ m4])
      (simp add: chan_ok_def INT_MAX_def)
qed

lemma boot_sys:
  assumes "\<forall>k < 10. \<not> out_of_mem k"
  shows "\<exists>g. boot u p out_of_mem = Inr g \<and> sys_ok g 1 [] 3 [] \<and> outs g = [] \<and>
     recv_msgs g = [] \<and> send_msgs g = [] \<and> G_uartfd g = u \<and> G_pipefd g = p \<and>
     nalloc (heap g) = 10 \<and> oom (heap g) = out_of_mem \<and> epoll_fds g = [u, p]"
proof -
  let ?m = "\<lparr>nodes = (\<lambda>_. None), infs = (\<lambda>_. None), bufs = (\<lambda>_. None), heads = (\<lambda>_. None),
      nalloc = 0, oom = out_of_mem\<rparr>"
  have "alloc_ok ?m 10" "nalloc ?m = 0" using assms by (simp_all add: alloc_ok_def)
  from boot_heap [OF this, unfolded add_0] obtain m1 m2 m3 m4 where
    e: "init_singlelinklist True ?m = Inr (2, m1)" "init_singlelinklist True m1 = Inr (4, m2)"
     "singlelinklist_init_node 1024 m2 = Inr (5, m3)" "singlelinklist_init_node 1024 m3 = Inr (8, m4)"
    and c: "chan_ok m4 2 1 [] 5" "chan_ok m4 4 3 [] 8" "chan_fp m4 2 1 [] 5 = [2, 1, 5, 6, 7]"
     "chan_fp m4 4 3 [] 8 = [4, 3, 8, 9, 10]" "m_bytes (node_msg m4 8) = []" "nalloc m4 = 10" "oom m4 = oom ?m"
    by blast
  let ?g = "\<lparr>heap = m4, G_uartfd = u, G_epollfd = 0, G_pipefd = p, G_sockfd = 0,
        G_recv_linklist = 2, G_send_linklist = 4,
        uart_handle_analy = replicate 64 0, pipe_handle_analy = replicate 128 0,
        epoll_fds = [u, p], dp_node = 5, so_node = 8, outs = []\<rparr>"
  have b: "boot u p out_of_mem = Inr ?g"
    using e by (simp add: boot_def main_lists_def start_threads_def)
  have "sys_ok ?g 1 [] 3 []" using c by (simp add: sys_ok_def)
  then show ?thesis using b c sys_ok_msgs(2,3) [of ?g 1 "[]" 3 "[]"] by (intro exI [of _ ?g]) simp
qed

subsection \<open>Runs\<close>

text \<open>
  An event is one execution of a handler, with what the outside world supplies to it: the
  outcome of its reads, or the time of day.
\<close>

datatype event =
    Pipe_readable "char list option"
  | Uart_readable "nat \<Rightarrow> char list option" bool   \<comment> \<open>with the outcome of \<open>EPOLL_CTL_ADD\<close>\<close>
  | Client_readable int "char list option"
  | Process tm
  | Send

fun handle :: "event \<Rightarrow> globals \<Rightarrow> globals res" where
  "handle (Pipe_readable r) g = pipe_connect_handler r g"
| "handle (Uart_readable rd added) g = uart_connect_handler rd added g"
| "handle (Client_readable fd r) g = sock_recv_handler fd r g"
| "handle (Process now) g = data_process now g"
| "handle Send g = send_out_handler g"

fun run :: "event list \<Rightarrow> globals \<Rightarrow> globals res" where
  "run [] g = Inr g"
| "run (ev # evs) g = bind_ok (handle ev g) (run evs)"

text \<open>The abstract machine: the two queues and the bytes that have left, empty writes left out.\<close>

record view =
  v_recv :: "msg list"
  v_send :: "msg list"
  v_out :: "sent list"

fun payload :: "sent \<Rightarrow> char list" where
  "payload (To_dueros bs) = bs"
| "payload (To_uart bs) = bs"

definition visible :: "sent list \<Rightarrow> sent list" where
  "visible = filter (\<lambda>o'. payload o' \<noteq> [])"

definition view_of :: "globals \<Rightarrow> view" where
  "view_of g = \<lparr>v_recv = recv_msgs g, v_send = send_msgs g, v_out = visible (outs g)\<rparr>"

fun arrival :: "int \<Rightarrow> int \<Rightarrow> event \<Rightarrow> msg list" where
  "arrival uartfd pipefd (Pipe_readable r) = received pipefd (chunk r)"
| "arrival uartfd pipefd (Uart_readable rd added) = received uartfd (uart_input rd)"
| "arrival uartfd pipefd (Client_readable fd r) = received fd (chunk r)"
| "arrival uartfd pipefd _ = []"

fun spec_step :: "int \<Rightarrow> int \<Rightarrow> event \<Rightarrow> view \<Rightarrow> view" where
  "spec_step uartfd pipefd (Process t) v =
     (case v_recv v of [] \<Rightarrow> v
      | x # xs \<Rightarrow> v\<lparr>v_recv := xs, v_send := v_send v @ response uartfd pipefd t x\<rparr>)"
| "spec_step uartfd pipefd Send v =
     (case v_send v of [] \<Rightarrow> v
      | x # xs \<Rightarrow> v\<lparr>v_send := xs, v_out := v_out v @ visible (emitted x)\<rparr>)"
| "spec_step uartfd pipefd ev v = v\<lparr>v_recv := v_recv v @ arrival uartfd pipefd ev\<rparr>"

fun event_ok :: "event \<Rightarrow> bool" where
  "event_ok (Process t) = valid_tm t"
| "event_ok _ = True"

definition mem_for :: "nat \<Rightarrow> globals \<Rightarrow> bool" where
  \<comment> \<open>the next \<open>n\<close> allocations succeed\<close>
  "mem_for n g \<longleftrightarrow> (\<forall>k < nalloc (heap g) + n. \<not> oom (heap g) k)"

definition room_for :: "nat \<Rightarrow> globals \<Rightarrow> bool" where
  \<comment> \<open>the node counters of the lists can be incremented \<open>n\<close> times\<close>
  "room_for n g \<longleftrightarrow> int (length (recv_msgs g) + n) \<le> INT_MAX \<and> int (length (send_msgs g) + n) \<le> INT_MAX"

lemma visible_append [simp]: "visible (xs @ ys) = visible xs @ visible ys"
  by (simp add: visible_def)

lemma visible_nothing: "set e \<subseteq> {To_dueros [], To_uart []} \<Longrightarrow> visible e = []"
  by (auto simp: visible_def filter_empty_conv)

lemma mem_for_alloc: "mem_for n g \<Longrightarrow> k \<le> n \<Longrightarrow> alloc_ok (heap g) k"
  by (auto simp: mem_for_def alloc_ok_def)

lemma response_length: "length (response u p t x) \<le> 1"
  by (simp add: response_def)

lemma received_length: "length (received fd bs) \<le> 1"
  by (simp add: received_def)

text \<open>A handler execution is a step of the abstract machine.\<close>

lemma handle_sys:
  fixes g :: globals
  assumes ok: "sys_ok g sr rs ss sn" and ev: "event_ok ev" and mem: "mem_for 3 g" and room: "room_for 1 g"
  shows "\<exists>g' rs' sn'. handle ev g = Inr g' \<and> sys_ok g' sr rs' ss sn' \<and>
     view_of g' = spec_step (G_uartfd g) (G_pipefd g) ev (view_of g) \<and>
     G_uartfd g' = G_uartfd g \<and> G_pipefd g' = G_pipefd g \<and>
     oom (heap g') = oom (heap g) \<and> nalloc (heap g') \<le> nalloc (heap g) + 3"
proof -
  have al: "alloc_ok (heap g) 3" using mem by (rule mem_for_alloc) simp
  have rr: "int (length rs) < INT_MAX" "int (length sn) < INT_MAX"
    using room sys_ok_msgs(2,3) [OF ok] by (simp_all add: room_for_def)
  have ms: "recv_msgs g = map (node_msg (heap g)) rs" "send_msgs g = map (node_msg (heap g)) sn"
    using sys_ok_msgs [OF ok] by simp_all
  show ?thesis
  proof (cases ev)
    case (Pipe_readable r)
    from pipe_handler_sys [OF ok al rr(1), of r] obtain m' rs' where
      "pipe_connect_handler r g = Inr (g\<lparr>heap := m'\<rparr>)" "sys_ok (g\<lparr>heap := m'\<rparr>) sr rs' ss sn"
      "recv_msgs (g\<lparr>heap := m'\<rparr>) = recv_msgs g @ received (G_pipefd g) (chunk r)"
      "send_msgs (g\<lparr>heap := m'\<rparr>) = send_msgs g" "oom m' = oom (heap g)" "nalloc m' \<le> nalloc (heap g) + 3"
      by blast
    then show ?thesis using Pipe_readable
      by (intro exI [of _ "g\<lparr>heap := m'\<rparr>"] exI [of _ rs'] exI [of _ sn]) (simp add: view_of_def)
  next
    case (Client_readable fd r)
    from sock_handler_sys [OF ok al rr(1), of fd r] obtain m' rs' where
      "sock_recv_handler fd r g = Inr (g\<lparr>heap := m'\<rparr>)" "sys_ok (g\<lparr>heap := m'\<rparr>) sr rs' ss sn"
      "recv_msgs (g\<lparr>heap := m'\<rparr>) = recv_msgs g @ received fd (chunk r)"
      "send_msgs (g\<lparr>heap := m'\<rparr>) = send_msgs g" "oom m' = oom (heap g)" "nalloc m' \<le> nalloc (heap g) + 3"
      by blast
    then show ?thesis using Client_readable
      by (intro exI [of _ "g\<lparr>heap := m'\<rparr>"] exI [of _ rs'] exI [of _ sn]) (simp add: view_of_def)
  next
    case (Uart_readable rd added)
    let ?g = "epoll_add added (G_uartfd g) g"
    have e: "outs ?g = outs g" "G_uartfd ?g = G_uartfd g" "G_pipefd ?g = G_pipefd g"
      by (simp_all add: epoll_add_def)
    from uart_handler_sys [OF ok al rr(1), of rd added] obtain m' rs' where
      "uart_connect_handler rd added g = Inr (?g\<lparr>heap := m'\<rparr>)" "sys_ok (?g\<lparr>heap := m'\<rparr>) sr rs' ss sn"
      "recv_msgs (?g\<lparr>heap := m'\<rparr>) = recv_msgs g @ received (G_uartfd g) (uart_input rd)"
      "send_msgs (?g\<lparr>heap := m'\<rparr>) = send_msgs g" "oom m' = oom (heap g)" "nalloc m' \<le> nalloc (heap g) + 3"
      by blast
    then show ?thesis using Uart_readable e
      by (intro exI [of _ "?g\<lparr>heap := m'\<rparr>"] exI [of _ rs'] exI [of _ sn]) (simp add: view_of_def)
  next
    case (Process t)
    with ev have t: "valid_tm t" by simp
    show ?thesis
    proof (cases rs)
      case Nil
      from data_process_spurious [OF ok [unfolded Nil], of t] obtain m' where
        "data_process t g = Inr (g\<lparr>heap := m'\<rparr>)" "sys_ok (g\<lparr>heap := m'\<rparr>) sr [] ss sn"
        "recv_msgs (g\<lparr>heap := m'\<rparr>) = []" "send_msgs (g\<lparr>heap := m'\<rparr>) = send_msgs g"
        "oom m' = oom (heap g)" "nalloc m' = nalloc (heap g)" by blast
      then show ?thesis using Process Nil ms(1)
        by (intro exI [of _ "g\<lparr>heap := m'\<rparr>"] exI [of _ "[]"] exI [of _ sn]) (simp add: view_of_def)
    next
      case (Cons n rs')
      let ?x = "node_msg (heap g) n"
      from data_process_sys [OF ok [unfolded Cons] t al rr(2)] obtain g1 sn' where
        g1: "data_process t g = Inr g1" "sys_ok g1 sr rs' ss sn'"
        "recv_msgs g = ?x # recv_msgs g1"
        "send_msgs g1 = send_msgs g @ response (G_uartfd g) (G_pipefd g) t ?x"
        "oom (heap g1) = oom (heap g)" "nalloc (heap g1) \<le> nalloc (heap g) + 3"
        "outs g1 = outs g" "G_uartfd g1 = G_uartfd g" "G_pipefd g1 = G_pipefd g" by fastforce
      then show ?thesis using Process
        by (intro exI [of _ g1] exI [of _ rs'] exI [of _ sn']) (simp add: view_of_def)
    qed
  next
    case Send
    show ?thesis
    proof (cases sn)
      case Nil
      from send_out_spurious [OF ok [unfolded Nil]] obtain m' e where
        *: "send_out_handler g = Inr (g\<lparr>heap := m', outs := outs g @ e\<rparr>)"
        "set e \<subseteq> {To_dueros [], To_uart []}" "sys_ok (g\<lparr>heap := m'\<rparr>) sr rs ss []"
        "send_msgs (g\<lparr>heap := m'\<rparr>) = []" "recv_msgs (g\<lparr>heap := m'\<rparr>) = recv_msgs g"
        "oom m' = oom (heap g)" "nalloc m' = nalloc (heap g)" by blast
      let ?g = "g\<lparr>heap := m', outs := outs g @ e\<rparr>"
      have "sys_ok ?g sr rs ss []" "send_msgs ?g = []" "recv_msgs ?g = recv_msgs g"
        using * by (simp_all add: sys_ok_def send_msgs_def recv_msgs_def)
      then show ?thesis using Send Nil ms(2) * visible_nothing [OF *(2)]
        by (intro exI [of _ ?g] exI [of _ rs] exI [of _ "[]"]) (simp add: view_of_def)
    next
      case (Cons n sn')
      let ?x = "node_msg (heap g) n"
      from send_out_sys [OF ok [unfolded Cons]] obtain m' where
        *: "send_out_handler g = Inr (g\<lparr>heap := m', outs := outs g @ emitted ?x\<rparr>)"
        "sys_ok (g\<lparr>heap := m'\<rparr>) sr rs ss sn'" "send_msgs g = ?x # send_msgs (g\<lparr>heap := m'\<rparr>)"
        "recv_msgs (g\<lparr>heap := m'\<rparr>) = recv_msgs g"
        "oom m' = oom (heap g)" "nalloc m' = nalloc (heap g)" by blast
      let ?g = "g\<lparr>heap := m', outs := outs g @ emitted ?x\<rparr>"
      have "sys_ok ?g sr rs ss sn'" "send_msgs ?g = send_msgs (g\<lparr>heap := m'\<rparr>)" "recv_msgs ?g = recv_msgs g"
        using * by (simp_all add: sys_ok_def send_msgs_def recv_msgs_def)
      then show ?thesis using Send *
        by (intro exI [of _ ?g] exI [of _ rs] exI [of _ sn']) (simp add: view_of_def)
    qed
  qed
qed

lemma spec_step_length:
  "length (v_recv (spec_step u p ev v)) \<le> length (v_recv v) + 1"
  "length (v_send (spec_step u p ev v)) \<le> length (v_send v) + 1"
  using received_length response_length
  by (cases ev; auto split: list.split simp: le_diff_conv)+

lemma run_sys:
  assumes "sys_inv g" and "list_all event_ok evs" and "mem_for (3 * length evs) g" and "room_for (length evs) g"
  shows "\<exists>g'. run evs g = Inr g' \<and> sys_inv g' \<and>
     view_of g' = fold (spec_step (G_uartfd g) (G_pipefd g)) evs (view_of g) \<and>
     G_uartfd g' = G_uartfd g \<and> G_pipefd g' = G_pipefd g \<and> oom (heap g') = oom (heap g)"
  using assms
proof (induction evs arbitrary: g)
  case Nil
  then show ?case by simp
next
  case (Cons ev evs)
  obtain sr rs ss sn where ok: "sys_ok g sr rs ss sn" by (rule sys_invE [OF Cons.prems(1)])
  have pre: "event_ok ev" "mem_for 3 g" "room_for 1 g"
    using Cons.prems(2-4) by (auto simp: mem_for_def room_for_def)
  from handle_sys [OF ok pre] obtain g1 rs' sn' where
    g1: "handle ev g = Inr g1" "sys_ok g1 sr rs' ss sn'"
     "view_of g1 = spec_step (G_uartfd g) (G_pipefd g) ev (view_of g)"
     "G_uartfd g1 = G_uartfd g" "G_pipefd g1 = G_pipefd g"
     "oom (heap g1) = oom (heap g)" "nalloc (heap g1) \<le> nalloc (heap g) + 3" by blast
  have "mem_for (3 * length evs) g1"
    using Cons.prems(3) g1(6,7) by (auto simp: mem_for_def)
  moreover have "length (recv_msgs g1) \<le> length (recv_msgs g) + 1"
    "length (send_msgs g1) \<le> length (send_msgs g) + 1"
    using spec_step_length [of "G_uartfd g" "G_pipefd g" ev "view_of g"] g1(3)
    by (simp_all add: view_of_def) (metis view.select_convs(1,2))+
  then have "room_for (length evs) g1" using Cons.prems(4) by (simp add: room_for_def)
  moreover have "sys_inv g1" using g1(2) by (rule sys_ok_msgs(1))
  ultimately obtain g' where
    "run evs g1 = Inr g'" "sys_inv g'"
    "view_of g' = fold (spec_step (G_uartfd g1) (G_pipefd g1)) evs (view_of g1)"
    "G_uartfd g' = G_uartfd g1" "G_pipefd g' = G_pipefd g1" "oom (heap g') = oom (heap g1)"
    using Cons.IH [of g1] Cons.prems(2) by auto
  then show ?case using g1 by (intro exI [of _ g']) simp
qed

subsection \<open>What a run does to the queues\<close>

fun clocks :: "event list \<Rightarrow> tm list" where
  "clocks [] = []"
| "clocks (Process t # evs) = t # clocks evs"
| "clocks (_ # evs) = clocks evs"

definition answers :: "int \<Rightarrow> int \<Rightarrow> tm list \<Rightarrow> msg list \<Rightarrow> msg list" where
  "answers u p ts xs = concat (map2 (response u p) ts xs)"

definition wire :: "msg list \<Rightarrow> sent list" where
  "wire xs = concat (map (\<lambda>x. visible (emitted x)) xs)"

lemma spec_trace:
  fixes v :: view and u p :: int
  defines "v' \<equiv> \<lambda>evs v. fold (spec_step u p) evs v"
  shows "\<exists>handled ts sent'.
     v_recv v @ concat (map (arrival u p) evs) = handled @ v_recv (v' evs v) \<and>
     subseq ts (clocks evs) \<and> length ts = length handled \<and>
     v_send v @ answers u p ts handled = sent' @ v_send (v' evs v) \<and>
     v_out (v' evs v) = v_out v @ wire sent'"
  unfolding v'_def
proof (induction evs arbitrary: v)
  case Nil
  show ?case by (intro exI [of _ "[]"]) (simp add: answers_def wire_def)
next
  case (Cons ev evs)
  let ?v = "spec_step u p ev v" and ?v' = "fold (spec_step u p) (ev # evs) v"
  obtain xs ts ys where IH:
    "v_recv ?v @ concat (map (arrival u p) evs) = xs @ v_recv ?v'"
    "subseq ts (clocks evs)" "length ts = length xs"
    "v_send ?v @ answers u p ts xs = ys @ v_send ?v'"
    "v_out ?v' = v_out ?v @ wire ys"
    using Cons.IH [of ?v] by auto
  consider (arr) "v_recv ?v = v_recv v @ arrival u p ev" "v_send ?v = v_send v" "v_out ?v = v_out v"
       "clocks (ev # evs) = clocks evs"
    | (idle) t where "ev = Process t" "v_recv v = []" "?v = v"
    | (proc) t x r where "ev = Process t" "v_recv v = x # r" "v_recv ?v = r"
        "v_send ?v = v_send v @ response u p t x" "v_out ?v = v_out v"
    | (idle2) "ev = Send" "?v = v"
    | (out) y r where "ev = Send" "v_send v = y # r" "v_send ?v = r" "v_recv ?v = v_recv v"
        "v_out ?v = v_out v @ visible (emitted y)"
    by (cases ev; cases "v_recv v"; cases "v_send v"; force)
  then show ?case
  proof cases
    case arr
    with IH show ?thesis by - (rule exI [of _ xs], rule exI [of _ ts], rule exI [of _ ys], simp)
  next
    case idle
    have "subseq ts (clocks (ev # evs))" using IH(2) idle(1) by (simp add: list_emb_Cons)
    with IH idle show ?thesis
      by - (rule exI [of _ xs], rule exI [of _ ts], rule exI [of _ ys], simp)
  next
    case proc
    have "subseq (t # ts) (clocks (ev # evs))" using IH(2) proc(1) by simp
    with IH proc show ?thesis
      by - (rule exI [of _ "x # xs"], rule exI [of _ "t # ts"], rule exI [of _ ys], simp add: answers_def)
  next
    case idle2
    with IH show ?thesis by - (rule exI [of _ xs], rule exI [of _ ts], rule exI [of _ ys], simp)
  next
    case out
    with IH show ?thesis by - (rule exI [of _ xs], rule exI [of _ ts], rule exI [of _ "y # ys"], simp add: wire_def)
  qed
qed

text \<open>Enough executions of the two consumers empty both queues.\<close>

lemma spec_drain_recv:
  assumes "length (v_recv v) \<le> n"
  shows "fold (spec_step u p) (replicate n (Process t)) v =
     v\<lparr>v_recv := [], v_send := v_send v @ concat (map (response u p t) (v_recv v))\<rparr>"
  using assms
proof (induction n arbitrary: v)
  case 0
  then show ?case by (cases v) simp
next
  case (Suc n)
  show ?case
  proof (cases "v_recv v")
    case Nil
    with Suc.IH [of v] show ?thesis by simp
  next
    case (Cons x xs)
    with Suc.prems show ?thesis
      using Suc.IH [of "v\<lparr>v_recv := xs, v_send := v_send v @ response u p t x\<rparr>"] by simp
  qed
qed

lemma spec_drain_send:
  assumes "length (v_send v) \<le> n"
  shows "fold (spec_step u p) (replicate n Send) v =
     v\<lparr>v_send := [], v_out := v_out v @ wire (v_send v)\<rparr>"
  using assms
proof (induction n arbitrary: v)
  case 0
  then show ?case by (cases v) (simp add: wire_def)
next
  case (Suc n)
  show ?case
  proof (cases "v_send v")
    case Nil
    with Suc.IH [of v] show ?thesis by simp
  next
    case (Cons x xs)
    with Suc.prems show ?thesis
      using Suc.IH [of "v\<lparr>v_send := xs, v_out := v_out v @ visible (emitted x)\<rparr>"] by (simp add: wire_def)
  qed
qed

subsection \<open>The time message\<close>

text \<open>
  A fixed-width field of a message: \<open>len\<close> characters from position \<open>pos\<close>, read as a number.
\<close>

definition field :: "nat \<Rightarrow> nat \<Rightarrow> char list \<Rightarrow> nat" where
  "field pos len bs = undec (take len (drop pos bs))"

lemma seven_fields:
  fixes h a b c d e f i z :: "char list"
  assumes "length h = 8" and "length a = 2" and "length b = 2" and "length c = 2" and "length d = 2"
    and "length e = 1" and "length f = 2" and "length i = 4"
  defines "m \<equiv> h @ a @ b @ c @ d @ e @ f @ i @ z"
  shows "take 2 (drop 8 m) = a" "take 2 (drop 10 m) = b" "take 2 (drop 12 m) = c"
    "take 2 (drop 14 m) = d" "take 1 (drop 16 m) = e" "take 2 (drop 17 m) = f"
    "take 4 (drop 19 m) = i" "take 8 m = h" "drop 23 m = z"
  unfolding m_def using assms(1-8) by simp_all

lemma time_fields:
  assumes t: "valid_tm t"
  shows "field 8 2 (m_bytes (time_answer t)) = nat (tm_sec t)"
    and "field 10 2 (m_bytes (time_answer t)) = nat (tm_min t)"
    and "field 12 2 (m_bytes (time_answer t)) = nat (tm_hour t)"
    and "field 14 2 (m_bytes (time_answer t)) = nat (tm_mday t)"
    and "field 16 1 (m_bytes (time_answer t)) = nat (tm_wday t)"
    and "field 17 2 (m_bytes (time_answer t)) = nat (tm_mon t + 1)"
    and "field 19 4 (m_bytes (time_answer t)) = nat (tm_year t + 1900)"
    and "take 8 (m_bytes (time_answer t)) = ''AXX+TIM+''"
    and "drop 23 (m_bytes (time_answer t)) = ''&''"
proof -
  have two: "length (fmt_0d 2 i) = 2" "undec (fmt_0d 2 i) = nat i" if "0 \<le> i" "i < 100" for i
    using fmt_0d_width [of i 1] that by (simp_all add: numeral_2_eq_2)
  have yr: "length (fmt_wd 4 (tm_year t + 1900)) = 4"
      "undec (fmt_wd 4 (tm_year t + 1900)) = nat (tm_year t + 1900)"
    using fmt_wd_exact [of 3 "tm_year t + 1900"] t
    by (simp_all add: valid_tm_def nat_less_iff le_nat_iff)
  have wd: "length (fmt_d (tm_wday t)) = 1" "undec (fmt_d (tm_wday t)) = nat (tm_wday t)"
    using fmt_d_digit [of "tm_wday t"] t by (simp_all add: valid_tm_def)
  define h where "h = ''AXX+TIM+''"
  have h: "length h = 8" by (simp add: h_def)
  have m: "m_bytes (time_answer t) = h @ fmt_0d 2 (tm_sec t) @ fmt_0d 2 (tm_min t) @
      fmt_0d 2 (tm_hour t) @ fmt_0d 2 (tm_mday t) @ fmt_d (tm_wday t) @ fmt_0d 2 (tm_mon t + 1) @
      fmt_wd 4 (tm_year t + 1900) @ ''&''"
    by (simp add: time_answer_def time_text_def h_def)
  have r: "0 \<le> tm_sec t" "tm_sec t < 100" "0 \<le> tm_min t" "tm_min t < 100" "0 \<le> tm_hour t"
    "tm_hour t < 100" "0 \<le> tm_mday t" "tm_mday t < 100" "0 \<le> tm_mon t + 1" "tm_mon t + 1 < 100"
    using t by (simp_all add: valid_tm_def)
  note f = seven_fields [OF h two(1) [OF r(1,2)] two(1) [OF r(3,4)] two(1) [OF r(5,6)]
      two(1) [OF r(7,8)] wd(1) two(1) [OF r(9,10)] yr(1), of "''&''", folded m]
  note u = two(2) [OF r(1,2)] two(2) [OF r(3,4)] two(2) [OF r(5,6)] two(2) [OF r(7,8)]
    wd(2) two(2) [OF r(9,10)] yr(2)
  show "field 8 2 (m_bytes (time_answer t)) = nat (tm_sec t)"
    "field 10 2 (m_bytes (time_answer t)) = nat (tm_min t)"
    "field 12 2 (m_bytes (time_answer t)) = nat (tm_hour t)"
    "field 14 2 (m_bytes (time_answer t)) = nat (tm_mday t)"
    "field 16 1 (m_bytes (time_answer t)) = nat (tm_wday t)"
    "field 17 2 (m_bytes (time_answer t)) = nat (tm_mon t + 1)"
    "field 19 4 (m_bytes (time_answer t)) = nat (tm_year t + 1900)"
    unfolding field_def f u by (rule refl)+
  show "take 8 (m_bytes (time_answer t)) = ''AXX+TIM+''" "drop 23 (m_bytes (time_answer t)) = ''&''"
    unfolding f h_def by (rule refl)+
qed

lemma answers_length: "length (concat (map (response u p t) xs)) \<le> length xs"
proof (induction xs)
  case (Cons x xs)
  with response_length [of u p t x] show ?case by simp
qed simp

lemma drain_sys:
  assumes inv: "sys_inv g" and t: "valid_tm t"
    and n: "length (recv_msgs g) \<le> n" "length (recv_msgs g) + length (send_msgs g) \<le> k"
    and mem: "mem_for (3 * (n + k)) g" and room: "room_for (n + k) g"
  shows "\<exists>g'. run (replicate n (Process t) @ replicate k Send) g = Inr g' \<and> sys_inv g' \<and>
     recv_msgs g' = [] \<and> send_msgs g' = [] \<and>
     visible (outs g') = visible (outs g) @
       wire (send_msgs g @ concat (map (response (G_uartfd g) (G_pipefd g) t) (recv_msgs g)))"
proof -
  let ?evs = "replicate n (Process t) @ replicate k Send"
  let ?u = "G_uartfd g" and ?p = "G_pipefd g"
  let ?ys = "concat (map (response ?u ?p t) (recv_msgs g))"
  have "length ?ys \<le> length (recv_msgs g)" by (rule answers_length)
  then have len: "length (send_msgs g @ ?ys) \<le> k" using n(2) by simp
  have e: "list_all event_ok ?evs" using t by (auto simp: list_all_iff)
  have "length ?evs = n + k" by simp
  with run_sys [OF inv e] mem room obtain g' where
    g': "run ?evs g = Inr g'" "sys_inv g'" "view_of g' = fold (spec_step ?u ?p) ?evs (view_of g)"
    by auto
  have "fold (spec_step ?u ?p) ?evs (view_of g) =
     \<lparr>v_recv = [], v_send = [], v_out = visible (outs g) @ wire (send_msgs g @ ?ys)\<rparr>"
    using n(1) len spec_drain_send [of "\<lparr>v_recv = [], v_send = send_msgs g @ ?ys, v_out = visible (outs g)\<rparr>" k ?u ?p]
    by (simp add: spec_drain_recv view_of_def del: fold_replicate)
  with g' show ?thesis by (simp add: view_of_def)
qed

end
