(* ===== verification/Serial_Port.thy ===== *)
theory Serial_Port
  imports Prelude
begin

unbundle bit_operations_syntax

text \<open>
  \<open>set_opt\<close> and \<open>open_port\<close> of \<^verbatim>\<open>uart_start.c\<close>: the settings of the serial line.  The
  values of the flags are those of the system's \<open>termios.h\<close>, which is not part of the
  program: they are a parameter, and what POSIX says of them is \<open>distinct_flags\<close>.  The two
  speeds are fields of their own, as \<open>cfsetispeed\<close> and \<open>cfsetospeed\<close> hide where they are kept.
\<close>

subsection \<open>Flags and settings\<close>

record termios_flags =
  CLOCAL :: "32 word"
  CREAD :: "32 word"
  CSIZE :: "32 word"
  CS7 :: "32 word"
  CS8 :: "32 word"
  PARENB :: "32 word"
  PARODD :: "32 word"
  CSTOPB :: "32 word"
  INPCK :: "32 word"
  ISTRIP :: "32 word"

datatype baud = B2400 | B4800 | B9600 | B115200

record termios =
  c_iflag :: "32 word"
  c_cflag :: "32 word"
  c_ispeed :: "baud option"    \<comment> \<open>\<open>None\<close> after \<open>bzero\<close>\<close>
  c_ospeed :: "baud option"
  vtime :: nat
  vmin :: nat

subsection \<open>Operations\<close>

definition set_bits :: "termios_flags \<Rightarrow> int \<Rightarrow> termios \<Rightarrow> termios" where
  "set_bits k nBits t =
     (if nBits = 7 then t\<lparr>c_cflag := c_cflag t OR CS7 k\<rparr>
      else if nBits = 8 then t\<lparr>c_cflag := c_cflag t OR CS8 k\<rparr>
      else t)"

definition set_parity :: "termios_flags \<Rightarrow> char \<Rightarrow> termios \<Rightarrow> termios" where
  "set_parity k nEvent t =
     (if nEvent = CHR ''O'' then
        t\<lparr>c_cflag := (c_cflag t OR PARENB k) OR PARODD k, c_iflag := c_iflag t OR (INPCK k OR ISTRIP k)\<rparr>
      else if nEvent = CHR ''E'' then
        t\<lparr>c_iflag := c_iflag t OR (INPCK k OR ISTRIP k), c_cflag := (c_cflag t OR PARENB k) AND NOT (PARODD k)\<rparr>
      else if nEvent = CHR ''N'' then t\<lparr>c_cflag := c_cflag t AND NOT (PARENB k)\<rparr>
      else t)"

definition baud_of :: "int \<Rightarrow> baud" where
  "baud_of nSpeed =
     (if nSpeed = 2400 then B2400 else if nSpeed = 4800 then B4800
      else if nSpeed = 9600 then B9600 else if nSpeed = 115200 then B115200 else B9600)"

definition set_speed :: "int \<Rightarrow> termios \<Rightarrow> termios" where
  "set_speed nSpeed t = t\<lparr>c_ispeed := Some (baud_of nSpeed), c_ospeed := Some (baud_of nSpeed)\<rparr>"

definition set_stop :: "termios_flags \<Rightarrow> int \<Rightarrow> termios \<Rightarrow> termios" where
  "set_stop k nStop t =
     (if nStop = 1 then t\<lparr>c_cflag := c_cflag t AND NOT (CSTOPB k)\<rparr>
      else if nStop = 2 then t\<lparr>c_cflag := c_cflag t OR CSTOPB k\<rparr>
      else t)"

definition new_settings :: "termios_flags \<Rightarrow> int \<Rightarrow> int \<Rightarrow> char \<Rightarrow> int \<Rightarrow> termios" where
  "new_settings k nSpeed nBits nEvent nStop =
     (set_stop k nStop (set_speed nSpeed (set_parity k nEvent (set_bits k nBits
        \<lparr>c_iflag = 0, c_cflag = (0 OR (CLOCAL k OR CREAD k)) AND NOT (CSIZE k),
         c_ispeed = None, c_ospeed = None, vtime = 0, vmin = 0\<rparr>))))\<lparr>vtime := 0, vmin := 1\<rparr>"

definition set_opt ::
    "termios_flags \<Rightarrow> bool \<Rightarrow> bool \<Rightarrow> int \<Rightarrow> int \<Rightarrow> char \<Rightarrow> int \<Rightarrow> int \<times> termios option" where
  \<comment> \<open>the outcomes of \<open>tcgetattr\<close> and \<open>tcsetattr\<close>; the result and the settings that took effect\<close>
  "set_opt k get_ok set_ok nSpeed nBits nEvent nStop =
     (if \<not> get_ok then (-1, None)
      else if \<not> set_ok then (-1, None)
      else (0, Some (new_settings k nSpeed nBits nEvent nStop)))"

definition open_port :: "termios_flags \<Rightarrow> int \<Rightarrow> bool \<Rightarrow> bool \<Rightarrow> int \<times> termios option" where
  "open_port k fd get_ok set_ok =
     (if fd = -1 then (-1, None)
      else (fd, snd (set_opt k get_ok set_ok 115200 8 (CHR ''N'') 1)))"

subsection \<open>Reading the settings back\<close>

definition distinct_flags :: "termios_flags \<Rightarrow> bool" where
  \<comment> \<open>the character sizes lie in their mask; the mask and the other flags have no bit in common\<close>
  "distinct_flags k \<longleftrightarrow>
     CS7 k AND CSIZE k = CS7 k \<and> CS8 k AND CSIZE k = CS8 k \<and>
     PARENB k \<noteq> 0 \<and> PARODD k \<noteq> 0 \<and> CSTOPB k \<noteq> 0 \<and>
     (let fs = [CLOCAL k, CREAD k, CSIZE k, PARENB k, PARODD k, CSTOPB k] in
      \<forall>i < 6. \<forall>j < 6. i \<noteq> j \<longrightarrow> fs ! i AND fs ! j = 0)"

lemma clear_other:
  fixes x m n :: "32 word"
  assumes "m AND n = 0"
  shows "(x AND NOT m) AND n = x AND n"
proof (rule bit_word_eqI)
  fix i
  have "\<not> (bit m i \<and> bit n i)" using assms by (metis bit_0_eq bit_and_iff bot_apply bot_bool_def)
  then show "bit ((x AND NOT m) AND n) i \<longleftrightarrow> bit (x AND n) i" if "i < LENGTH(32)"
    using that by (auto simp: bit_and_iff bit_not_iff)
qed

lemma clear_same: "((x :: 32 word) AND NOT m) AND m = 0"
  by (rule bit_word_eqI) (auto simp: bit_and_iff bit_not_iff)

lemma part_of_mask:
  fixes c m n :: "32 word"
  assumes "c AND m = c" and "m AND n = 0"
  shows "c AND n = 0"
  using assms by (metis and.assoc and_zero_eq)

lemma flag_facts:
  assumes "distinct_flags k"
  shows "CS7 k AND CSIZE k = CS7 k" "CS8 k AND CSIZE k = CS8 k"
    and "CLOCAL k AND CSIZE k = 0" "CREAD k AND CSIZE k = 0" "PARENB k AND CSIZE k = 0" "PARODD k AND CSIZE k = 0" "CSTOPB k AND CSIZE k = 0"
    and "CLOCAL k AND PARENB k = 0" "CREAD k AND PARENB k = 0" "CSIZE k AND PARENB k = 0" "PARODD k AND PARENB k = 0" "CSTOPB k AND PARENB k = 0"
    and "CLOCAL k AND PARODD k = 0" "CREAD k AND PARODD k = 0" "CSIZE k AND PARODD k = 0" "PARENB k AND PARODD k = 0" "CSTOPB k AND PARODD k = 0"
    and "CLOCAL k AND CSTOPB k = 0" "CREAD k AND CSTOPB k = 0" "CSIZE k AND CSTOPB k = 0" "PARENB k AND CSTOPB k = 0" "PARODD k AND CSTOPB k = 0"
    and "PARENB k \<noteq> 0" "PARODD k \<noteq> 0" "CSTOPB k \<noteq> 0"
proof -
  let ?fs = "[CLOCAL k, CREAD k, CSIZE k, PARENB k, PARODD k, CSTOPB k]"
  have d: "?fs ! i AND ?fs ! j = 0" if "i < 6" "j < 6" "i \<noteq> j" for i j
    using assms that unfolding distinct_flags_def Let_def by blast
  show "CS7 k AND CSIZE k = CS7 k" "CS8 k AND CSIZE k = CS8 k" "PARENB k \<noteq> 0" "PARODD k \<noteq> 0" "CSTOPB k \<noteq> 0"
    using assms by (simp_all add: distinct_flags_def)
  show "CLOCAL k AND CSIZE k = 0" "CREAD k AND CSIZE k = 0" "PARENB k AND CSIZE k = 0" "PARODD k AND CSIZE k = 0" "CSTOPB k AND CSIZE k = 0"
    using d [of 0 2] d [of 1 2] d [of 3 2] d [of 4 2] d [of 5 2] by (simp_all add: numeral_eq_Suc)
  show "CLOCAL k AND PARENB k = 0" "CREAD k AND PARENB k = 0" "CSIZE k AND PARENB k = 0" "PARODD k AND PARENB k = 0" "CSTOPB k AND PARENB k = 0"
    using d [of 0 3] d [of 1 3] d [of 2 3] d [of 4 3] d [of 5 3] by (simp_all add: numeral_eq_Suc)
  show "CLOCAL k AND PARODD k = 0" "CREAD k AND PARODD k = 0" "CSIZE k AND PARODD k = 0" "PARENB k AND PARODD k = 0" "CSTOPB k AND PARODD k = 0"
    using d [of 0 4] d [of 1 4] d [of 2 4] d [of 3 4] d [of 5 4] by (simp_all add: numeral_eq_Suc)
  show "CLOCAL k AND CSTOPB k = 0" "CREAD k AND CSTOPB k = 0" "CSIZE k AND CSTOPB k = 0" "PARENB k AND CSTOPB k = 0" "PARODD k AND CSTOPB k = 0"
    using d [of 0 5] d [of 1 5] d [of 2 5] d [of 3 5] d [of 4 5] by (simp_all add: numeral_eq_Suc)
qed

text \<open>
  What each part of the settings does to a field of the control flags that it does not set,
  and to the one that it sets.
\<close>

lemmas flag_parts = new_settings_def set_bits_def set_parity_def set_speed_def set_stop_def

definition initial_cflag :: "termios_flags \<Rightarrow> 32 word" where
  "initial_cflag k = (0 OR (CLOCAL k OR CREAD k)) AND NOT (CSIZE k)"

text \<open>C35: the settings can be read back: for a supported character size, parity and number of
  stop bits, the control flags hold exactly these, the speed is the one asked for or 9600,
  and a read returns as soon as there is one byte.\<close>

theorem settings_read_back:
  assumes "distinct_flags k" and "nBits \<in> {7, 8}" and "nEvent \<in> {CHR ''O'', CHR ''E'', CHR ''N''}" and "nStop \<in> {1, 2}"
  shows "\<exists>t. set_opt k True True nSpeed nBits nEvent nStop = (0, Some t) \<and>
     c_cflag t AND CSIZE k = (if nBits = 7 then CS7 k else CS8 k) \<and>
     (c_cflag t AND PARENB k \<noteq> 0 \<longleftrightarrow> nEvent \<noteq> CHR ''N'') \<and>
     (c_cflag t AND PARODD k \<noteq> 0 \<longleftrightarrow> nEvent = CHR ''O'') \<and>
     (c_cflag t AND CSTOPB k \<noteq> 0 \<longleftrightarrow> nStop = 2) \<and>
     c_iflag t = (if nEvent = CHR ''N'' then 0 else INPCK k OR ISTRIP k) \<and>
     c_ispeed t = Some (baud_of nSpeed) \<and> c_ospeed t = Some (baud_of nSpeed) \<and> vtime t = 0 \<and> vmin t = 1"
proof -
  note F = flag_facts [OF assms(1)]
  note C = part_of_mask [OF F(1)] part_of_mask [OF F(2)]
  note S = clear_other clear_same bit.conj_disj_distrib2 F C
  let ?t = "new_settings k nSpeed nBits nEvent nStop"
  have "c_cflag ?t AND CSIZE k = (if nBits = 7 then CS7 k else CS8 k)"
    using assms(2-4) by (auto simp: flag_parts S)
  moreover have "c_cflag ?t AND PARENB k \<noteq> 0 \<longleftrightarrow> nEvent \<noteq> CHR ''N''"
    using assms(2-4) by (auto simp: flag_parts S)
  moreover have "c_cflag ?t AND PARODD k \<noteq> 0 \<longleftrightarrow> nEvent = CHR ''O''"
    using assms(2-4) by (auto simp: flag_parts S)
  moreover have "c_cflag ?t AND CSTOPB k \<noteq> 0 \<longleftrightarrow> nStop = 2"
    using assms(2-4) by (auto simp: flag_parts S)
  moreover have "c_iflag ?t = (if nEvent = CHR ''N'' then 0 else INPCK k OR ISTRIP k)"
    using assms(3,4) by (auto simp: flag_parts)
  moreover have "c_ispeed ?t = Some (baud_of nSpeed) \<and> c_ospeed ?t = Some (baud_of nSpeed) \<and> vtime ?t = 0 \<and> vmin ?t = 1"
    using assms(4) by (auto simp: flag_parts)
  ultimately show ?thesis by (intro exI [of _ ?t]) (simp add: set_opt_def)
qed

definition linux_flags :: termios_flags where
  \<comment> \<open>the values on Linux\<close>
  "linux_flags = \<lparr>CLOCAL = 2048, CREAD = 128, CSIZE = 48, CS7 = 32, CS8 = 48, PARENB = 256, PARODD = 512,
     CSTOPB = 64, INPCK = 16, ISTRIP = 32\<rparr>"

lemma all_below_six: "(\<forall>i < 6 :: nat. P i) \<longleftrightarrow> P 0 \<and> P 1 \<and> P 2 \<and> P 3 \<and> P 4 \<and> P 5"
proof -
  have "(\<forall>i < 6 :: nat. P i) \<longleftrightarrow> (\<forall>i \<in> {..< 6}. P i)" by blast
  also have "{..< 6 :: nat} = {5, 4, 3, 2, 1, 0}" by (simp add: lessThan_nat_numeral lessThan_Suc)
  finally show ?thesis by simp blast
qed

lemma linux_flags_distinct: "distinct_flags linux_flags"
  by (simp add: distinct_flags_def linux_flags_def Let_def all_below_six)

theorem settings_read_back_witness:
  "\<exists>t. set_opt linux_flags True True 115200 8 (CHR ''N'') 1 = (0, Some t) \<and> c_ospeed t = Some B115200"
  using settings_read_back [OF linux_flags_distinct, of 8 "CHR ''N''" 1 115200] by (auto simp: baud_of_def)

text \<open>\<open>open_port\<close> ignores the result of \<open>set_opt\<close>: it returns the descriptor all the same.\<close>

lemma open_port_ignores_settings:
  "open_port k fd get_ok set_ok =
     (if fd = -1 then (-1, None)
      else (fd, if get_ok \<and> set_ok then Some (new_settings k 115200 8 (CHR ''N'') 1) else None))"
  by (simp add: open_port_def set_opt_def)

end
