(* ===== verification/Thread_Pool.thy ===== *)
theory Thread_Pool
  imports Prelude
begin

text \<open>
  \<^verbatim>\<open>thread_pool.c\<close>: a bounded queue of jobs served by worker threads.  A job is a callback
  and its argument, both numbers here.  All accesses to the pool happen with its mutex held,
  so each passage from \<open>pthread_mutex_lock\<close> to the unlock, or to the \<open>pthread_cond_wait\<close> that
  releases the mutex, is one function; what it says to the condition variables is part of
  its result.  Waiting and waking up are the subject of \<^verbatim>\<open>Pool_Threads\<close>.
\<close>

subsection \<open>State\<close>

record job =
  callback_function :: nat
  arg :: nat
  jnext :: addr

record threadpool =
  thread_num :: int
  queue_max_num :: int
  jhead :: addr
  jtail :: addr
  pmutex :: mutex
  conds :: "bool list"    \<comment> \<open>\<open>queue_empty\<close>, \<open>queue_not_empty\<close>, \<open>queue_not_full\<close>: which are initialised\<close>
  queue_cur_num :: int
  queue_close :: int
  pool_close :: int

text \<open>
  The pool and the array of its threads (\<open>None\<close> once freed), the jobs on the heap, and the allocator
  of jobs.  An entry of the array says whether \<open>pthread_create\<close> has filled it.
\<close>

record pstate =
  pool :: "threadpool option"
  pthreads :: "bool list option"
  jobs :: "addr \<Rightarrow> job option"
  jalloc :: nat
  joom :: "nat \<Rightarrow> bool"

definition the_pool :: "pstate \<Rightarrow> threadpool res" where
  "the_pool s = (case pool s of None \<Rightarrow> Inl Bad_pointer | Some p \<Rightarrow> Inr p)"

definition set_pool :: "threadpool \<Rightarrow> pstate \<Rightarrow> pstate" where
  "set_pool p s = s\<lparr>pool := Some p\<rparr>"

definition lock_pool :: "pstate \<Rightarrow> pstate res" where
  "lock_pool s =
     bind_ok (the_pool s) (\<lambda>p. bind_ok (mutex_lock (pmutex p)) (\<lambda>l.
       Inr (set_pool (p\<lparr>pmutex := l\<rparr>) s)))"

definition unlock_pool :: "pstate \<Rightarrow> pstate res" where
  "unlock_pool s =
     bind_ok (the_pool s) (\<lambda>p. bind_ok (mutex_unlock (pmutex p)) (\<lambda>l.
       Inr (set_pool (p\<lparr>pmutex := l\<rparr>) s)))"

definition upd_job :: "addr \<Rightarrow> (job \<Rightarrow> job) \<Rightarrow> pstate \<Rightarrow> pstate res" where
  "upd_job a f s = bind_ok (deref (jobs s) a) (\<lambda>j. Inr (s\<lparr>jobs := (jobs s)(a \<mapsto> f j)\<rparr>))"

definition free_job :: "addr \<Rightarrow> pstate \<Rightarrow> pstate res" where
  "free_job a s = bind_ok (deref (jobs s) a) (\<lambda>_. Inr (s\<lparr>jobs := (jobs s)(a := None)\<rparr>))"

subsection \<open>Creation\<close>

datatype pool_block = Pool_struct | Pool_threads

text \<open>
  The outcomes of the six calls whose results are tested are arguments, and so is that of
  \<open>pthread_create\<close>, which is not.  The result is the pool, the array of its threads, and the blocks
  that are still allocated.
\<close>

definition threadpool_init ::
    "bool \<Rightarrow> bool \<Rightarrow> bool \<Rightarrow> bool \<Rightarrow> bool \<Rightarrow> bool \<Rightarrow> (nat \<Rightarrow> bool) \<Rightarrow> int \<Rightarrow> int \<Rightarrow>
     threadpool option \<times> bool list option \<times> pool_block list" where
  "threadpool_init malloc_ok mutex_ok cond1_ok cond2_ok cond3_ok threads_ok creates num max_num =
     (if \<not> malloc_ok then (None, None, [])
      else if \<not> mutex_ok then (None, None, [Pool_struct])
      else if \<not> cond1_ok then (None, None, [Pool_struct])
      else if \<not> cond2_ok then (None, None, [Pool_struct])
      else if \<not> cond3_ok then (None, None, [Pool_struct])
      else if \<not> threads_ok then (None, None, [Pool_struct])
      else (Some \<lparr>thread_num = num, queue_max_num = max_num, jhead = 0, jtail = 0,
                  pmutex = Unlocked, conds = [True, True, True],
                  queue_cur_num = 0, queue_close = 0, pool_close = 0\<rparr>,
            Some (map creates [0..<nat num]), [Pool_struct, Pool_threads]))"

definition init_state :: "threadpool option \<times> bool list option \<times> pool_block list \<Rightarrow> (nat \<Rightarrow> bool) \<Rightarrow> pstate" where
  "init_state r out_of_mem =
     \<lparr>pool = fst r, pthreads = fst (snd r), jobs = (\<lambda>_. None), jalloc = 0, joom = out_of_mem\<rparr>"

subsection \<open>Adding a job\<close>

datatype add_outcome =
    Add_wait             \<comment> \<open>the caller is in \<open>pthread_cond_wait(&queue_not_full)\<close>\<close>
  | Add_ret int bool     \<comment> \<open>returned; whether \<open>queue_not_empty\<close> was broadcast\<close>

definition enqueue_job :: "addr \<Rightarrow> pstate \<Rightarrow> (bool \<times> pstate) res" where
  "enqueue_job pjob s =
     bind_ok (the_pool s) (\<lambda>p.
     if jhead p = 0 then Inr (True, set_pool (p\<lparr>jhead := pjob, jtail := pjob\<rparr>) s)
     else
       bind_ok (upd_job (jtail p) (\<lambda>j. j\<lparr>jnext := pjob\<rparr>) s) (\<lambda>s1.
         Inr (False, set_pool (p\<lparr>jtail := pjob\<rparr>) s1)))"

definition threadpool_add_job :: "nat \<Rightarrow> nat \<Rightarrow> pstate \<Rightarrow> (add_outcome \<times> pstate) res" where
  "threadpool_add_job callback a s =
     bind_ok (lock_pool s) (\<lambda>s1.
     bind_ok (the_pool s1) (\<lambda>p.
     if queue_cur_num p = queue_max_num p \<and> \<not> (queue_close p \<noteq> 0 \<or> pool_close p \<noteq> 0) then
       bind_ok (unlock_pool s1) (\<lambda>s2. Inr (Add_wait, s2))
     else if queue_close p \<noteq> 0 \<or> pool_close p \<noteq> 0 then
       bind_ok (unlock_pool s1) (\<lambda>s2. Inr (Add_ret (-1) False, s2))
     else if joom s1 (jalloc s1) then
       bind_ok (unlock_pool (s1\<lparr>jalloc := Suc (jalloc s1)\<rparr>)) (\<lambda>s2. Inr (Add_ret (-1) False, s2))
     else
       (let pjob = Suc (jalloc s1) in
        bind_ok (enqueue_job pjob
          (s1\<lparr>jalloc := pjob,
              jobs := (jobs s1)(pjob \<mapsto> \<lparr>callback_function = callback, arg = a, jnext = 0\<rparr>)\<rparr>))
          (\<lambda>(woke, s2).
        bind_ok (the_pool s2) (\<lambda>p2.
        bind_ok (int_inc (queue_cur_num p2)) (\<lambda>n.
        bind_ok (unlock_pool (set_pool (p2\<lparr>queue_cur_num := n\<rparr>) s2)) (\<lambda>s3.
          Inr (Add_ret 0 woke, s3))))))))"

subsection \<open>A worker\<close>

datatype take_outcome =
    Take_wait                 \<comment> \<open>the worker is in \<open>pthread_cond_wait(&queue_not_empty)\<close>\<close>
  | Take_exit                 \<comment> \<open>the pool is closed: the worker ends\<close>
  | Take_job addr bool bool   \<comment> \<open>the job taken; \<open>queue_empty\<close> signalled, \<open>queue_not_full\<close> broadcast\<close>

definition dequeue_job :: "pstate \<Rightarrow> (addr \<times> pstate) res" where
  "dequeue_job s =
     bind_ok (the_pool s) (\<lambda>p.
     (let n = queue_cur_num p - 1; pjob = jhead p in
      if n = 0 then Inr (pjob, set_pool (p\<lparr>queue_cur_num := n, jhead := 0, jtail := 0\<rparr>) s)
      else
        bind_ok (deref (jobs s) pjob) (\<lambda>j.
          Inr (pjob, set_pool (p\<lparr>queue_cur_num := n, jhead := jnext j\<rparr>) s))))"

definition threadpool_function :: "pstate \<Rightarrow> (take_outcome \<times> pstate) res" where
  \<comment> \<open>one iteration, up to the call of the callback\<close>
  "threadpool_function s =
     bind_ok (lock_pool s) (\<lambda>s1.
     bind_ok (the_pool s1) (\<lambda>p.
     if queue_cur_num p = 0 \<and> pool_close p = 0 then
       bind_ok (unlock_pool s1) (\<lambda>s2. Inr (Take_wait, s2))
     else if pool_close p \<noteq> 0 then
       bind_ok (unlock_pool s1) (\<lambda>s2. Inr (Take_exit, s2))
     else
       bind_ok (dequeue_job s1) (\<lambda>(pjob, s2).
       bind_ok (the_pool s2) (\<lambda>p2.
       bind_ok (unlock_pool s2) (\<lambda>s3.
         Inr (Take_job pjob (queue_cur_num p2 = 0)
                (queue_cur_num p2 = queue_max_num p2 - 1), s3))))))"

definition run_job :: "addr \<Rightarrow> pstate \<Rightarrow> ((nat \<times> nat) \<times> pstate) res" where
  \<comment> \<open>the call of the callback and the release of the job\<close>
  "run_job pjob s =
     bind_ok (deref (jobs s) pjob) (\<lambda>j.
     bind_ok (free_job pjob s) (\<lambda>s1.
       Inr ((callback_function j, arg j), s1)))"

subsection \<open>Destruction\<close>

datatype destroy_outcome =
    Destroy_ret int       \<comment> \<open>returned\<close>
  | Destroy_wait          \<comment> \<open>the caller is in \<open>pthread_cond_wait(&queue_empty)\<close>\<close>
  | Destroy_closed        \<comment> \<open>\<open>pool_close\<close> is set and the mutex released\<close>

definition destroy_drain :: "pstate \<Rightarrow> (destroy_outcome \<times> pstate) res" where
  \<comment> \<open>the loop that waits for an empty queue, with the mutex held on entry\<close>
  "destroy_drain s =
     bind_ok (the_pool s) (\<lambda>p.
     if queue_cur_num p \<noteq> 0 then bind_ok (unlock_pool s) (\<lambda>s1. Inr (Destroy_wait, s1))
     else bind_ok (unlock_pool (set_pool (p\<lparr>pool_close := 1\<rparr>) s)) (\<lambda>s1. Inr (Destroy_closed, s1)))"

definition threadpool_destroy :: "pstate \<Rightarrow> (destroy_outcome \<times> pstate) res" where
  "threadpool_destroy s =
     bind_ok (lock_pool s) (\<lambda>s1.
     bind_ok (the_pool s1) (\<lambda>p.
     if queue_close p \<noteq> 0 \<or> pool_close p \<noteq> 0 then
       bind_ok (unlock_pool s1) (\<lambda>s2. Inr (Destroy_ret (-1), s2))
     else destroy_drain (set_pool (p\<lparr>queue_close := 1\<rparr>) s1)))"

definition destroy_woken :: "pstate \<Rightarrow> (destroy_outcome \<times> pstate) res" where
  \<comment> \<open>after the wait the mutex is held again and the loop condition is tested\<close>
  "destroy_woken s = bind_ok (lock_pool s) destroy_drain"

text \<open>
  The loop over the jobs that are left frees a block in each round, so it makes at most as
  many rounds as jobs have ever been allocated, or reaches a block that is already free.
\<close>

fun free_jobs :: "nat \<Rightarrow> pstate \<Rightarrow> pstate res" where
  "free_jobs 0 s = Inr s"
| "free_jobs (Suc k) s =
     bind_ok (the_pool s) (\<lambda>p.
     if jhead p = 0 then Inr s
     else
       bind_ok (deref (jobs s) (jhead p)) (\<lambda>j.
       bind_ok (free_job (jhead p) (set_pool (p\<lparr>jhead := jnext j\<rparr>) s)) (\<lambda>s1.
         free_jobs k s1)))"

definition join_threads :: "pstate \<Rightarrow> unit res" where
  \<comment> \<open>every entry that is joined has been filled by \<open>pthread_create\<close>\<close>
  "join_threads s =
     bind_ok (the_pool s) (\<lambda>p.
     case pthreads s of
       None \<Rightarrow> Inl Bad_pointer
     | Some ts \<Rightarrow> guard_ok (thread_num p \<le> int (length ts) \<and> list_all id (take (nat (thread_num p)) ts)) Bad_pointer)"

definition cond_destroy :: "nat \<Rightarrow> pstate \<Rightarrow> pstate res" where
  "cond_destroy i s =
     bind_ok (the_pool s) (\<lambda>p.
     bind_ok (guard_ok (i < length (conds p) \<and> conds p ! i) Bad_mutex) (\<lambda>_.
       Inr (set_pool (p\<lparr>conds := (conds p)[i := False]\<rparr>) s)))"

definition free_pthreads :: "pstate \<Rightarrow> pstate res" where
  "free_pthreads s = (case pthreads s of None \<Rightarrow> Inl Bad_pointer | Some _ \<Rightarrow> Inr (s\<lparr>pthreads := None\<rparr>))"

definition destroy_free :: "pstate \<Rightarrow> pstate res" where
  \<comment> \<open>from \<open>pthread_join\<close> on, when all workers have ended\<close>
  "destroy_free s =
     bind_ok (join_threads s) (\<lambda>_.
     bind_ok (the_pool s) (\<lambda>p.
     bind_ok (guard_ok (pmutex p = Unlocked) Bad_mutex) (\<lambda>_.
     bind_ok (cond_destroy 0 (set_pool (p\<lparr>pmutex := Uninit\<rparr>) s)) (\<lambda>s1.
     bind_ok (cond_destroy 1 s1) (\<lambda>s2.
     bind_ok (cond_destroy 2 s2) (\<lambda>s3.
     bind_ok (free_pthreads s3) (\<lambda>s4.
     bind_ok (free_jobs (Suc (jalloc s)) s4) (\<lambda>s5.
       Inr (s5\<lparr>pool := None\<rparr>)))))))))"

subsection \<open>The queue of a pool\<close>

fun jpath :: "(addr \<Rightarrow> job option) \<Rightarrow> addr \<Rightarrow> addr list \<Rightarrow> bool" where
  "jpath J a [] = (a = 0)"
| "jpath J a (b # bs) =
     (a = b \<and> b \<noteq> 0 \<and> (case J b of None \<Rightarrow> False | Some j \<Rightarrow> jpath J (jnext j) bs))"

fun jwalk :: "(addr \<Rightarrow> job option) \<Rightarrow> nat \<Rightarrow> addr \<Rightarrow> addr list" where
  "jwalk J 0 a = []"
| "jwalk J (Suc k) a = a # (case J a of None \<Rightarrow> [] | Some j \<Rightarrow> jwalk J k (jnext j))"

definition job_of :: "pstate \<Rightarrow> addr \<Rightarrow> nat \<times> nat" where
  "job_of s a = (case jobs s a of None \<Rightarrow> (0, 0) | Some j \<Rightarrow> (callback_function j, arg j))"

text \<open>
  \<open>pool_rep s p as\<close>: the pool is \<open>p\<close>, its mutex free, and its queue the jobs at \<open>as\<close>.
\<close>

definition pool_rep :: "pstate \<Rightarrow> threadpool \<Rightarrow> addr list \<Rightarrow> bool" where
  "pool_rep s p as \<longleftrightarrow>
     pool s = Some p \<and> pmutex p = Unlocked \<and> conds p = [True, True, True] \<and> jpath (jobs s) (jhead p) as \<and>
     (as \<noteq> [] \<longrightarrow> jtail p = last as) \<and> queue_cur_num p = int (length as) \<and>
     distinct as \<and> (\<forall>a \<in> set as. a \<le> jalloc s) \<and>
     int (length as) \<le> queue_max_num p \<and> queue_max_num p \<le> INT_MAX"

definition pool_addrs :: "pstate \<Rightarrow> addr list" where
  "pool_addrs s = (case pool s of None \<Rightarrow> []
     | Some p \<Rightarrow> jwalk (jobs s) (nat (queue_cur_num p)) (jhead p))"

definition pool_list :: "pstate \<Rightarrow> (nat \<times> nat) list" where
  "pool_list s = map (job_of s) (pool_addrs s)"

lemma jpath_walk: "jpath J a bs \<Longrightarrow> jwalk J (length bs) a = bs"
  by (induction J a bs rule: jpath.induct) (auto split: option.splits)

lemma jpath_cong: "(\<And>x. x \<in> set bs \<Longrightarrow> J' x = J x) \<Longrightarrow> jpath J' a bs = jpath J a bs"
  by (induction J a bs rule: jpath.induct) (auto split: option.splits)

lemma jpath_nonzero: "jpath J a bs \<Longrightarrow> 0 \<notin> set bs"
  by (induction J a bs rule: jpath.induct) (auto split: option.splits)

lemma jpath_Some: "jpath J a bs \<Longrightarrow> b \<in> set bs \<Longrightarrow> J b \<noteq> None"
  by (induction J a bs rule: jpath.induct) (auto split: option.splits)

lemma jpath_snoc:
  assumes "jpath J a (bs @ [l])" and "distinct (bs @ [l])" and "x \<notin> set (bs @ [l])" and "x \<noteq> 0"
    and "J l = Some j" and "J x = Some y" and "jnext y = 0"
  shows "jpath (J(l \<mapsto> j\<lparr>jnext := x\<rparr>)) a (bs @ [l, x])"
  using assms
proof (induction bs arbitrary: a)
  case Nil
  then show ?case by auto
next
  case (Cons b bs)
  then show ?case by (auto split: option.splits)
qed

lemma pool_rep_addrs: "pool_rep s p as \<Longrightarrow> pool_addrs s = as"
  by (simp add: pool_rep_def pool_addrs_def jpath_walk)

lemma pool_rep_list: "pool_rep s p as \<Longrightarrow> pool_list s = map (job_of s) as"
  by (simp add: pool_list_def pool_rep_addrs)

lemma lock_pool_eq:
  "pool s = Some p \<Longrightarrow> pmutex p = Unlocked \<Longrightarrow>
     lock_pool s = Inr (s\<lparr>pool := Some (p\<lparr>pmutex := Locked\<rparr>)\<rparr>)"
  by (simp add: lock_pool_def the_pool_def set_pool_def)

lemma unlock_pool_eq:
  "pool s = Some p \<Longrightarrow> pmutex p = Locked \<Longrightarrow>
     unlock_pool s = Inr (s\<lparr>pool := Some (p\<lparr>pmutex := Unlocked\<rparr>)\<rparr>)"
  by (simp add: unlock_pool_def the_pool_def set_pool_def)

lemma idle_pool: "pool s = Some p \<Longrightarrow> pmutex p = Unlocked \<Longrightarrow> s\<lparr>pool := Some (p\<lparr>pmutex := Unlocked\<rparr>)\<rparr> = s"
  by (cases s; cases p) simp

subsection \<open>The critical sections\<close>

lemmas pool_eval = the_pool_def set_pool_def lock_pool_eq unlock_pool_eq deref_Some upd_job_def

text \<open>The state after a successful \<open>threadpool_add_job\<close>.\<close>

definition after_add :: "pstate \<Rightarrow> threadpool \<Rightarrow> addr list \<Rightarrow> nat \<Rightarrow> nat \<Rightarrow> pstate" where
  "after_add s p as cb a =
     (let x = Suc (jalloc s); J = (jobs s)(x \<mapsto> \<lparr>callback_function = cb, arg = a, jnext = 0\<rparr>) in
      s\<lparr>pool := Some (p\<lparr>jhead := (if as = [] then x else jhead p), jtail := x,
                        queue_cur_num := int (length as) + 1\<rparr>),
        jobs := (if as = [] then J else J(last as := map_option (jnext_update (\<lambda>_. x)) (J (last as)))),
        jalloc := x\<rparr>)"

lemma add_job_ok:
  assumes r: "pool_rep s p as" and room: "int (length as) < queue_max_num p"
    and op: "queue_close p = 0" "pool_close p = 0" and mem: "\<not> joom s (jalloc s)"
  shows "threadpool_add_job cb a s = Inr (Add_ret 0 (as = []), after_add s p as cb a)"
    and "pool_rep (after_add s p as cb a) (the (pool (after_add s p as cb a))) (as @ [Suc (jalloc s)])"
    and "map (job_of (after_add s p as cb a)) (as @ [Suc (jalloc s)]) = map (job_of s) as @ [(cb, a)]"
proof -
  let ?x = "Suc (jalloc s)"
  from r have p: "pool s = Some p" "pmutex p = Unlocked" "queue_cur_num p = int (length as)" "conds p = [True, True, True]"
    and path: "jpath (jobs s) (jhead p) as" and d: "distinct as" "\<forall>b \<in> set as. b \<le> jalloc s"
    and tl: "as \<noteq> [] \<longrightarrow> jtail p = last as" and mx: "queue_max_num p \<le> INT_MAX"
    by (simp_all add: pool_rep_def)
  have hd0: "jhead p = 0 \<longleftrightarrow> as = []" using path by (cases as) auto
  have inc: "int_inc (int (length as)) = Inr (int (length as) + 1)"
    using room mx by (simp add: int_inc_def)
  have x: "?x \<notin> set as" using d(2) by auto
  show "threadpool_add_job cb a s = Inr (Add_ret 0 (as = []), after_add s p as cb a)"
  proof (cases "as = []")
    case True
    then show ?thesis using p op room mem hd0 inc
      by (simp add: threadpool_add_job_def enqueue_job_def pool_eval after_add_def Let_def; cases p; simp)
  next
    case False
    then have l0: "last as \<in> set as" by (rule last_in_set)
    with jpath_nonzero [OF path] x have l: "last as \<noteq> 0" "last as \<noteq> ?x" by metis+
    from l0 obtain j where "jobs s (last as) = Some j" using jpath_Some [OF path] by blast
    then show ?thesis using p op room mem hd0 inc tl l False
      by (simp add: threadpool_add_job_def enqueue_job_def pool_eval after_add_def)
  qed
  let ?s = "after_add s p as cb a" and ?new = "\<lparr>callback_function = cb, arg = a, jnext = 0\<rparr>"
  let ?J = "(jobs s)(?x \<mapsto> ?new)"
  have J: "jpath ?J (jhead p) as"
    using path x jpath_cong [of as ?J "jobs s" "jhead p"] by (metis fun_upd_other)
  have path': "jpath (jobs ?s) (if as = [] then ?x else jhead p) (as @ [?x])"
  proof (cases as rule: rev_cases)
    case Nil
    then show ?thesis by (simp add: after_add_def Let_def)
  next
    case (snoc bs l)
    with jpath_Some [OF J, of l] obtain j where j: "?J l = Some j" by auto
    have "jobs ?s = ?J(l \<mapsto> j\<lparr>jnext := ?x\<rparr>)" using snoc j by (simp add: after_add_def Let_def)
    moreover have "jpath (?J(l \<mapsto> j\<lparr>jnext := ?x\<rparr>)) (jhead p) (bs @ [l, ?x])"
      by (rule jpath_snoc [of ?J "jhead p" bs l ?x j ?new]) (use J j d(1) x snoc in auto)
    ultimately show ?thesis using snoc by simp
  qed
  have "pool ?s = Some (p\<lparr>jhead := (if as = [] then ?x else jhead p), jtail := ?x,
      queue_cur_num := int (length as) + 1\<rparr>)" "jalloc ?s = ?x"
    by (simp_all add: after_add_def Let_def)
  moreover have "\<forall>b \<in> set (as @ [?x]). b \<le> ?x" using d(2) by auto
  ultimately show "pool_rep ?s (the (pool ?s)) (as @ [?x])"
    unfolding pool_rep_def using p(2,4) path' d(1) x room mx by simp
  have lx: "last as \<noteq> ?x \<or> as = []" using x by (metis last_in_set)
  have "job_of ?s b = job_of s b" if "b \<in> set as" for b
  proof -
    from that x have "b \<noteq> ?x" "as \<noteq> []" by auto
    then show ?thesis by (cases "jobs s b"; cases "b = last as") (simp_all add: job_of_def after_add_def Let_def)
  qed
  moreover have "job_of ?s ?x = (cb, a)"
    using lx by (auto simp: job_of_def after_add_def Let_def)
  ultimately show "map (job_of ?s) (as @ [?x]) = map (job_of s) as @ [(cb, a)]"
    by simp
qed

lemma add_job_refuses:
  assumes r: "pool_rep s p as"
  shows "int (length as) = queue_max_num p \<Longrightarrow> queue_close p = 0 \<Longrightarrow> pool_close p = 0 \<Longrightarrow>
           threadpool_add_job cb a s = Inr (Add_wait, s)"
    and "queue_close p \<noteq> 0 \<or> pool_close p \<noteq> 0 \<Longrightarrow>
           threadpool_add_job cb a s = Inr (Add_ret (-1) False, s)"
    and "int (length as) < queue_max_num p \<Longrightarrow> queue_close p = 0 \<Longrightarrow> pool_close p = 0 \<Longrightarrow>
           joom s (jalloc s) \<Longrightarrow>
           threadpool_add_job cb a s = Inr (Add_ret (-1) False, s\<lparr>jalloc := Suc (jalloc s)\<rparr>)"
  using r idle_pool [of s p]
  by (auto simp: pool_rep_def threadpool_add_job_def pool_eval)

lemma take_job_ok:
  assumes r: "pool_rep s p (b # bs)" and op: "pool_close p = 0"
  defines "s' \<equiv> s\<lparr>pool := Some (p\<lparr>jhead := (if bs = [] then 0 else hd bs),
                    jtail := (if bs = [] then 0 else jtail p), queue_cur_num := int (length bs)\<rparr>)\<rparr>"
  shows "threadpool_function s =
      Inr (Take_job b (bs = []) (int (length bs) = queue_max_num p - 1), s')"
    and "pool_rep s' (the (pool s')) bs" and "map (job_of s') bs = map (job_of s) bs"
    and "jobs s' = jobs s" and "jalloc s' = jalloc s"
proof -
  from r have p: "pool s = Some p" "pmutex p = Unlocked" "queue_cur_num p = 1 + int (length bs)"
    and path: "jpath (jobs s) (jhead p) (b # bs)" and tl: "jtail p = last (b # bs)"
    by (simp_all add: pool_rep_def)
  from path obtain j where j: "jobs s b = Some j" "b \<noteq> 0" "jhead p = b" "jpath (jobs s) (jnext j) bs"
    by (auto split: option.splits)
  then have nx: "jnext j = (if bs = [] then 0 else hd bs)" by (cases bs) auto
  show "threadpool_function s =
      Inr (Take_job b (bs = []) (int (length bs) = queue_max_num p - 1), s')"
    using p j nx op
    by (simp add: threadpool_function_def dequeue_job_def pool_eval s'_def Let_def; cases p; simp)
  show "pool_rep s' (the (pool s')) bs"
    using r j nx tl by (auto simp: pool_rep_def s'_def)
  show "map (job_of s') bs = map (job_of s) bs" "jobs s' = jobs s" "jalloc s' = jalloc s"
    by (simp_all add: s'_def job_of_def)
qed

lemma take_job_waits:
  assumes r: "pool_rep s p []" and op: "pool_close p = 0"
  shows "threadpool_function s = Inr (Take_wait, s)"
  using r op idle_pool [of s p] by (simp add: pool_rep_def threadpool_function_def pool_eval)

lemma take_job_exits:
  assumes r: "pool_rep s p as" and op: "pool_close p \<noteq> 0"
  shows "threadpool_function s = Inr (Take_exit, s)"
  using r op idle_pool [of s p] by (simp add: pool_rep_def threadpool_function_def pool_eval)

lemma run_job_ok:
  assumes r: "pool_rep s p bs" and b: "b \<notin> set bs" "b \<noteq> 0" "jobs s b = Some j"
  defines "s' \<equiv> s\<lparr>jobs := (jobs s)(b := None)\<rparr>"
  shows "run_job b s = Inr (job_of s b, s')" and "pool_rep s' p bs"
    and "map (job_of s') bs = map (job_of s) bs"
proof -
  show "run_job b s = Inr (job_of s b, s')"
    using b by (simp add: run_job_def free_job_def deref_Some s'_def job_of_def)
  have "jpath (jobs s') (jhead p) bs = jpath (jobs s) (jhead p) bs"
    using b(1) by (intro jpath_cong) (auto simp: s'_def)
  then show "pool_rep s' p bs" using r by (simp add: pool_rep_def s'_def)
  show "map (job_of s') bs = map (job_of s) bs" using b(1) by (auto simp: job_of_def s'_def)
qed

subsection \<open>The pool is a queue of jobs\<close>

definition pool_inv :: "pstate \<Rightarrow> bool" where
  "pool_inv s \<longleftrightarrow>
     (case pool s of None \<Rightarrow> False
      | Some p \<Rightarrow> pool_rep s p (pool_addrs s) \<and> (pool_close p \<noteq> 0 \<longrightarrow> pool_addrs s = []))"

definition pool_room :: "pstate \<Rightarrow> bool" where
  "pool_room s \<longleftrightarrow>
     (case pool s of None \<Rightarrow> False
      | Some p \<Rightarrow> int (length (pool_addrs s)) < queue_max_num p \<and>
                  queue_close p = 0 \<and> pool_close p = 0 \<and> \<not> joom s (jalloc s))"

text \<open>One attempt to add a job, and one iteration of a worker, as a client sees them.\<close>

definition put_job :: "nat \<times> nat \<Rightarrow> pstate \<Rightarrow> (bool \<times> pstate) res" where
  "put_job = (\<lambda>(callback, a) s. bind_ok (threadpool_add_job callback a s) (\<lambda>(r, s').
     Inr (case r of Add_wait \<Rightarrow> False | Add_ret n _ \<Rightarrow> n = 0, s')))"

definition get_job :: "pstate \<Rightarrow> ((nat \<times> nat) option \<times> pstate) res" where
  "get_job s = bind_ok (threadpool_function s) (\<lambda>(r, s').
     case r of Take_job pjob _ _ \<Rightarrow> bind_ok (run_job pjob s') (\<lambda>(x, s''). Inr (Some x, s''))
     | _ \<Rightarrow> Inr (None, s'))"

lemma pool_invI: "pool_rep s p as \<Longrightarrow> pool_close p \<noteq> 0 \<longrightarrow> as = [] \<Longrightarrow> pool_inv s"
  using pool_rep_addrs [of s p as] by (auto simp: pool_inv_def pool_rep_def)

lemma pool_invE:
  assumes "pool_inv s"
  obtains p as where "pool_rep s p as" "pool_close p \<noteq> 0 \<longrightarrow> as = []" "pool_addrs s = as"
    "pool s = Some p" "pool_list s = map (job_of s) as"
  using assms by (auto simp: pool_inv_def pool_list_def split: option.splits)

lemma put_job_law:
  assumes "pool_inv s"
  shows "\<exists>s'. put_job x s = Inr (pool_room s, s') \<and> pool_inv s' \<and>
     pool_list s' = (if pool_room s then pool_list s @ [x] else pool_list s)"
proof -
  obtain cb a where x: "x = (cb, a)" by fastforce
  from assms obtain p as where r: "pool_rep s p as" "pool_close p \<noteq> 0 \<longrightarrow> as = []"
    "pool_addrs s = as" "pool s = Some p" "pool_list s = map (job_of s) as"
    by (rule pool_invE)
  from r(1) have le: "int (length as) \<le> queue_max_num p" by (simp add: pool_rep_def)
  show ?thesis
  proof (cases "pool_room s")
    case True
    then have "int (length as) < queue_max_num p" "queue_close p = 0" "pool_close p = 0" "\<not> joom s (jalloc s)"
      using r by (simp_all add: pool_room_def)
    note A = add_job_ok [OF r(1) this, of cb a]
    let ?s = "after_add s p as cb a"
    have "pool_close (the (pool ?s)) = 0" using \<open>pool_close p = 0\<close> by (simp add: after_add_def Let_def)
    then have "pool_inv ?s" using pool_invI [OF A(2)] by simp
    moreover have "pool_list ?s = pool_list s @ [x]" using pool_rep_list [OF A(2)] A(3) r(5) x by simp
    ultimately show ?thesis using True A(1) x by (simp add: put_job_def)
  next
    case False
    have s1: "pool_inv (s\<lparr>jalloc := Suc (jalloc s)\<rparr>)" "pool_list (s\<lparr>jalloc := Suc (jalloc s)\<rparr>) = pool_list s"
    proof -
      have "pool_rep (s\<lparr>jalloc := Suc (jalloc s)\<rparr>) p as" using r(1) by (auto simp: pool_rep_def)
      from pool_invI [OF this r(2)] pool_rep_list [OF this] r(5)
      show "pool_inv (s\<lparr>jalloc := Suc (jalloc s)\<rparr>)" "pool_list (s\<lparr>jalloc := Suc (jalloc s)\<rparr>) = pool_list s"
        by (simp_all add: job_of_def)
    qed
    have no: "\<not> (int (length as) < queue_max_num p \<and> queue_close p = 0 \<and> pool_close p = 0 \<and>
        \<not> joom s (jalloc s))" using False r(3,4) by (simp add: pool_room_def)
    consider (full) "int (length as) = queue_max_num p" "queue_close p = 0" "pool_close p = 0"
      | (closed) "queue_close p \<noteq> 0 \<or> pool_close p \<noteq> 0"
      | (oom) "int (length as) < queue_max_num p" "queue_close p = 0" "pool_close p = 0" "joom s (jalloc s)"
      using no le unfolding le_less by blast
    then show ?thesis
      using add_job_refuses [OF r(1), of cb a] assms False s1 x by cases (simp_all add: put_job_def)
  qed
qed

lemma get_job_law:
  assumes "pool_inv s"
  shows "\<exists>s'. get_job s = Inr (case pool_list s of [] \<Rightarrow> None | x # _ \<Rightarrow> Some x, s') \<and> pool_inv s' \<and>
     pool_list s' = tl (pool_list s)"
proof -
  from assms obtain p as where r: "pool_rep s p as" "pool_close p \<noteq> 0 \<longrightarrow> as = []"
    "pool_addrs s = as" "pool s = Some p" "pool_list s = map (job_of s) as"
    by (rule pool_invE)
  show ?thesis
  proof (cases as)
    case Nil
    with r have "pool_list s = []" by simp
    then show ?thesis
      using take_job_waits [OF r(1) [unfolded Nil]] take_job_exits [OF r(1)] assms
      by (cases "pool_close p = 0") (simp_all add: get_job_def)
  next
    case (Cons b bs)
    with r have op: "pool_close p = 0" by simp
    note T = take_job_ok [OF r(1) [unfolded Cons] op]
    let ?s = "s\<lparr>pool := Some (p\<lparr>jhead := (if bs = [] then 0 else hd bs),
                    jtail := (if bs = [] then 0 else jtail p), queue_cur_num := int (length bs)\<rparr>)\<rparr>"
    have b: "b \<notin> set bs" "b \<noteq> 0" "jobs s b \<noteq> None"
      using r(1) Cons jpath_Some [of "jobs s" "jhead p" as b] by (auto simp: pool_rep_def)
    then obtain j where "jobs ?s b = Some j" by auto
    note R = run_job_ok [OF T(2) b(1,2) this]
    have "pool_close (the (pool ?s)) = 0" using op by simp
    then have "pool_inv (?s\<lparr>jobs := (jobs ?s)(b := None)\<rparr>)" using pool_invI [OF R(2)] by simp
    moreover have "pool_list (?s\<lparr>jobs := (jobs ?s)(b := None)\<rparr>) = tl (pool_list s)"
      using pool_rep_list [OF R(2)] R(3) T(3) r(5) Cons by simp
    moreover have "job_of ?s b = job_of s b" by (simp add: job_of_def)
    ultimately show ?thesis using T(1) R(1) r(5) Cons by (simp add: get_job_def)
  qed
qed

interpretation job_queue: fifo_service pool_inv pool_list pool_room "\<lambda>_. True" put_job get_job
proof unfold_locales
  show "pool_inv s \<Longrightarrow> pool_room s \<Longrightarrow>
      \<exists>s'. put_job x s = Inr (True, s') \<and> pool_inv s' \<and> pool_list s' = pool_list s @ [x]"
    and "pool_inv s \<Longrightarrow> \<not> pool_room s \<Longrightarrow>
      \<exists>s'. put_job x s = Inr (False, s') \<and> pool_inv s' \<and> pool_list s' = pool_list s" for s x
    using put_job_law [of s x] by simp_all
qed (rule get_job_law)

section \<open>What a pool promises to one thread\<close>

definition new_pool :: "int \<Rightarrow> int \<Rightarrow> (nat \<Rightarrow> bool) \<Rightarrow> pstate" where
  "new_pool num max_num out_of_mem =
     init_state (threadpool_init True True True True True True (\<lambda>_. True) num max_num) out_of_mem"

lemma new_pool_inv:
  "0 \<le> M \<Longrightarrow> M \<le> INT_MAX \<Longrightarrow> pool_inv (new_pool num M out_of_mem) \<and> pool_list (new_pool num M out_of_mem) = []"
  by (simp add: new_pool_def init_state_def threadpool_init_def pool_inv_def pool_rep_def pool_addrs_def pool_list_def)

text \<open>Whatever sequence of additions and of worker iterations is performed on a new pool,
  and whichever allocations fail, nothing goes wrong, and the jobs run followed by the jobs
  still queued are the jobs accepted, in order.\<close>

theorem pool_any_script:
  assumes "0 \<le> M" and "M \<le> INT_MAX"
  shows "\<exists>ins outs s'. run_queue put_job get_job ops (new_pool num M out_of_mem) = Inr (ins, outs, s') \<and>
     pool_inv s' \<and> ins = outs @ pool_list s'"
  using job_queue.run_fifo [of "new_pool num M out_of_mem" ops] new_pool_inv [OF assms, of num out_of_mem]
  by auto

text \<open>\<open>threadpool_init\<close> has no cleanup on its error paths: when any call after the first
  allocation fails, it returns null and the pool it has allocated is lost.\<close>

lemma init_failure_leaks_pool:
  "threadpool_init malloc_ok mutex_ok cond1_ok cond2_ok cond3_ok threads_ok creates num max_num =
     (if malloc_ok \<and> mutex_ok \<and> cond1_ok \<and> cond2_ok \<and> cond3_ok \<and> threads_ok then
        (Some \<lparr>thread_num = num, queue_max_num = max_num, jhead = 0, jtail = 0, pmutex = Unlocked,
               conds = [True, True, True], queue_cur_num = 0, queue_close = 0, pool_close = 0\<rparr>,
         Some (map creates [0..<nat num]), [Pool_struct, Pool_threads])
      else (None, None, if malloc_ok then [Pool_struct] else []))"
  by (simp add: threadpool_init_def)

text \<open>A failure of \<open>pthread_create\<close> is not noticed: the pool is returned, and the destruction joins a
  thread that does not exist.\<close>

lemma failed_create_breaks_destroy:
  assumes "i < nat num" and "\<not> creates i"
  shows "destroy_free (init_state (threadpool_init True True True True True True creates num max_num) out_of_mem) =
     Inl Bad_pointer"
proof -
  have "\<not> list_all id (map creates [0..<nat num])" using assms by (auto simp: list_all_iff)
  then show ?thesis
    by (simp add: destroy_free_def join_threads_def init_state_def threadpool_init_def the_pool_def guard_ok_def)
qed

lemma pool_any_script_witness:
  "\<exists>ins outs s'. run_queue put_job get_job [Put (1, 0), Put (2, 0), Put (3, 0), Get] (new_pool 1 2 (\<lambda>_. False)) =
       Inr (ins, outs, s') \<and> ins = outs @ pool_list s'"
  using pool_any_script [of 2 "[Put (1, 0), Put (2, 0), Put (3, 0), Get]" 1 "\<lambda>_. False"]
  by (fastforce simp: INT_MAX_def simp del: run_queue.simps)

end
