(* ===== verification/Start_Up.thy ===== *)
theory Start_Up
  imports Daemon Serial_Port Thread_Pool
begin

text \<open>
  \<open>main\<close>, \<open>init_uart\<close>, \<open>init_pipe\<close> and the part of \<open>epoll_start\<close> before its loop
  (\<^verbatim>\<open>uart_start.c\<close>), with \<open>setnonblocking\<close> (\<^verbatim>\<open>epoll_server.c\<close>).  What the system calls return is
  an argument; \<open>fcntl\<close> is given as the predicate that says for which descriptors its two
  calls succeed.
\<close>

subsection \<open>Outcomes\<close>

datatype startup =
    Exited int        \<comment> \<open>\<open>exit\<close> was called\<close>
  | Main_returned     \<comment> \<open>\<open>epoll_start\<close> returned, and \<open>main\<close> with it\<close>
  | Running globals   \<comment> \<open>the loop of \<open>epoll_start\<close> is reached, with the two consumers started\<close>

record environment =
  se_uart :: int               \<comment> \<open>\<open>open\<close> of the serial line\<close>
  se_get_ok :: bool            \<comment> \<open>\<open>tcgetattr\<close>\<close>
  se_set_ok :: bool            \<comment> \<open>\<open>tcsetattr\<close>\<close>
  se_pipe :: int               \<comment> \<open>\<open>open\<close> of the pipe\<close>
  se_epoll :: int              \<comment> \<open>\<open>epoll_create\<close>\<close>
  se_fcntl :: "int \<Rightarrow> bool"
  se_ctl :: "int \<Rightarrow> bool"        \<comment> \<open>\<open>EPOLL_CTL_ADD\<close> of a descriptor, before the loop\<close>
  se_pool :: bool              \<comment> \<open>whether all allocations of \<open>threadpool_init\<close> succeed\<close>
  se_mutex1 :: bool            \<comment> \<open>\<open>pthread_mutex_init\<close> for the receive list\<close>
  se_mutex2 :: bool            \<comment> \<open>the same for the send list\<close>
  se_oom :: "nat \<Rightarrow> bool"

subsection \<open>Operations\<close>

definition init_uart :: "termios_flags \<Rightarrow> environment \<Rightarrow> startup + int" where
  \<comment> \<open>the exit, or the value of \<open>G_uartfd\<close>\<close>
  "init_uart k env =
     (case open_port k (se_uart env) (se_get_ok env) (se_set_ok env) of (fd, settings) \<Rightarrow>
      if fd = -1 then Inl (Exited 0) else Inr fd)"

definition init_pipe :: "environment \<Rightarrow> int" where
  \<comment> \<open>the value stored through \<open>pipefd\<close>: on failure it is \<open>-1\<close>, and the function just returns\<close>
  "init_pipe env = se_pipe env"

definition setnonblocking :: "environment \<Rightarrow> int \<Rightarrow> startup option" where
  "setnonblocking env sock = (if se_fcntl env sock then None else Some (Exited 1))"

definition epoll_start :: "environment \<Rightarrow> globals \<Rightarrow> startup res" where
  "epoll_start env g =
     (let g1 = g\<lparr>G_epollfd := se_epoll env\<rparr> in
      case setnonblocking env (G_uartfd g1) of Some e \<Rightarrow> Inr e
      | None \<Rightarrow>
          (let g2 = epoll_add (se_ctl env (G_uartfd g1)) (G_uartfd g1) g1 in
           case setnonblocking env (G_pipefd g2) of Some e \<Rightarrow> Inr e
           | None \<Rightarrow>
               (let g3 = epoll_add (se_ctl env (G_pipefd g2)) (G_pipefd g2) g2;
                    pool = fst (threadpool_init (se_pool env) True True True True True (\<lambda>_. True) 5 10) in
                if \<not> se_mutex1 env then Inr Main_returned
                else if \<not> se_mutex2 env then Inr Main_returned
                else if pool = None then Inl Null_deref
                else bind_ok (start_threads g3) (\<lambda>g4. Inr (Running g4)))))"

definition main :: "termios_flags \<Rightarrow> environment \<Rightarrow> startup res" where
  "main k env =
     (case init_uart k env of Inl e \<Rightarrow> Inr e
      | Inr fd \<Rightarrow>
          bind_ok (main_lists
            \<lparr>heap = \<lparr>nodes = (\<lambda>_. None), infs = (\<lambda>_. None), bufs = (\<lambda>_. None), heads = (\<lambda>_. None),
                     nalloc = 0, oom = se_oom env\<rparr>,
             G_uartfd = fd, G_epollfd = 0, G_pipefd = init_pipe env, G_sockfd = 0,
             G_recv_linklist = 0, G_send_linklist = 0,
             uart_handle_analy = replicate 64 0, pipe_handle_analy = replicate 128 0,
             epoll_fds = [], dp_node = 0, so_node = 0, outs = []\<rparr>)
            (epoll_start env))"

subsection \<open>The lists do not depend on the descriptors\<close>

lemma main_lists_frame:
  "main_lists (g\<lparr>epoll_fds := es\<rparr>) = bind_ok (main_lists g) (\<lambda>g'. Inr (g'\<lparr>epoll_fds := es\<rparr>))"
  by (cases g; simp add: main_lists_def bind_ok_assoc split_def)

lemma start_threads_frame:
  "start_threads (g\<lparr>G_epollfd := e, epoll_fds := es\<rparr>) =
     bind_ok (start_threads g) (\<lambda>g'. Inr (g'\<lparr>G_epollfd := e, epoll_fds := es\<rparr>))"
  by (cases g; simp add: start_threads_def bind_ok_assoc split_def)

lemma sys_inv_frame [simp]:
  "sys_inv (g\<lparr>G_epollfd := e, epoll_fds := es\<rparr>) = sys_inv g"
  "recv_msgs (g\<lparr>G_epollfd := e, epoll_fds := es\<rparr>) = recv_msgs g"
  "send_msgs (g\<lparr>G_epollfd := e, epoll_fds := es\<rparr>) = send_msgs g"
  by (simp_all add: sys_inv_def sys_ok_def recv_msgs_def send_msgs_def)

lemma boot_is_main:
  fixes u p e :: int and es :: "int list" and oo :: "nat \<Rightarrow> bool"
  defines "g0 \<equiv> \<lparr>heap = \<lparr>nodes = (\<lambda>_. None), infs = (\<lambda>_. None), bufs = (\<lambda>_. None), heads = (\<lambda>_. None),
                nalloc = 0, oom = oo\<rparr>,
        G_uartfd = u, G_epollfd = 0, G_pipefd = p, G_sockfd = 0,
        G_recv_linklist = 0, G_send_linklist = 0,
        uart_handle_analy = replicate 64 0, pipe_handle_analy = replicate 128 0,
        epoll_fds = [], dp_node = 0, so_node = 0, outs = []\<rparr>"
  shows "bind_ok (main_lists g0) (\<lambda>g. start_threads (g\<lparr>G_epollfd := e, epoll_fds := es\<rparr>)) =
     bind_ok (boot u p oo) (\<lambda>g. Inr (g\<lparr>G_epollfd := e, epoll_fds := es\<rparr>))"
proof -
  have "boot u p oo = bind_ok (main_lists (g0\<lparr>epoll_fds := [u, p]\<rparr>)) start_threads"
    by (simp add: boot_def g0_def)
  also have "\<dots> = bind_ok (main_lists g0) (\<lambda>g. start_threads (g\<lparr>G_epollfd := G_epollfd g, epoll_fds := [u, p]\<rparr>))"
    unfolding main_lists_frame bind_ok_assoc by simp
  finally show ?thesis
    unfolding start_threads_frame by (simp add: bind_ok_assoc)
qed

lemma main_lists_fds:
  "main_lists g = Inr g' \<Longrightarrow> G_uartfd g' = G_uartfd g \<and> G_pipefd g' = G_pipefd g \<and> epoll_fds g' = epoll_fds g"
  by (auto simp: main_lists_def)

text \<open>The descriptors in the epoll set when the loop is reached.\<close>

definition watched_fds :: "environment \<Rightarrow> int list" where
  "watched_fds env = filter (\<lambda>fd. se_epoll env \<noteq> -1 \<and> se_ctl env fd)
     (if se_uart env = se_pipe env then [se_uart env] else [se_pipe env, se_uart env])"

text \<open>The whole start, by cases.\<close>

lemma main_cases:
  assumes "\<forall>n < 10. \<not> se_oom env n"
  defines "u \<equiv> se_uart env" and "p \<equiv> se_pipe env"
  shows "main k env =
     (if u = -1 then Inr (Exited 0)
      else if \<not> se_fcntl env u \<or> \<not> se_fcntl env p then Inr (Exited 1)
      else if \<not> se_mutex1 env \<or> \<not> se_mutex2 env then Inr Main_returned
      else if \<not> se_pool env then Inl Null_deref
      else bind_ok (boot u p (se_oom env)) (\<lambda>g.
        Inr (Running (g\<lparr>G_epollfd := se_epoll env, epoll_fds := watched_fds env\<rparr>))))"
proof (cases "u = -1")
  case True
  then show ?thesis by (simp add: main_def init_uart_def open_port_def u_def)
next
  case False
  let ?g0 = "\<lparr>heap = \<lparr>nodes = (\<lambda>_. None), infs = (\<lambda>_. None), bufs = (\<lambda>_. None), heads = (\<lambda>_. None),
                nalloc = 0, oom = se_oom env\<rparr>,
        G_uartfd = u, G_epollfd = 0, G_pipefd = p, G_sockfd = 0,
        G_recv_linklist = 0, G_send_linklist = 0,
        uart_handle_analy = replicate 64 0, pipe_handle_analy = replicate 128 0,
        epoll_fds = [], dp_node = 0, so_node = 0, outs = []\<rparr>"
  have m: "main k env = bind_ok (main_lists ?g0) (epoll_start env)"
    using False by (simp add: main_def init_uart_def open_port_def init_pipe_def u_def p_def)
  from boot_sys [of "se_oom env" u p] assms(1) obtain g where "boot u p (se_oom env) = Inr g" by blast
  with boot_is_main [of "se_oom env" u p "[]" 0] obtain g1 where
    g1: "main_lists ?g0 = Inr g1" by (cases "main_lists ?g0") auto
  from main_lists_fds [OF g1] have f: "G_uartfd g1 = u" "G_pipefd g1 = p" "epoll_fds g1 = []" by simp_all
  have a: "epoll_add (se_ctl env p) p (epoll_add (se_ctl env u) u (g1\<lparr>G_epollfd := se_epoll env\<rparr>)) =
      g1\<lparr>G_epollfd := se_epoll env, epoll_fds := watched_fds env\<rparr>"
    using f by (cases g1) (simp add: epoll_add_def watched_fds_def u_def p_def)
  have e: "G_pipefd (epoll_add (se_ctl env u) u (g1\<lparr>G_epollfd := se_epoll env\<rparr>)) = p"
    using f by (simp add: epoll_add_def)
  note b = boot_is_main [of "se_oom env" u p "watched_fds env" "se_epoll env", unfolded g1 bind_ok.simps]
  show ?thesis unfolding m g1 bind_ok.simps
    using False f e a b
    by (simp add: epoll_start_def setnonblocking_def Let_def threadpool_init_def bind_ok_assoc)
qed

lemma main_running:
  assumes "\<forall>k < 10. \<not> se_oom env k" and "\<not> se_fcntl env (-1)" and "main k env = Inr (Running g)"
  shows "sys_inv g" and "recv_msgs g = []" and "send_msgs g = []" and "outs g = []"
    and "G_uartfd g = se_uart env" and "G_pipefd g = se_pipe env" and "-1 \<notin> {se_uart env, se_pipe env}"
    and "nalloc (heap g) = 10" and "oom (heap g) = se_oom env"
    and "epoll_fds g = watched_fds env"
proof -
  let ?u = "se_uart env" and ?p = "se_pipe env"
  from boot_sys [of "se_oom env" ?u ?p] assms(1) obtain g0 where
    g0: "boot ?u ?p (se_oom env) = Inr g0" "sys_ok g0 1 [] 3 []" "recv_msgs g0 = []" "send_msgs g0 = []"
      "outs g0 = []" "G_uartfd g0 = ?u" "G_pipefd g0 = ?p" "nalloc (heap g0) = 10" "oom (heap g0) = se_oom env"
    by blast
  from assms(3) have
    r: "?u \<noteq> -1" "se_fcntl env ?p"
      "g = g0\<lparr>G_epollfd := se_epoll env, epoll_fds := watched_fds env\<rparr>"
    unfolding main_cases [OF assms(1)] g0(1) by (auto split: if_splits)
  show "-1 \<notin> {?u, ?p}" using r(1,2) assms(2) by auto
  show "sys_inv g" "recv_msgs g = []" "send_msgs g = []" "outs g = []" "G_uartfd g = ?u" "G_pipefd g = ?p"
    "nalloc (heap g) = 10" "oom (heap g) = se_oom env"
    "epoll_fds g = watched_fds env"
    using g0 sys_ok_msgs(1) [OF g0(2)] unfolding r(3) by auto
qed

subsection \<open>Properties\<close>

text \<open>When the start reaches the loop, both descriptors are valid, the two lists are empty and the
  invariant of the daemon holds; but a descriptor is watched only if \<open>epoll_create\<close> and its
  \<open>EPOLL_CTL_ADD\<close> have succeeded, whose results are not tested.  That \<open>fcntl\<close> fails for \<open>-1\<close> is what its manual
  says; it is what catches a pipe that could not be opened, since \<open>init_pipe\<close> only returns.\<close>

theorem running_is_ready:
  assumes "\<forall>n < 10. \<not> se_oom env n" and "\<not> se_fcntl env (-1)" and "main k env = Inr (Running g)"
  shows "sys_inv g \<and> recv_msgs g = [] \<and> send_msgs g = [] \<and>
     G_uartfd g = se_uart env \<and> G_pipefd g = se_pipe env \<and>
     set (epoll_fds g) = {fd \<in> {se_uart env, se_pipe env}. se_epoll env \<noteq> -1 \<and> se_ctl env fd} \<and> -1 \<notin> {se_uart env, se_pipe env}"
  using main_running [OF assms] by (auto simp: watched_fds_def)

text \<open>C34: the failures of the start: without the serial line the process exits with status zero,
  as after success; without the pipe it exits with status one; and when \<open>threadpool_init\<close>
  fails, \<open>epoll_start\<close> does not test its result and dereferences null.\<close>

theorem failed_start:
  assumes "\<forall>n < 10. \<not> se_oom env n" and "\<not> se_fcntl env (-1)"
  shows "(se_uart env = -1 \<longrightarrow> main k env = Inr (Exited 0)) \<and>
     (se_uart env \<noteq> -1 \<and> se_pipe env = -1 \<longrightarrow> main k env = Inr (Exited 1)) \<and>
     (se_uart env \<noteq> -1 \<and> se_fcntl env (se_uart env) \<and> se_fcntl env (se_pipe env) \<and>
      se_mutex1 env \<and> se_mutex2 env \<and> \<not> se_pool env \<longrightarrow> main k env = Inl Null_deref)"
  using assms(2) unfolding main_cases [OF assms(1)] by auto

definition good_env :: environment where
  "good_env = \<lparr>se_uart = 3, se_get_ok = True, se_set_ok = True, se_pipe = 4, se_epoll = 5,
     se_fcntl = (\<lambda>fd. fd \<ge> 0), se_ctl = (\<lambda>_. True), se_pool = True, se_mutex1 = True, se_mutex2 = True, se_oom = (\<lambda>_. False)\<rparr>"

lemma running_is_ready_witness:
  "\<exists>g. main linux_flags good_env = Inr (Running g) \<and> sys_inv g \<and> set (epoll_fds g) = {3, 4}"
proof -
  from boot_sys [of "\<lambda>_. False" 3 4] obtain g0 where "boot 3 4 (\<lambda>_. False) = Inr g0" by auto
  then obtain g where g: "main linux_flags good_env = Inr (Running g)"
    using main_cases [of good_env linux_flags] by (simp add: good_env_def)
  have "\<forall>n < 10. \<not> se_oom good_env n" "\<not> se_fcntl good_env (-1)" by (simp_all add: good_env_def)
  from running_is_ready [OF this g] g show ?thesis by (auto simp: good_env_def)
qed

lemma failed_start_witness:
  "main linux_flags (good_env\<lparr>se_pool := False\<rparr>) = Inl Null_deref \<and>
   main linux_flags (good_env\<lparr>se_pipe := -1\<rparr>) = Inr (Exited 1)"
  using failed_start [of "good_env\<lparr>se_pool := False\<rparr>" linux_flags]
    failed_start [of "good_env\<lparr>se_pipe := -1\<rparr>" linux_flags]
  by (simp add: good_env_def)

end
