(* ===== verification/Message_Types.thy ===== *)
theory Message_Types
  imports Start_Up
begin

text \<open>
  Whole runs of the program, from \<open>main\<close> on, and the shape of the messages in the two lists:
  what the receive handlers store, what the parser answers, and what is written.
\<close>

subsection \<open>The types of messages\<close>










subsection \<open>Runs with other senders\<close>












subsection \<open>Runs from the start\<close>

lemma main_run:
  assumes "\<forall>k < 10 + 3 * length evs. \<not> se_oom env k" and "\<not> se_fcntl env (-1)"
    and "main k env = Inr (Running g0)" and "list_all event_ok evs" and "int (length evs) \<le> INT_MAX"
  obtains g where "run evs g0 = Inr g" "sys_inv g" "-1 \<notin> {se_uart env, se_pipe env}"
    "view_of g = fold (spec_step (se_uart env) (se_pipe env)) evs \<lparr>v_recv = [], v_send = [], v_out = []\<rparr>"
proof -
  have "\<forall>k < 10. \<not> se_oom env k" using assms(1) by simp
  note M = main_running [OF this assms(2,3)]
  have "mem_for (3 * length evs) g0" "room_for (length evs) g0"
    using M assms(1,5) by (simp_all add: mem_for_def room_for_def)
  moreover have "view_of g0 = \<lparr>v_recv = [], v_send = [], v_out = []\<rparr>"
    using M by (simp add: view_of_def visible_def)
  ultimately show ?thesis using run_sys [OF M(1) assms(4)] M(5-7) that by fastforce
qed

subsection \<open>Properties\<close>


text \<open>C1: end to end, from \<open>main\<close> on.  Once the loop is reached, every run of the handlers
  succeeds; what has arrived is what has been handled followed by what is still in the
  receive list; the answers to what has been handled (each at the time of day at which it
  was handled) are what has been sent followed by what is still in the send list; and the
  non-empty writes are those of the messages sent, in order.\<close>

theorem program_end_to_end:
  assumes "\<forall>k < 10 + 3 * length evs. \<not> se_oom env k" and "\<not> se_fcntl env (-1)"
    and "main k env = Inr (Running g0)" and "list_all event_ok evs" and "int (length evs) \<le> INT_MAX"
  shows "\<exists>g handled ts sent'. run evs g0 = Inr g \<and> sys_inv g \<and>
     concat (map (arrival (se_uart env) (se_pipe env)) evs) = handled @ recv_msgs g \<and>
     subseq ts (clocks evs) \<and> length ts = length handled \<and>
     answers (se_uart env) (se_pipe env) ts handled = sent' @ send_msgs g \<and>
     visible (outs g) = wire sent'"
proof -
  obtain g where g: "run evs g0 = Inr g" "sys_inv g"
    "view_of g = fold (spec_step (se_uart env) (se_pipe env)) evs \<lparr>v_recv = [], v_send = [], v_out = []\<rparr>"
    by (rule main_run [OF assms])
  from spec_trace [of "\<lparr>v_recv = [], v_send = [], v_out = []\<rparr>" "se_uart env" "se_pipe env" evs, folded g(3)] g(1,2)
  show ?thesis by (simp add: view_of_def)
qed

subsection \<open>The properties at concrete inputs\<close>

lemma good_main:
  obtains g where "main linux_flags good_env = Inr (Running g)"
proof -
  from boot_sys [of "\<lambda>_. False" 3 4] obtain g0 where "boot 3 4 (\<lambda>_. False) = Inr g0" by auto
  then show ?thesis
    using main_cases [of good_env linux_flags] that by (simp add: good_env_def)
qed

definition noon_tm :: tm where
  "noon_tm = \<lparr>tm_sec = 5, tm_min = 30, tm_hour = 12, tm_mday = 7, tm_mon = 8, tm_year = 125, tm_wday = 0\<rparr>"


lemma program_end_to_end_witness:
  "\<exists>g0 g handled ts sent'. main linux_flags good_env = Inr (Running g0) \<and>
     run [Pipe_readable (Some ''usb''), Pipe_readable (Some ''x''), Process noon_tm] g0 = Inr g \<and>
     [\<lparr>m_bytes = ''usb'', m_fd = 4, m_to = 0\<rparr>, \<lparr>m_bytes = ''x'', m_fd = 4, m_to = 0\<rparr>] =
       handled @ recv_msgs g \<and>
     length ts = length handled \<and> answers 3 4 ts handled = sent' @ send_msgs g \<and> visible (outs g) = wire sent'"
proof -
  obtain g0 where g0: "main linux_flags good_env = Inr (Running g0)" by (rule good_main)
  let ?evs = "[Pipe_readable (Some ''usb''), Pipe_readable (Some ''x''), Process noon_tm]"
  have "\<forall>k < 10 + 3 * length ?evs. \<not> se_oom good_env k" "\<not> se_fcntl good_env (-1)"
    "list_all event_ok ?evs" "int (length ?evs) \<le> INT_MAX"
    by (simp_all add: good_env_def noon_tm_def valid_tm_def INT_MAX_def)
  from program_end_to_end [OF this(1,2) g0 this(3,4)] obtain g handled ts sent' where
    "run ?evs g0 = Inr g" "length ts = length handled" "visible (outs g) = wire sent'"
    "concat (map (arrival (se_uart good_env) (se_pipe good_env)) ?evs) = handled @ recv_msgs g"
    "answers (se_uart good_env) (se_pipe good_env) ts handled = sent' @ send_msgs g" by blast
  moreover have "concat (map (arrival (se_uart good_env) (se_pipe good_env)) ?evs) =
      [\<lparr>m_bytes = ''usb'', m_fd = 4, m_to = 0\<rparr>, \<lparr>m_bytes = ''x'', m_fd = 4, m_to = 0\<rparr>]"
    by (simp add: good_env_def received_def chunk_def)
  moreover have "se_uart good_env = 3" "se_pipe good_env = 4" by (simp_all add: good_env_def)
  ultimately show ?thesis using g0 by metis
qed

end
