(* ===== verification/Wake_Up.thy ===== *)
theory Wake_Up
  imports Daemon
begin

text \<open>
  How the two consumer threads of \<^verbatim>\<open>uart_start.c\<close> sleep and wake.  Each tests its list with
  a mutex held, waits for a condition variable when the list is empty, and goes on to the
  pop when it returns from the wait, without a second test.  The producers signal the
  variable after they have inserted a message, without taking that mutex, so a signal may
  come between the test and the wait.

  A step is the test, the wait, one iteration from the pop on (the functions of
  \<^verbatim>\<open>Uart_Pipeline\<close>), one receive handler up to its insertion, or one signal.
\<close>

subsection \<open>State and steps\<close>

datatype waiter =
    Top       \<comment> \<open>at the head of the loop\<close>
  | Checked   \<comment> \<open>has seen an empty list, and holds the mutex of the condition\<close>
  | Waiting   \<comment> \<open>in \<open>pthread_cond_wait\<close>\<close>
  | Woken     \<comment> \<open>past the test: the pop is next\<close>

record wsys =
  gl :: globals
  dp :: waiter          \<comment> \<open>\<open>data_process\<close>\<close>
  so :: waiter          \<comment> \<open>\<open>send_out_handler\<close>\<close>
  r_sig :: nat          \<comment> \<open>receive handlers that have inserted and not yet signalled\<close>
  s_sig :: nat          \<comment> \<open>calls of \<open>ready_send_data\<close> that have not yet signalled\<close>
  r_missed :: bool      \<comment> \<open>a signal has come since the last test and before the wait\<close>
  s_missed :: bool

definition signal_one :: "waiter \<Rightarrow> waiter" where
  "signal_one c = (if c = Waiting then Woken else c)"

definition list_count :: "addr \<Rightarrow> globals \<Rightarrow> nat" where
  "list_count lh g = (case heads (heap g) lh of None \<Rightarrow> 0 | Some h \<Rightarrow> nat (linknode_count h))"

definition added :: "(globals \<Rightarrow> addr) \<Rightarrow> globals \<Rightarrow> globals \<Rightarrow> nat" where
  \<comment> \<open>how many messages a handler has put in a list: it signals once for each\<close>
  "added lh g g' = list_count (lh g') g' - list_count (lh g) g"

text \<open>A wait is entered only with an empty list, so the mutex is not part of the state.\<close>

inductive wstep :: "wsys \<Rightarrow> wsys \<Rightarrow> bool" where
  receive: "ev \<notin> range Process \<Longrightarrow> ev \<noteq> Send \<Longrightarrow> room_for 1 (gl w) \<Longrightarrow> handle ev (gl w) = Inr g' \<Longrightarrow>
    wstep w (w\<lparr>gl := g', r_sig := r_sig w + added G_recv_linklist (gl w) g'\<rparr>)"
| r_signal: "0 < r_sig w \<Longrightarrow>
    wstep w (w\<lparr>r_sig := r_sig w - 1, dp := signal_one (dp w), r_missed := r_missed w \<or> dp w = Checked\<rparr>)"
| dp_test: "dp w = Top \<Longrightarrow> s_sig w = 0 \<Longrightarrow>
    is_singlelinklist_empty (G_recv_linklist (gl w)) (heap (gl w)) = Inr e \<Longrightarrow>
    wstep w (w\<lparr>dp := (if e \<noteq> 0 then Checked else Woken), r_missed := False\<rparr>)"
| dp_wait: "dp w = Checked \<Longrightarrow> wstep w (w\<lparr>dp := Waiting\<rparr>)"
| dp_spurious: "dp w = Waiting \<Longrightarrow> wstep w (w\<lparr>dp := Woken\<rparr>)"
| dp_iterate: "dp w = Woken \<Longrightarrow> valid_tm t \<Longrightarrow> room_for 1 (gl w) \<Longrightarrow> data_process t (gl w) = Inr g' \<Longrightarrow>
    wstep w (w\<lparr>gl := g', dp := Top, s_sig := s_sig w + added G_send_linklist (gl w) g'\<rparr>)"
| s_signal: "0 < s_sig w \<Longrightarrow>
    wstep w (w\<lparr>s_sig := s_sig w - 1, so := signal_one (so w), s_missed := s_missed w \<or> so w = Checked\<rparr>)"
| so_test: "so w = Top \<Longrightarrow> is_singlelinklist_empty (G_send_linklist (gl w)) (heap (gl w)) = Inr e \<Longrightarrow>
    wstep w (w\<lparr>so := (if e \<noteq> 0 then Checked else Woken), s_missed := False\<rparr>)"
| so_wait: "so w = Checked \<Longrightarrow> wstep w (w\<lparr>so := Waiting\<rparr>)"
| so_spurious: "so w = Waiting \<Longrightarrow> wstep w (w\<lparr>so := Woken\<rparr>)"
| so_iterate: "so w = Woken \<Longrightarrow> room_for 1 (gl w) \<Longrightarrow> send_out_handler (gl w) = Inr g' \<Longrightarrow>
    wstep w (w\<lparr>gl := g', so := Top\<rparr>)"

definition wstart :: "globals \<Rightarrow> wsys" where
  "wstart g = \<lparr>gl = g, dp = Top, so = Top, r_sig = 0, s_sig = 0, r_missed = False, s_missed = False\<rparr>"

definition wreach :: "globals \<Rightarrow> wsys \<Rightarrow> bool" where
  "wreach g w \<longleftrightarrow> wstep\<^sup>*\<^sup>* (wstart g) w"

subsection \<open>The lists as the tests see them\<close>

lemma sys_counts:
  assumes "sys_ok g sr rs ss sn"
  shows "list_count (G_recv_linklist g) g = length (recv_msgs g)"
    and "list_count (G_send_linklist g) g = length (send_msgs g)"
    and "is_singlelinklist_empty (G_recv_linklist g) (heap g) = Inr (if recv_msgs g = [] then 1 else 0)"
    and "is_singlelinklist_empty (G_send_linklist g) (heap g) = Inr (if send_msgs g = [] then 1 else 0)"
  using assms sys_ok_msgs(2,3) [OF assms]
  by (simp_all add: list_count_def sys_ok_def chan_ok_def ll_shape_def is_singlelinklist_empty_def deref_def)

lemma handle_lists:
  assumes "sys_ok g sr rs ss sn" and "handle ev g = Inr g'" and "event_ok ev"
    and "mem_for 3 g" and "room_for 1 g"
  obtains rs' sn' where "sys_ok g' sr rs' ss sn'"
    "recv_msgs g' = v_recv (spec_step (G_uartfd g) (G_pipefd g) ev (view_of g))"
    "send_msgs g' = v_send (spec_step (G_uartfd g) (G_pipefd g) ev (view_of g))"
    "oom (heap g') = oom (heap g)" "G_uartfd g' = G_uartfd g" "G_pipefd g' = G_pipefd g"
proof -
  from handle_sys [OF assms(1,3,4,5)] assms(2) obtain rs' sn' where
    *: "sys_ok g' sr rs' ss sn'" "view_of g' = spec_step (G_uartfd g) (G_pipefd g) ev (view_of g)"
    "oom (heap g') = oom (heap g)" "G_uartfd g' = G_uartfd g" "G_pipefd g' = G_pipefd g" by auto
  show ?thesis
    by (rule that [OF *(1) _ _ *(3-5)]) (unfold *(2) [symmetric], simp_all add: view_of_def)
qed

subsection \<open>The invariant\<close>

text \<open>
  As long as no signal has come between test and wait, a consumer that has seen its list
  empty, or waits, has at most as many messages in its list as there are signals to come.
\<close>

definition winv :: "wsys \<Rightarrow> bool" where
  "winv w \<longleftrightarrow>
     sys_inv (gl w) \<and> (\<forall>n. \<not> oom (heap (gl w)) n) \<and>
     (dp w \<in> {Checked, Waiting} \<and> \<not> r_missed w \<longrightarrow> length (recv_msgs (gl w)) \<le> r_sig w) \<and>
     (so w \<in> {Checked, Waiting} \<and> \<not> s_missed w \<longrightarrow> length (send_msgs (gl w)) \<le> s_sig w)"

lemma handle_same_lists:
  assumes "handle ev g = Inr g'" and "sys_inv g" and "event_ok ev" and "\<forall>n. \<not> oom (heap g) n" and "room_for 1 g"
  shows "sys_inv g' \<and> oom (heap g') = oom (heap g) \<and>
     recv_msgs g' = v_recv (spec_step (G_uartfd g) (G_pipefd g) ev (view_of g)) \<and>
     send_msgs g' = v_send (spec_step (G_uartfd g) (G_pipefd g) ev (view_of g)) \<and>
     G_uartfd g' = G_uartfd g \<and> G_pipefd g' = G_pipefd g \<and>
     list_count (G_recv_linklist g) g = length (recv_msgs g) \<and>
     list_count (G_send_linklist g) g = length (send_msgs g) \<and>
     list_count (G_recv_linklist g') g' = length (recv_msgs g') \<and>
     list_count (G_send_linklist g') g' = length (send_msgs g')"
proof -
  obtain sr rs ss sn where ok: "sys_ok g sr rs ss sn" by (rule sys_invE [OF assms(2)])
  have "mem_for 3 g" using assms(4) by (simp add: mem_for_def)
  from handle_lists [OF ok assms(1,3) this assms(5)] obtain rs' sn' where
    ok': "sys_ok g' sr rs' ss sn'" and
    "recv_msgs g' = v_recv (spec_step (G_uartfd g) (G_pipefd g) ev (view_of g))"
    "send_msgs g' = v_send (spec_step (G_uartfd g) (G_pipefd g) ev (view_of g))"
    "oom (heap g') = oom (heap g)" "G_uartfd g' = G_uartfd g" "G_pipefd g' = G_pipefd g" .
  then show ?thesis using sys_counts(1,2) [OF ok] sys_counts(1,2) [OF ok'] sys_ok_msgs(1) [OF ok'] by simp
qed

lemma receive_lists:
  assumes "handle ev g = Inr g'" and "ev \<notin> range Process" and "ev \<noteq> Send"
    and "sys_inv g" and "\<forall>n. \<not> oom (heap g) n" and "room_for 1 g"
  shows "sys_inv g' \<and> oom (heap g') = oom (heap g) \<and> send_msgs g' = send_msgs g \<and>
     recv_msgs g' = recv_msgs g @ arrival (G_uartfd g) (G_pipefd g) ev \<and>
     length (recv_msgs g') = length (recv_msgs g) + added G_recv_linklist g g'"
proof -
  have "event_ok ev" using assms(2) by (cases ev) auto
  from handle_same_lists [OF assms(1,4) this assms(5,6)] assms(2,3) show ?thesis
    by (cases ev) (auto simp: added_def view_of_def)
qed

lemma process_lists:
  assumes "data_process t g = Inr g'" and "valid_tm t"
    and "sys_inv g" and "\<forall>n. \<not> oom (heap g) n" and "room_for 1 g"
  shows "sys_inv g' \<and> oom (heap g') = oom (heap g) \<and> recv_msgs g' = tl (recv_msgs g) \<and>
     length (send_msgs g') = length (send_msgs g) + added G_send_linklist g g' \<and>
     added G_send_linklist g g' \<le> 1"
proof -
  have "handle (Process t) g = Inr g'" "event_ok (Process t)" using assms(1,2) by simp_all
  from handle_same_lists [OF this(1) assms(3) this(2) assms(4,5)] show ?thesis
    using response_length [of "G_uartfd g" "G_pipefd g" t "hd (recv_msgs g)"]
    by (cases "recv_msgs g") (auto simp: added_def view_of_def)
qed

lemma send_lists:
  assumes "send_out_handler g = Inr g'"
    and "sys_inv g" and "\<forall>n. \<not> oom (heap g) n" and "room_for 1 g"
  shows "sys_inv g' \<and> oom (heap g') = oom (heap g) \<and> recv_msgs g' = recv_msgs g \<and>
     send_msgs g' = tl (send_msgs g)"
proof -
  have "handle Send g = Inr g'" "event_ok Send" using assms(1) by simp_all
  from handle_same_lists [OF this(1) assms(2) this(2) assms(3,4)] show ?thesis
    by (cases "send_msgs g") (auto simp: view_of_def)
qed

lemma signal_one_cases [simp]:
  "signal_one c = Checked \<longleftrightarrow> c = Checked" "signal_one c \<noteq> Waiting" "signal_one c = Top \<longleftrightarrow> c = Top"
  by (cases c; simp add: signal_one_def)+

lemma sys_inv_counts:
  assumes "sys_inv g"
  shows "is_singlelinklist_empty (G_recv_linklist g) (heap g) = Inr (if recv_msgs g = [] then 1 else 0)"
    and "is_singlelinklist_empty (G_send_linklist g) (heap g) = Inr (if send_msgs g = [] then 1 else 0)"
  using sys_counts(3,4) sys_invE [OF assms] by metis+

lemma winv_step:
  assumes "wstep w w'" and "winv w"
  shows "winv w'"
  using assms
proof (induction rule: wstep.induct)
  case (receive ev w g')
  then have I: "sys_inv (gl w)" "\<forall>n. \<not> oom (heap (gl w)) n" by (simp_all add: winv_def)
  from receive_lists [OF receive(4,1,2) I receive(3)] receive(5) I(2) show ?case
    by (auto simp: winv_def)
next
  case (r_signal w)
  then show ?case by (auto simp: winv_def)
next
  case (dp_test w e)
  then show ?case using sys_inv_counts(1) [of "gl w"] by (auto simp: winv_def split: if_splits)
next
  case (dp_wait w)
  then show ?case by (auto simp: winv_def)
next
  case (dp_spurious w)
  then show ?case by (auto simp: winv_def)
next
  case (dp_iterate w t g')
  then have I: "sys_inv (gl w)" "\<forall>n. \<not> oom (heap (gl w)) n" by (simp_all add: winv_def)
  from process_lists [OF dp_iterate(4,2) I dp_iterate(3)] dp_iterate(5) I(2) show ?case
    by (auto simp: winv_def)
next
  case (s_signal w)
  then show ?case by (auto simp: winv_def)
next
  case (so_test w e)
  then show ?case using sys_inv_counts(2) [of "gl w"] by (auto simp: winv_def split: if_splits)
next
  case (so_wait w)
  then show ?case by (auto simp: winv_def)
next
  case (so_spurious w)
  then show ?case by (auto simp: winv_def)
next
  case (so_iterate w g')
  then have I: "sys_inv (gl w)" "\<forall>n. \<not> oom (heap (gl w)) n" by (simp_all add: winv_def)
  from send_lists [OF so_iterate(3) I so_iterate(2)] so_iterate(4) I(2) show ?case
    by (auto simp: winv_def)
qed

interpretation consumers: invariant_steps wstep winv
  by unfold_locales (rule winv_step)

lemma winv_reach:
  assumes "wreach g w" and "sys_inv g" and "\<forall>n. \<not> oom (heap g) n"
  shows "winv w"
proof -
  have "winv (wstart g)" using assms(2,3) by (simp add: winv_def wstart_def)
  with assms(1) show ?thesis unfolding wreach_def by (rule consumers.inv_steps)
qed

subsection \<open>Catching up\<close>

lemma process_step:
  assumes "winv w" and "dp w = Woken" and "valid_tm t" and "room_for 1 (gl w)"
  obtains w' where "wstep w w'" "dp w' = Top"
    "recv_msgs (gl w') = tl (recv_msgs (gl w))"
    "send_msgs (gl w') = send_msgs (gl w) @
       (case recv_msgs (gl w) of [] \<Rightarrow> [] | x # _ \<Rightarrow> response (G_uartfd (gl w)) (G_pipefd (gl w)) t x)"
    "G_uartfd (gl w') = G_uartfd (gl w)" "G_pipefd (gl w') = G_pipefd (gl w)"
proof -
  from assms(1) have I: "sys_inv (gl w)" "\<forall>n. \<not> oom (heap (gl w)) n" by (simp_all add: winv_def)
  obtain sr rs ss sn where ok: "sys_ok (gl w) sr rs ss sn" by (rule sys_invE [OF I(1)])
  have ev: "event_ok (Process t)" "mem_for 3 (gl w)" using assms(3) I(2) by (simp_all add: mem_for_def)
  from handle_sys [OF ok ev assms(4)] obtain g' where g': "handle (Process t) (gl w) = Inr g'" by blast
  let ?w = "w\<lparr>gl := g', dp := Top, s_sig := s_sig w + added G_send_linklist (gl w) g'\<rparr>"
  have "wstep w ?w" by (rule dp_iterate [OF assms(2-4)]) (use g' in simp)
  moreover note handle_same_lists [OF g' I(1) ev(1) I(2) assms(4)]
  ultimately show ?thesis
    by (intro that [of ?w]) (auto simp: view_of_def split: list.splits)
qed

text \<open>The signals of the parser to the sender can always be given, one after the other.\<close>

definition quiet_step :: "wsys \<Rightarrow> wsys \<Rightarrow> bool" where
  "quiet_step w w' \<longleftrightarrow>
     wstep w w' \<and> gl w' = gl w \<and> dp w' = dp w \<and> r_sig w' = r_sig w \<and> (so w = Top \<longrightarrow> so w' = Top)"

interpretation signals: draining_steps quiet_step "\<lambda>w. winv w \<and> gl w = g \<and> dp w = d \<and> (top \<longrightarrow> so w = Top)"
    s_sig for g d top
proof
  let ?inv = "\<lambda>w. winv w \<and> gl w = g \<and> dp w = d \<and> (top \<longrightarrow> so w = Top)"
  show "quiet_step w w' \<Longrightarrow> ?inv w \<Longrightarrow> ?inv w'" for w w'
    using winv_step by (auto simp: quiet_step_def)
  show "0 < s_sig w \<Longrightarrow> \<exists>w'. quiet_step w w' \<and> s_sig w' < s_sig w" for w
    using s_signal [of w] unfolding quiet_step_def
    by (intro exI [of _ "w\<lparr>s_sig := s_sig w - 1, so := signal_one (so w), s_missed := s_missed w \<or> so w = Checked\<rparr>"])
      simp
qed

lemma signal_all:
  assumes "winv w"
  obtains w' where "quiet_step\<^sup>*\<^sup>* w w'" "wstep\<^sup>*\<^sup>* w w'" "winv w'" "s_sig w' = 0" "gl w' = gl w" "dp w' = dp w"
    "so w = Top \<longrightarrow> so w' = Top"
proof -
  from signals.drained [of w "gl w" "dp w" "so w = Top"] assms obtain w' where
    w': "quiet_step\<^sup>*\<^sup>* w w'" "winv w'" "gl w' = gl w" "dp w' = dp w" "so w = Top \<longrightarrow> so w' = Top" "s_sig w' = 0"
    by blast
  have "quiet_step \<le> wstep" by (auto simp: quiet_step_def)
  then have "wstep\<^sup>*\<^sup>* w w'" using w'(1) rtranclp_mono by blast
  with w' show ?thesis by (intro that)
qed

text \<open>A step while both consumers are awake: neither waits or is about to, no message arrives, and no
  receive handler signals; a signal of the parser finds nobody to wake.\<close>

definition awake :: "wsys \<Rightarrow> bool" where
  "awake w \<longleftrightarrow> dp w \<in> {Top, Woken} \<and> so w \<in> {Top, Woken}"

definition awake_step :: "wsys \<Rightarrow> wsys \<Rightarrow> bool" where
  "awake_step w w' \<longleftrightarrow>
     wstep w w' \<and> awake w \<and> awake w' \<and> r_sig w' = r_sig w \<and>
     length (recv_msgs (gl w')) \<le> length (recv_msgs (gl w))"

lemma quiet_awake:
  assumes "quiet_step\<^sup>*\<^sup>* w w'" and "dp w = Top" and "so w = Top"
  shows "awake_step\<^sup>*\<^sup>* w w' \<and> dp w' = Top \<and> so w' = Top"
  using assms(1)
proof (induction rule: rtranclp_induct)
  case base
  show ?case using assms(2,3) by simp
next
  case (step y z)
  then have "awake_step y z" "dp z = Top" "so z = Top" by (auto simp: quiet_step_def awake_step_def awake_def)
  with step.IH show ?case by (meson rtranclp.rtrancl_into_rtrancl)
qed

lemma catch_up_top:
  assumes "winv w" and "dp w = Top" and "valid_tm t"
    and "int (length (recv_msgs (gl w)) + length (send_msgs (gl w))) < INT_MAX"
  shows "\<exists>w'. wstep\<^sup>*\<^sup>* w w' \<and> recv_msgs (gl w') = [] \<and>
     send_msgs (gl w') = send_msgs (gl w) @
       concat (map (response (G_uartfd (gl w)) (G_pipefd (gl w)) t) (recv_msgs (gl w)))"
  using assms
proof (induction "recv_msgs (gl w)" arbitrary: w)
  case Nil
  then show ?case by auto
next
  case (Cons x xs)
  obtain w1 where w1: "wstep\<^sup>*\<^sup>* w w1" "winv w1" "s_sig w1 = 0" "gl w1 = gl w" "dp w1 = dp w"
    by (rule signal_all [OF Cons.prems(1)])
  let ?w2 = "w1\<lparr>dp := Woken, r_missed := False\<rparr>"
  have "sys_inv (gl w1)" using w1(2) by (simp add: winv_def)
  from sys_inv_counts(1) [OF this] have "is_singlelinklist_empty (G_recv_linklist (gl w1)) (heap (gl w1)) = Inr 0"
    using Cons.hyps(2) w1(4) by (metis list.distinct(1))
  from dp_test [of w1, OF _ w1(3) this] have st: "wstep w1 ?w2" using w1(5) Cons.prems(2) by simp
  have i2: "winv ?w2" by (rule winv_step [OF st w1(2)])
  have room: "room_for 1 (gl ?w2)" using Cons.prems(4) Cons.hyps(2) [symmetric] w1(4)
    by (simp add: room_for_def)
  obtain w3 where w3: "wstep ?w2 w3" "dp w3 = Top" "recv_msgs (gl w3) = xs"
    "send_msgs (gl w3) = send_msgs (gl w) @ response (G_uartfd (gl w)) (G_pipefd (gl w)) t x"
    "G_uartfd (gl w3) = G_uartfd (gl w)" "G_pipefd (gl w3) = G_pipefd (gl w)"
    by (rule process_step [OF i2 _ Cons.prems(3) room]) (use Cons.hyps(2) [symmetric] w1(4) in auto)
  have i3: "winv w3" by (rule winv_step [OF w3(1) i2])
  have "int (length (recv_msgs (gl w3)) + length (send_msgs (gl w3))) < INT_MAX"
    using Cons.prems(4) Cons.hyps(2) [symmetric] w3(3,4)
      response_length [of "G_uartfd (gl w)" "G_pipefd (gl w)" t x] by simp
  from Cons.hyps(1) [OF w3(3) [symmetric] i3 w3(2) Cons.prems(3) this] obtain w' where
    w': "wstep\<^sup>*\<^sup>* w3 w'" "recv_msgs (gl w') = []"
    "send_msgs (gl w') = send_msgs (gl w3) @
       concat (map (response (G_uartfd (gl w3)) (G_pipefd (gl w3)) t) (recv_msgs (gl w3)))" by blast
  have "wstep\<^sup>*\<^sup>* w w'"
    using w1(1) st w3(1) w'(1) by (meson rtranclp.rtrancl_into_rtrancl rtranclp_trans)
  then show ?case using w'(2,3) w3(3-6) Cons.hyps(2) [symmetric] by (intro exI [of _ w']) simp
qed

subsection \<open>A signal between test and wait\<close>

text \<open>The parser tests, a message arrives, its handler signals, and only then does the parser wait.\<close>

lemma signal_in_window:
  obtains g w where "boot 3 4 (\<lambda>_. False) = Inr g" "wreach g w" "dp w = Waiting" "r_sig w = 0"
    "recv_msgs (gl w) = [\<lparr>m_bytes = ''usb'', m_fd = 4, m_to = 0\<rparr>]"
proof -
  from boot_sys [of "\<lambda>_. False" 3 4] obtain g where
    g: "boot 3 4 (\<lambda>_. False) = Inr g" "sys_ok g 1 [] 3 []" "recv_msgs g = []" "send_msgs g = []"
    "G_uartfd g = 3" "G_pipefd g = 4" "oom (heap g) = (\<lambda>_. False)" by auto
  let ?ev = "Pipe_readable (Some ''usb'')"
  have inv: "sys_inv g" by (rule sys_ok_msgs(1) [OF g(2)])
  have rm: "room_for 1 g" using g(3,4) by (simp add: room_for_def INT_MAX_def)
  have "event_ok ?ev" "mem_for 3 g" using g(7) by (simp_all add: mem_for_def)
  from handle_sys [OF g(2) this rm] obtain g' where g': "handle ?ev g = Inr g'" by blast
  have ne: "?ev \<notin> range Process" "?ev \<noteq> Send" by auto
  from receive_lists [OF g' ne inv _ rm] g(3,5-7) have
    L: "recv_msgs g' = [\<lparr>m_bytes = ''usb'', m_fd = 4, m_to = 0\<rparr>]" "added G_recv_linklist g g' = 1"
    by (auto simp: received_def chunk_def)
  define w1 where "w1 = (wstart g)\<lparr>dp := Checked\<rparr>"
  define w2 where "w2 = w1\<lparr>gl := g', r_sig := 1\<rparr>"
  define w3 where "w3 = w2\<lparr>r_sig := 0, r_missed := True\<rparr>"
  define w4 where "w4 = w3\<lparr>dp := Waiting\<rparr>"
  have s1: "wstep (wstart g) w1"
    using dp_test [of "wstart g" 1] sys_inv_counts(1) [OF inv] g(3) by (simp add: w1_def wstart_def)
  have s2: "wstep w1 w2"
    using receive [of ?ev w1 g'] ne rm g' L(2) by (simp add: w1_def w2_def wstart_def)
  have s3: "wstep w2 w3"
    using r_signal [of w2] by (simp add: w1_def w2_def w3_def wstart_def signal_one_def)
  have s4: "wstep w3 w4"
    using dp_wait [of w3] by (simp add: w1_def w2_def w3_def w4_def wstart_def)
  have "wreach g w4" unfolding wreach_def
    by (meson s1 s2 s3 s4 rtranclp.rtrancl_into_rtrancl rtranclp.rtrancl_refl)
  with g(1) L(1) show ?thesis by (intro that [of g w4]) (simp_all add: w1_def w2_def w3_def w4_def)
qed

subsection \<open>Properties\<close>

text \<open>C7: a wake-up can be lost: a run from the start in which a message arrives and its handler
  signals between the test of the parser and its wait ends with the parser waiting, a
  message in its list, and no signal to come.\<close>

theorem wakeup_lost:
  "\<exists>g w. boot 3 4 (\<lambda>_. False) = Inr g \<and> wreach g w \<and> dp w = Waiting \<and> r_sig w = 0 \<and>
     recv_msgs (gl w) = [\<lparr>m_bytes = ''usb'', m_fd = 4, m_to = 0\<rparr>]"
  using signal_in_window by metis

text \<open>C5: it is the only way: in every reachable state, a consumer that waits (or is about to)
  while its list is not empty has either missed a signal between its test and its wait, or
  there is a signal still to come.\<close>

theorem wakeup_lost_only_in_window:
  assumes "boot u p (\<lambda>_. False) = Inr g" and "wreach g w"
  shows "(dp w \<in> {Checked, Waiting} \<and> recv_msgs (gl w) \<noteq> [] \<longrightarrow> r_missed w \<or> 0 < r_sig w) \<and>
     (so w \<in> {Checked, Waiting} \<and> send_msgs (gl w) \<noteq> [] \<longrightarrow> s_missed w \<or> 0 < s_sig w)"
proof -
  from boot_sys [of "\<lambda>_. False" u p] assms(1) have "sys_inv g" "\<forall>n. \<not> oom (heap g) n"
    by (auto intro: sys_ok_msgs(1))
  from winv_reach [OF assms(2) this] show ?thesis
    by (auto simp: winv_def simp del: length_greater_0_conv intro: gr0I)
qed

text \<open>From every reachable state in which it is at the head of its loop, the parser can handle all
  pending messages, and every answer is queued in order.\<close>

theorem parser_catches_up:
  assumes "boot u p (\<lambda>_. False) = Inr g" and "wreach g w" and "dp w = Top" and "valid_tm t"
    and "int (length (recv_msgs (gl w)) + length (send_msgs (gl w))) < INT_MAX"
  shows "\<exists>w'. wstep\<^sup>*\<^sup>* w w' \<and> recv_msgs (gl w') = [] \<and>
     send_msgs (gl w') = send_msgs (gl w) @
       concat (map (response (G_uartfd (gl w)) (G_pipefd (gl w)) t) (recv_msgs (gl w)))"
proof -
  from boot_sys [of "\<lambda>_. False" u p] assms(1) have "sys_inv g" "\<forall>n. \<not> oom (heap g) n"
    by (auto intro: sys_ok_msgs(1))
  from catch_up_top [OF winv_reach [OF assms(2) this] assms(3-5)] show ?thesis .
qed

lemma boot_start:
  obtains g where "boot 3 4 (\<lambda>_. False) = Inr g" "wreach g (wstart g)"
    "recv_msgs g = []" "send_msgs g = []"
  using boot_sys [of "\<lambda>_. False" 3 4] by (auto simp: wreach_def)

lemma wakeup_lost_only_in_window_witness:
  "\<exists>g w. boot 3 4 (\<lambda>_. False) = Inr g \<and> wreach g w \<and> dp w = Waiting \<and>
     recv_msgs (gl w) = [\<lparr>m_bytes = ''usb'', m_fd = 4, m_to = 0\<rparr>] \<and> r_sig w = 0 \<and> r_missed w"
proof -
  obtain g w where w: "boot 3 4 (\<lambda>_. False) = Inr g" "wreach g w" "dp w = Waiting" "r_sig w = 0"
    "recv_msgs (gl w) = [\<lparr>m_bytes = ''usb'', m_fd = 4, m_to = 0\<rparr>]" by (rule signal_in_window)
  from wakeup_lost_only_in_window [OF w(1,2)] w(3-5) have "r_missed w" by simp
  with w show ?thesis by blast
qed

lemma parser_catches_up_witness:
  "\<exists>g w'. boot 3 4 (\<lambda>_. False) = Inr g \<and> wstep\<^sup>*\<^sup>* (wstart g) w' \<and> recv_msgs (gl w') = []"
proof -
  obtain g where g: "boot 3 4 (\<lambda>_. False) = Inr g" "wreach g (wstart g)"
    "recv_msgs g = []" "send_msgs g = []" by (rule boot_start)
  have t: "valid_tm \<lparr>tm_sec = 0, tm_min = 0, tm_hour = 0, tm_mday = 1, tm_mon = 0, tm_year = 100, tm_wday = 6\<rparr>"
    by (simp add: valid_tm_def)
  have "dp (wstart g) = Top" by (simp add: wstart_def)
  from parser_catches_up [OF g(1,2) this t] g show ?thesis by (auto simp: wstart_def INT_MAX_def)
qed

end
