(* ===== verification/Thread_Runs.thy ===== *)
theory Thread_Runs
  imports Message_Types Wake_Up
begin

text \<open>
  The two consumer threads as \<^verbatim>\<open>Wake_Up\<close> has them, from \<open>main\<close> on: every reachable state is that
  after a run of the handlers, so all that \<^verbatim>\<open>Daemon\<close> says of runs holds of the threads; and from
  a state in which neither is asleep the two can finish all pending work.
\<close>

subsection \<open>Runs of the threads\<close>

text \<open>Tests, waits, wake-ups and signals change no data: what the threads have done to the global
  state is a run of the handlers.\<close>

definition thread_trace :: "globals \<Rightarrow> event list \<Rightarrow> wsys \<Rightarrow> bool" where
  "thread_trace g evs w \<longleftrightarrow>
     list_all event_ok evs \<and> run evs g = Inr (gl w) \<and> G_uartfd (gl w) = G_uartfd g \<and> G_pipefd (gl w) = G_pipefd g \<and>
     view_of (gl w) = fold (spec_step (G_uartfd g) (G_pipefd g)) evs (view_of g)"

lemma run_snoc: "run (evs @ [ev]) g = bind_ok (run evs g) (handle ev)"
proof (induction evs arbitrary: g)
  case Nil
  show ?case by (cases "handle ev g") simp_all
next
  case (Cons a evs)
  show ?case by (cases "handle a g") (simp_all add: Cons.IH)
qed

lemma trace_handle:
  assumes "thread_trace g evs w" and "winv w" and "handle ev (gl w) = Inr g'" and "event_ok ev"
    and "room_for 1 (gl w)" and "gl w' = g'"
  shows "thread_trace g (evs @ [ev]) w'"
proof -
  from assms(2) have I: "sys_inv (gl w)" "\<forall>n. \<not> oom (heap (gl w)) n" by (simp_all add: winv_def)
  obtain sr rs ss sn where ok: "sys_ok (gl w) sr rs ss sn" by (rule sys_invE [OF I(1)])
  have "mem_for 3 (gl w)" using I(2) by (simp add: mem_for_def)
  from handle_sys [OF ok assms(4) this assms(5)] assms(3) have
    "view_of g' = spec_step (G_uartfd (gl w)) (G_pipefd (gl w)) ev (view_of (gl w))"
    "G_uartfd g' = G_uartfd (gl w)" "G_pipefd g' = G_pipefd (gl w)" by auto
  with assms(1,3,4,6) show ?thesis by (simp add: thread_trace_def run_snoc)
qed

lemma trace_step:
  assumes "wstep w w'" and "winv w" and "thread_trace g evs w"
  shows "\<exists>evs'. thread_trace g evs' w'"
  using assms
proof (induction rule: wstep.induct)
  case (receive ev w g')
  have "event_ok ev" using receive(1) by (cases ev) auto
  from trace_handle [OF receive(6,5,4) this receive(3)] show ?case by (intro exI [of _ "evs @ [ev]"]) simp
next
  case (dp_iterate w t g')
  have "handle (Process t) (gl w) = Inr g'" "event_ok (Process t)" using dp_iterate(2,4) by simp_all
  from trace_handle [OF dp_iterate(6,5) this dp_iterate(3)] show ?case
    by (intro exI [of _ "evs @ [Process t]"]) simp
next
  case (so_iterate w g')
  have "handle Send (gl w) = Inr g'" "event_ok Send" using so_iterate(3) by simp_all
  from trace_handle [OF so_iterate(5,4) this so_iterate(2)] show ?case
    by (intro exI [of _ "evs @ [Send]"]) simp
qed (auto simp: thread_trace_def)

interpretation traced: invariant_steps wstep "\<lambda>w. winv w \<and> (\<exists>evs. thread_trace g evs w)" for g
  by unfold_locales (blast intro: winv_step dest: trace_step)

subsection \<open>Catching up\<close>

text \<open>One turn of a consumer that is at the head of its loop and has something to do.\<close>

lemma turn_view:
  assumes "winv w" and "handle ev (gl w) = Inr g'" and "event_ok ev" and "room_for 1 (gl w)"
  shows "view_of g' = spec_step (G_uartfd (gl w)) (G_pipefd (gl w)) ev (view_of (gl w)) \<and>
     G_uartfd g' = G_uartfd (gl w) \<and> G_pipefd g' = G_pipefd (gl w)"
proof -
  from assms(1) have I: "sys_inv (gl w)" "\<forall>n. \<not> oom (heap (gl w)) n" by (simp_all add: winv_def)
  obtain sr rs ss sn where ok: "sys_ok (gl w) sr rs ss sn" by (rule sys_invE [OF I(1)])
  have "mem_for 3 (gl w)" using I(2) by (simp add: mem_for_def)
  from handle_sys [OF ok assms(3) this assms(4)] assms(2) show ?thesis by auto
qed

definition turn :: "event \<Rightarrow> wsys \<Rightarrow> wsys \<Rightarrow> bool" where
  \<comment> \<open>both consumers are at the head of their loops again, and \<open>ev\<close> has been executed\<close>
  "turn ev w w' \<longleftrightarrow> awake_step\<^sup>*\<^sup>* w w' \<and> winv w' \<and> dp w' = Top \<and> so w' = Top \<and>
     view_of (gl w') = spec_step (G_uartfd (gl w)) (G_pipefd (gl w)) ev (view_of (gl w)) \<and>
     G_uartfd (gl w') = G_uartfd (gl w) \<and> G_pipefd (gl w') = G_pipefd (gl w)"

lemma handle_runs:
  assumes "winv w" and "event_ok ev" and "room_for 1 (gl w)"
  obtains g' where "handle ev (gl w) = Inr g'"
proof -
  from assms(1) have I: "sys_inv (gl w)" "\<forall>n. \<not> oom (heap (gl w)) n" by (simp_all add: winv_def)
  obtain sr rs ss sn where ok: "sys_ok (gl w) sr rs ss sn" by (rule sys_invE [OF I(1)])
  have "mem_for 3 (gl w)" using I(2) by (simp add: mem_for_def)
  from handle_sys [OF ok assms(2) this assms(3)] that show ?thesis by blast
qed

lemma parser_turn:
  assumes "winv w" and "dp w = Top" and "so w = Top" and "recv_msgs (gl w) \<noteq> []"
    and "valid_tm t" and "room_for 1 (gl w)"
  shows "\<exists>w'. turn (Process t) w w'"
proof -
  obtain w1 where w1: "quiet_step\<^sup>*\<^sup>* w w1" "winv w1" "s_sig w1 = 0" "gl w1 = gl w" "dp w1 = dp w"
    "so w = Top \<longrightarrow> so w1 = Top" by (rule signal_all [OF assms(1)])
  from quiet_awake [OF w1(1) assms(2,3)] have a1: "awake_step\<^sup>*\<^sup>* w w1" "so w1 = Top" by simp_all
  let ?w2 = "w1\<lparr>dp := Woken, r_missed := False\<rparr>"
  have "sys_inv (gl w1)" using w1(2) by (simp add: winv_def)
  from sys_inv_counts(1) [OF this] have "is_singlelinklist_empty (G_recv_linklist (gl w1)) (heap (gl w1)) = Inr 0"
    using assms(4) w1(4) by simp
  from dp_test [of w1, OF _ w1(3) this] have s2: "wstep w1 ?w2" using w1(5) assms(2) by simp
  have i2: "winv ?w2" by (rule winv_step [OF s2 w1(2)])
  have ev: "event_ok (Process t)" "room_for 1 (gl ?w2)" using assms(5,6) w1(4) by simp_all
  obtain g' where g': "handle (Process t) (gl ?w2) = Inr g'" by (rule handle_runs [OF i2 ev])
  let ?w3 = "?w2\<lparr>gl := g', dp := Top, s_sig := s_sig ?w2 + added G_send_linklist (gl ?w2) g'\<rparr>"
  have s3: "wstep ?w2 ?w3" by (rule dp_iterate [OF _ assms(5) ev(2)]) (use g' in simp_all)
  note tv = turn_view [OF i2 g' ev]
  have "length (recv_msgs g') \<le> length (recv_msgs (gl w1))"
    using tv by (auto simp: view_of_def split: list.splits)
  then have "awake_step w1 ?w2" "awake_step ?w2 ?w3"
    using s2 s3 w1(5) assms(2) a1(2) by (simp_all add: awake_step_def awake_def)
  with a1(1) have "awake_step\<^sup>*\<^sup>* w ?w3" by (meson rtranclp.rtrancl_into_rtrancl)
  moreover have "winv ?w3" by (rule winv_step [OF s3 i2])
  moreover note tv
  ultimately show ?thesis using w1(4,6) assms(3) by (intro exI [of _ ?w3]) (simp add: turn_def)
qed

lemma sender_turn:
  assumes "winv w" and "dp w = Top" and "so w = Top" and "send_msgs (gl w) \<noteq> []" and "room_for 1 (gl w)"
  shows "\<exists>w'. turn Send w w'"
proof -
  let ?w2 = "w\<lparr>so := Woken, s_missed := False\<rparr>"
  have "sys_inv (gl w)" using assms(1) by (simp add: winv_def)
  from sys_inv_counts(2) [OF this] have "is_singlelinklist_empty (G_send_linklist (gl w)) (heap (gl w)) = Inr 0"
    using assms(4) by simp
  from so_test [of w, OF assms(3) this] have s2: "wstep w ?w2" by simp
  have i2: "winv ?w2" by (rule winv_step [OF s2 assms(1)])
  have ev: "event_ok Send" "room_for 1 (gl ?w2)" using assms(5) by simp_all
  obtain g' where g': "handle Send (gl ?w2) = Inr g'" by (rule handle_runs [OF i2 ev])
  let ?w3 = "?w2\<lparr>gl := g', so := Top\<rparr>"
  have s3: "wstep ?w2 ?w3" by (rule so_iterate [OF _ ev(2)]) (use g' in simp_all)
  note tv = turn_view [OF i2 g' ev]
  have "length (recv_msgs g') \<le> length (recv_msgs (gl w))"
    using tv by (auto simp: view_of_def split: list.splits)
  then have "awake_step w ?w2" "awake_step ?w2 ?w3"
    using s2 s3 assms(2,3) by (simp_all add: awake_step_def awake_def)
  then have "awake_step\<^sup>*\<^sup>* w ?w3" by (meson rtranclp.rtrancl_into_rtrancl rtranclp.rtrancl_refl)
  moreover have "winv ?w3" by (rule winv_step [OF s3 i2])
  moreover note tv
  ultimately show ?thesis using assms(2) by (intro exI [of _ ?w3]) (simp add: turn_def)
qed

lemma both_catch_up:
  assumes "winv w" and "dp w = Top" and "so w = Top" and "valid_tm t"
    and "int (length (recv_msgs (gl w)) + length (send_msgs (gl w))) < INT_MAX"
  shows "\<exists>w'. awake_step\<^sup>*\<^sup>* w w' \<and> view_of (gl w') = \<lparr>v_recv = [], v_send = [], v_out = visible (outs (gl w)) @
       wire (send_msgs (gl w) @ concat (map (response (G_uartfd (gl w)) (G_pipefd (gl w)) t) (recv_msgs (gl w))))\<rparr>"
  using assms
proof (induction "2 * length (recv_msgs (gl w)) + length (send_msgs (gl w))" arbitrary: w rule: less_induct)
  case less
  let ?u = "G_uartfd (gl w)" and ?p = "G_pipefd (gl w)"
  have room: "room_for 1 (gl w)" if "recv_msgs (gl w) \<noteq> [] \<or> send_msgs (gl w) \<noteq> []"
    using less.prems(5) by (simp add: room_for_def)
  consider (both_empty) "recv_msgs (gl w) = []" "send_msgs (gl w) = []"
    | (parse) x xs where "recv_msgs (gl w) = x # xs"
    | (send) x xs where "recv_msgs (gl w) = []" "send_msgs (gl w) = x # xs"
    by (cases "recv_msgs (gl w)"; cases "send_msgs (gl w)") auto
  then show ?case
  proof cases
    case both_empty
    then show ?thesis by (intro exI [of _ w]) (simp add: view_of_def wire_def)
  next
    case parse
    with parser_turn [OF less.prems(1-3) _ less.prems(4) room] obtain w1 where w1: "turn (Process t) w w1" by auto
    then have v: "recv_msgs (gl w1) = xs" "send_msgs (gl w1) = send_msgs (gl w) @ response ?u ?p t x"
      "visible (outs (gl w1)) = visible (outs (gl w))"
      using parse by (simp_all add: turn_def view_of_def)
    have l: "2 * length (recv_msgs (gl w1)) + length (send_msgs (gl w1)) <
        2 * length (recv_msgs (gl w)) + length (send_msgs (gl w))"
      "int (length (recv_msgs (gl w1)) + length (send_msgs (gl w1))) < INT_MAX"
      using v response_length [of ?u ?p t x] parse less.prems(5) by simp_all
    from w1 have t1: "awake_step\<^sup>*\<^sup>* w w1" "winv w1" "dp w1 = Top" "so w1 = Top" "G_uartfd (gl w1) = ?u" "G_pipefd (gl w1) = ?p"
      by (simp_all add: turn_def)
    from less.hyps [OF l(1) t1(2-4) less.prems(4) l(2)] obtain w' where
      "awake_step\<^sup>*\<^sup>* w1 w'" "view_of (gl w') = \<lparr>v_recv = [], v_send = [], v_out = visible (outs (gl w1)) @
       wire (send_msgs (gl w1) @ concat (map (response ?u ?p t) (recv_msgs (gl w1))))\<rparr>"
      unfolding t1(5,6) by blast
    with t1(1) v parse show ?thesis by (intro exI [of _ w']) simp
  next
    case send
    with sender_turn [OF less.prems(1-3) _ room] obtain w1 where w1: "turn Send w w1" by auto
    then have v: "recv_msgs (gl w1) = []" "send_msgs (gl w1) = xs"
      "visible (outs (gl w1)) = visible (outs (gl w)) @ visible (emitted x)"
      using send by (simp_all add: turn_def view_of_def)
    have l: "2 * length (recv_msgs (gl w1)) + length (send_msgs (gl w1)) <
        2 * length (recv_msgs (gl w)) + length (send_msgs (gl w))"
      "int (length (recv_msgs (gl w1)) + length (send_msgs (gl w1))) < INT_MAX"
      using v send less.prems(5) by simp_all
    from w1 have t1: "awake_step\<^sup>*\<^sup>* w w1" "winv w1" "dp w1 = Top" "so w1 = Top" by (simp_all add: turn_def)
    from less.hyps [OF l(1) t1(2-4) less.prems(4) l(2)] obtain w' where
      "awake_step\<^sup>*\<^sup>* w1 w'" "view_of (gl w') = \<lparr>v_recv = [], v_send = [], v_out = visible (outs (gl w1)) @ wire xs\<rparr>"
      unfolding v by auto
    with t1(1) v send show ?thesis by (intro exI [of _ w']) (simp add: wire_def)
  qed
qed

lemma main_winv:
  assumes "\<forall>n. \<not> se_oom env n" and "\<not> se_fcntl env (-1)" and "main k env = Inr (Running g)"
  shows "winv (wstart g)"
proof -
  have "\<forall>n < 10. \<not> se_oom env n" using assms(1) by simp
  from main_running [OF this assms(2,3)] show ?thesis using assms(1) by (simp add: winv_def wstart_def)
qed

subsection \<open>Properties\<close>

text \<open>C2: whatever the threads do: in every state they can reach from \<open>main\<close>, with any interleaving
  of handlers, tests, waits, wake-ups and signals, the lists are well-formed; what has arrived is
  what has been handled followed by the receive list, the answers to what has been handled are
  what has been sent followed by the send list, and the writes are those of the messages sent.\<close>

theorem threads_refine_queues:
  assumes "\<forall>n. \<not> se_oom env n" and "\<not> se_fcntl env (-1)" and "main k env = Inr (Running g)" and "wreach g w"
  shows "\<exists>evs handled ts sent'. run evs g = Inr (gl w) \<and> sys_inv (gl w) \<and> list_all event_ok evs \<and>
     concat (map (arrival (se_uart env) (se_pipe env)) evs) = handled @ recv_msgs (gl w) \<and>
     subseq ts (clocks evs) \<and> length ts = length handled \<and>
     answers (se_uart env) (se_pipe env) ts handled = sent' @ send_msgs (gl w) \<and>
     visible (outs (gl w)) = wire sent'"
proof -
  have "\<forall>n < 10. \<not> se_oom env n" using assms(1) by simp
  note M = main_running [OF this assms(2,3)]
  have v0: "view_of g = \<lparr>v_recv = [], v_send = [], v_out = []\<rparr>" using M by (simp add: view_of_def visible_def)
  have "thread_trace g [] (wstart g)" by (simp add: thread_trace_def wstart_def)
  with main_winv [OF assms(1-3)] have "winv w \<and> (\<exists>evs. thread_trace g evs w)"
    using traced.inv_steps assms(4) unfolding wreach_def by blast
  then obtain evs where w: "winv w" "thread_trace g evs w" by blast
  then have t: "run evs g = Inr (gl w)" "list_all event_ok evs" "sys_inv (gl w)"
    "view_of (gl w) = fold (spec_step (se_uart env) (se_pipe env)) evs \<lparr>v_recv = [], v_send = [], v_out = []\<rparr>"
    using M(5,6) by (simp_all add: thread_trace_def winv_def v0)
  from spec_trace [of "\<lparr>v_recv = [], v_send = [], v_out = []\<rparr>" "se_uart env" "se_pipe env" evs, folded t(4)] t(1-3)
  show ?thesis by (simp add: view_of_def) blast
qed

text \<open>C6: no signal is needed while the consumers are awake: from every reachable state in which both
  are at the head of their loops, and as long as the counters have room, the two threads can go
  on until both lists are empty, and then everything that was pending has been written, in
  order: first the answers already queued, then those to the messages received.  On the way neither
  of them ever waits or is about to, so nobody is woken, no message arrives and no receive
  handler signals.\<close>

theorem consumers_catch_up:
  assumes "\<forall>n. \<not> se_oom env n" and "\<not> se_fcntl env (-1)" and "main k env = Inr (Running g)" and "wreach g w"
    and "dp w = Top" and "so w = Top" and "valid_tm t"
    and "int (length (recv_msgs (gl w)) + length (send_msgs (gl w))) < INT_MAX"
  shows "\<exists>w'. awake_step\<^sup>*\<^sup>* w w' \<and> recv_msgs (gl w') = [] \<and> send_msgs (gl w') = [] \<and>
     visible (outs (gl w')) = visible (outs (gl w)) @
       wire (send_msgs (gl w) @ concat (map (response (G_uartfd (gl w)) (G_pipefd (gl w)) t) (recv_msgs (gl w))))"
proof -
  have "winv w"
    using consumers.inv_steps [OF _ main_winv [OF assms(1-3)]] assms(4) unfolding wreach_def .
  from both_catch_up [OF this assms(5-8)] show ?thesis by (auto simp: view_of_def)
qed

subsection \<open>The properties at concrete inputs\<close>

text \<open>One message has come through the pipe, and its handler has not signalled yet.\<close>

lemma one_arrived:
  obtains g w where "main linux_flags good_env = Inr (Running g)" "wreach g w" "dp w = Top" "so w = Top"
    "recv_msgs (gl w) = [\<lparr>m_bytes = ''usb'', m_fd = 4, m_to = 0\<rparr>]" "send_msgs (gl w) = []"
    "G_uartfd (gl w) = 3" "G_pipefd (gl w) = 4" "visible (outs (gl w)) = []"
proof -
  obtain g where g: "main linux_flags good_env = Inr (Running g)" by (rule good_main)
  have ok: "\<forall>n. \<not> se_oom good_env n" "\<forall>n < 10. \<not> se_oom good_env n" "\<not> se_fcntl good_env (-1)"
    and fds: "se_uart good_env = 3" "se_pipe good_env = 4" by (simp_all add: good_env_def)
  note M = main_running [OF ok(2,3) g, unfolded fds]
  let ?ev = "Pipe_readable (Some ''usb'')"
  have i: "winv (wstart g)" by (rule main_winv [OF ok(1,3) g])
  have ev: "event_ok ?ev" "room_for 1 (gl (wstart g))"
    using M(2,3) by (simp_all add: room_for_def wstart_def INT_MAX_def)
  obtain g' where g': "handle ?ev (gl (wstart g)) = Inr g'" by (rule handle_runs [OF i ev])
  let ?w = "(wstart g)\<lparr>gl := g', r_sig := r_sig (wstart g) + added G_recv_linklist (gl (wstart g)) g'\<rparr>"
  have "wstep (wstart g) ?w" by (rule receive [OF _ _ ev(2) g']) auto
  then have "wreach g ?w" by (simp add: wreach_def)
  with g turn_view [OF i g' ev] M(2-6) show ?thesis
    by (intro that [of g ?w]) (auto simp: wstart_def view_of_def visible_def received_def chunk_def)
qed

lemma threads_refine_queues_witness:
  "\<exists>g w evs handled. main linux_flags good_env = Inr (Running g) \<and> wreach g w \<and>
     recv_msgs (gl w) = [\<lparr>m_bytes = ''usb'', m_fd = 4, m_to = 0\<rparr>] \<and> run evs g = Inr (gl w) \<and>
     concat (map (arrival 3 4) evs) = handled @ recv_msgs (gl w)"
proof -
  obtain g w where w: "main linux_flags good_env = Inr (Running g)" "wreach g w"
    "recv_msgs (gl w) = [\<lparr>m_bytes = ''usb'', m_fd = 4, m_to = 0\<rparr>]" by (rule one_arrived)
  have "\<forall>n. \<not> se_oom good_env n" "\<not> se_fcntl good_env (-1)"
    and fds: "se_uart good_env = 3" "se_pipe good_env = 4" by (simp_all add: good_env_def)
  from threads_refine_queues [OF this(1,2) w(1,2), unfolded fds] w show ?thesis by blast
qed

lemma consumers_catch_up_witness:
  "\<exists>g w w'. main linux_flags good_env = Inr (Running g) \<and> wreach g w \<and>
     recv_msgs (gl w) = [\<lparr>m_bytes = ''usb'', m_fd = 4, m_to = 0\<rparr>] \<and> awake_step\<^sup>*\<^sup>* w w' \<and>
     recv_msgs (gl w') = [] \<and> visible (outs (gl w')) = [To_uart ''AXX+USB+OUL&'']"
proof -
  obtain g w where w: "main linux_flags good_env = Inr (Running g)" "wreach g w" "dp w = Top" "so w = Top"
    "recv_msgs (gl w) = [\<lparr>m_bytes = ''usb'', m_fd = 4, m_to = 0\<rparr>]" "send_msgs (gl w) = []"
    "G_uartfd (gl w) = 3" "G_pipefd (gl w) = 4" "visible (outs (gl w)) = []" by (rule one_arrived)
  have "\<forall>n. \<not> se_oom good_env n" "\<not> se_fcntl good_env (-1)" "valid_tm noon_tm"
    "int (length (recv_msgs (gl w)) + length (send_msgs (gl w))) < INT_MAX"
    by (simp_all add: good_env_def noon_tm_def valid_tm_def w(5,6) INT_MAX_def)
  from consumers_catch_up [OF this(1,2) w(1-4) this(3,4)] obtain w' where
    "awake_step\<^sup>*\<^sup>* w w'" "recv_msgs (gl w') = []" "visible (outs (gl w')) = visible (outs (gl w)) @
       wire (send_msgs (gl w) @ concat (map (response (G_uartfd (gl w)) (G_pipefd (gl w)) noon_tm) (recv_msgs (gl w))))"
    by blast
  moreover have "visible (outs (gl w)) @
       wire (send_msgs (gl w) @ concat (map (response (G_uartfd (gl w)) (G_pipefd (gl w)) noon_tm) (recv_msgs (gl w)))) =
       [To_uart ''AXX+USB+OUL&'']"
    unfolding w(5-9) by (simp add: response_def starts_with_def usb_answer_def wire_def emitted_def
        visible_def DUER_def UART_def)
  ultimately show ?thesis using w(1,2,5) by metis
qed

end
