(* ===== verification/Event_Loop.thy ===== *)
theory Event_Loop
  imports Daemon
begin

text \<open>
  The loop of \<open>epoll_start\<close> (\<^verbatim>\<open>uart_start.c\<close>) and the receive jobs it hands to the thread
  pool.  A readable serial line is taken out of the epoll set before its job is queued, and
  \<open>uart_connect_handler\<close> puts it back when it has read; the pipe stays in the set.  A step
  is one event of the loop, the start of a queued job, or one half of a receive handler:
  its reads, or the storing of what it has read.  Of the five workers two never leave
  \<open>data_process\<close> and \<open>send_out_handler\<close>, so at most three receive jobs run at a time; ten
  jobs fit in the queue of the pool, and with a full queue the loop waits.  \<^verbatim>\<open>Pool_Loop\<close> shows that
  the loop on the pool of \<^verbatim>\<open>Thread_Pool\<close> does no more than this.
\<close>

subsection \<open>One event\<close>

datatype task =
    Uart_read                      \<comment> \<open>\<open>uart_connect_handler\<close>, before and during \<open>whole_read\<close>\<close>
  | Uart_store int "char list"     \<comment> \<open>after \<open>EPOLL_CTL_ADD\<close>: the count and \<open>recv_buf\<close>\<close>
  | Pipe_read                      \<comment> \<open>\<open>pipe_connect_handler\<close>, before its \<open>read\<close>\<close>
  | Pipe_store int "char list"

definition dispatch :: "int \<Rightarrow> globals \<Rightarrow> task option \<times> globals" where
  \<comment> \<open>the job for a ready descriptor, and the state before \<open>threadpool_add_job\<close>\<close>
  "dispatch fd g =
     (if fd = G_uartfd g then (Some Uart_read, epoll_del (G_uartfd g) g)
      else if fd = G_pipefd g then (Some Pipe_read, g)
      else (None, g))"

definition uart_reads :: "(nat \<Rightarrow> char list option) \<Rightarrow> bool \<Rightarrow> globals \<Rightarrow> (task \<times> globals) res" where
  "uart_reads rd added g =
     bind_ok (whole_read rd (replicate 1024 NUL) 1024) (\<lambda>(ret, recv_buf, _).
       Inr (Uart_store (int ret) recv_buf, epoll_add added (G_uartfd g) g))"

definition pipe_reads :: "char list option \<Rightarrow> task" where
  "pipe_reads r = (case c_read 1024 r of (ret, recv_buf) \<Rightarrow> Pipe_store ret recv_buf)"

fun stores :: "task \<Rightarrow> globals \<Rightarrow> globals res" where
  "stores (Uart_store ret buf) g = (if ret > 0 then recv_enqueue (G_uartfd g) buf ret g else Inr g)"
| "stores (Pipe_store ret buf) g = (if ret > 0 then recv_enqueue (G_pipefd g) buf ret g else Inr g)"
| "stores t g = Inr g"

text \<open>The two halves of a handler, one after the other, are the handler.\<close>

lemma uart_handler_halves:
  "uart_connect_handler rd added g = bind_ok (uart_reads rd added g) (\<lambda>(t, g1). stores t g1)"
  by (auto simp: uart_connect_handler_def uart_reads_def bind_ok_assoc Let_def epoll_add_def
      intro!: bind_ok_cong)

lemma pipe_handler_halves: "pipe_connect_handler r g = stores (pipe_reads r) g"
  by (cases "c_read 1024 r") (simp add: pipe_connect_handler_def pipe_reads_def)

subsection \<open>Steps\<close>

record esys =
  eg :: globals
  queued :: "task list"
  running :: "task list"
  refused :: bool          \<comment> \<open>\<open>threadpool_add_job\<close> has failed for a job of the serial line\<close>
  add_failed :: bool       \<comment> \<open>an \<open>EPOLL_CTL_ADD\<close> of the serial line has failed\<close>

inductive estep :: "esys \<Rightarrow> esys \<Rightarrow> bool" where
  event: "fd \<in> set (epoll_fds (eg s)) \<Longrightarrow> dispatch fd (eg s) = (Some t, g') \<Longrightarrow> length (queued s) < 10 \<Longrightarrow>
    estep s (s\<lparr>eg := g', queued := queued s @ [t]\<rparr>)"
| event_refused: "fd \<in> set (epoll_fds (eg s)) \<Longrightarrow> dispatch fd (eg s) = (Some t, g') \<Longrightarrow>
    estep s (s\<lparr>eg := g', refused := refused s \<or> t = Uart_read\<rparr>)"
| job_starts: "queued s = t # ts \<Longrightarrow> length (running s) < 3 \<Longrightarrow>
    estep s (s\<lparr>queued := ts, running := running s @ [t]\<rparr>)"
| uart_job_reads: "running s = xs @ Uart_read # ys \<Longrightarrow> uart_reads rd added (eg s) = Inr (t, g') \<Longrightarrow>
    estep s (s\<lparr>eg := g', running := xs @ t # ys,
      add_failed := add_failed s \<or> G_uartfd g' \<notin> set (epoll_fds g')\<rparr>)"
| pipe_job_reads: "running s = xs @ Pipe_read # ys \<Longrightarrow>
    estep s (s\<lparr>running := xs @ pipe_reads r # ys\<rparr>)"
| job_stores: "running s = xs @ t # ys \<Longrightarrow> t \<noteq> Uart_read \<Longrightarrow> t \<noteq> Pipe_read \<Longrightarrow> stores t (eg s) = Inr g' \<Longrightarrow>
    estep s (s\<lparr>eg := g', running := xs @ ys\<rparr>)"

definition estart :: "globals \<Rightarrow> esys" where
  "estart g = \<lparr>eg = g, queued = [], running = [], refused = False,
     add_failed = (G_uartfd g \<notin> set (epoll_fds g))\<rparr>"

definition ereach :: "globals \<Rightarrow> esys \<Rightarrow> bool" where
  "ereach g s \<longleftrightarrow> estep\<^sup>*\<^sup>* (estart g) s"

subsection \<open>One reader of the serial line\<close>

definition serial_jobs :: "esys \<Rightarrow> nat" where
  \<comment> \<open>the jobs of the serial line that have not read yet\<close>
  "serial_jobs s = count_list (queued s) Uart_read + count_list (running s) Uart_read"

definition listening :: "esys \<Rightarrow> bool" where
  "listening s \<longleftrightarrow> G_uartfd (eg s) \<in> set (epoll_fds (eg s))"

lemma stores_idle:
  assumes "stores t g = Inr g'"
  shows "epoll_fds g' = epoll_fds g \<and> G_uartfd g' = G_uartfd g \<and> G_pipefd g' = G_pipefd g \<and>
     G_epollfd g' = G_epollfd g"
  using assms
  by (cases t) (auto simp: recv_enqueue_def split: if_splits)

lemma uart_reads_listens:
  assumes "uart_reads rd added g = Inr (t, g')"
  shows "t \<noteq> Uart_read \<and> G_uartfd g' = G_uartfd g"
  using assms by (auto simp: uart_reads_def epoll_add_def)

lemma dispatch_cases:
  assumes "dispatch fd g = (Some t, g')"
  shows "G_uartfd g' = G_uartfd g \<and>
    (t = Uart_read \<and> fd = G_uartfd g \<and> G_uartfd g \<notin> set (epoll_fds g') \<or> t = Pipe_read \<and> g' = g)"
  using assms by (auto simp: dispatch_def epoll_del_def split: if_splits)

definition einv :: "esys \<Rightarrow> bool" where
  "einv s \<longleftrightarrow> serial_jobs s + of_bool (listening s) + of_bool (refused s) + of_bool (add_failed s) = 1"

lemma einv_step:
  assumes "estep s s'" and "einv s"
  shows "einv s'"
  using assms
proof (induction rule: estep.induct)
  case (event fd s t g')
  with dispatch_cases [OF event(2)] show ?case
    by (auto simp: einv_def serial_jobs_def listening_def)
next
  case (event_refused fd s t g')
  with dispatch_cases [OF event_refused(2)] show ?case
    by (auto simp: einv_def serial_jobs_def listening_def)
next
  case (job_starts s t ts)
  then show ?case by (auto simp: einv_def serial_jobs_def listening_def)
next
  case (uart_job_reads s xs ys rd added t g')
  with uart_reads_listens [OF uart_job_reads(2)] show ?case
    by (auto simp: einv_def serial_jobs_def listening_def)
next
  case (pipe_job_reads s xs ys r)
  then show ?case
    by (auto simp: einv_def serial_jobs_def listening_def pipe_reads_def split: prod.splits)
next
  case (job_stores s xs t ys g')
  with stores_idle [OF job_stores(4)] show ?case
    by (auto simp: einv_def serial_jobs_def listening_def)
qed

inductive_cases estepE: "estep s s'"

interpretation watched: invariant_steps estep einv
  by unfold_locales (rule einv_step)

interpretation refusal: invariant_steps estep refused
  by unfold_locales (auto elim: estepE)

lemma einv_reach:
  assumes "ereach g s"
  shows "einv s"
proof -
  have "einv (estart g)" by (simp add: einv_def serial_jobs_def listening_def estart_def)
  with assms show ?thesis unfolding ereach_def by (rule watched.inv_steps)
qed

subsection \<open>A run that stores two messages in the wrong order\<close>

definition one_byte :: "char \<Rightarrow> nat \<Rightarrow> char list option" where
  "one_byte c k = (if k = 0 then Some [c] else None)"

lemma read_one_byte:
  "whole_read (one_byte c) (replicate 1024 NUL) 1024 = Inr (1, c # replicate 1023 NUL, 2)"
proof -
  have r: "rchunk (one_byte c 0) = [c]" "\<And>k. rchunk (one_byte c (Suc k)) = []"
    by (simp_all add: one_byte_def rchunk_def TMP_BUF_def)
  obtain j where
    j: "whole_read (one_byte c) (replicate 1024 NUL) 1024 =
       Inr (length (rchunks (one_byte c) 0 j), rchunks (one_byte c) 0 j @
            replicate (1024 - length (rchunks (one_byte c) 0 j)) NUL, Suc j)"
    and ne: "\<forall>i < j. rchunk (one_byte c i) \<noteq> []"
    and stop: "rchunk (one_byte c j) = [] \<or>
      1024 \<le> length (rchunks (one_byte c) 0 j) + length (rchunk (one_byte c j))"
    by (rule whole_read_cases [of "one_byte c"]) blast
  have "j \<noteq> 0" using stop r(1) by (cases j) auto
  moreover have "\<not> 1 < j" using ne r(2) [of 0] by auto
  ultimately have "j = 1" by simp
  moreover have "rchunks (one_byte c) 0 1 = [c]" by (simp add: rchunks_def r(1))
  ultimately show ?thesis using j by simp
qed

lemma store_byte:
  assumes ok: "sys_ok g sr rs ss sn" and mem: "\<forall>n. \<not> oom (heap g) n" and room: "int (length rs) < INT_MAX"
  obtains m' rs' where "stores (Uart_store 1 (c # replicate 1023 NUL)) g = Inr (g\<lparr>heap := m'\<rparr>)"
    "sys_ok (g\<lparr>heap := m'\<rparr>) sr rs' ss sn" "oom m' = oom (heap g)" "length rs' = length rs + 1"
    "recv_msgs (g\<lparr>heap := m'\<rparr>) = recv_msgs g @ [\<lparr>m_bytes = [c], m_fd = G_uartfd g, m_to = 0\<rparr>]"
proof -
  have "alloc_ok (heap g) 3" using mem by (simp add: alloc_ok_def)
  from recv_enqueue_sys [OF ok _ _ _ this room, of 1 "c # replicate 1023 NUL" "G_uartfd g"] that show ?thesis
    by auto
qed

lemma serial_messages_swapped:
  fixes g :: globals
  assumes ok: "sys_ok g sr [] ss []" and mem: "\<forall>n. \<not> oom (heap g) n"
    and fds: "epoll_fds g = [G_uartfd g, p]" "G_uartfd g \<noteq> p" "G_epollfd g \<noteq> -1"
  obtains s where "ereach g s" "map m_bytes (recv_msgs (eg s)) = [''b'', ''a'']" "queued s = []" "running s = []"
proof -
  let ?u = "G_uartfd g"
  let ?off = "g\<lparr>epoll_fds := [p]\<rparr>" and ?on = "g\<lparr>epoll_fds := [?u, p]\<rparr>"
  let ?A = "Uart_store 1 (CHR ''a'' # replicate 1023 NUL)" and ?B = "Uart_store 1 (CHR ''b'' # replicate 1023 NUL)"
  let ?st = "\<lambda>h q r. \<lparr>eg = h, queued = q, running = r, refused = False, add_failed = False\<rparr>"
  have on: "?on = g" using fds(1) by (cases g) simp
  have d: "dispatch ?u ?on = (Some Uart_read, ?off)" using fds by (simp add: dispatch_def epoll_del_def)
  have rd: "uart_reads (one_byte c) True ?off = Inr (Uart_store 1 (c # replicate 1023 NUL), ?on)" for c
    using fds(2,3) by (simp add: uart_reads_def read_one_byte epoll_add_def)
  have ev: "estep (?st ?on [] r) (?st ?off [Uart_read] r)" for r
    using event [of ?u "?st ?on [] r", OF _ _ ] d by simp
  have go: "estep (?st h [Uart_read] r) (?st h [] (r @ [Uart_read]))" if "length r < 3" for h r
    using job_starts [of "?st h [Uart_read] r"] that by simp
  have re: "estep (?st ?off [] (r @ [Uart_read])) (?st ?on [] (r @ [Uart_store 1 (c # replicate 1023 NUL)]))" for c r
    using uart_job_reads [of "?st ?off [] (r @ [Uart_read])" r "[]" "one_byte c" True] rd [of c] by simp
  have ok_on: "sys_ok ?on sr [] ss []" "\<forall>n. \<not> oom (heap ?on) n" using ok mem on by simp_all
  have im: "int (length ([] :: addr list)) < INT_MAX" "int 1 < INT_MAX" by (simp_all add: INT_MAX_def)
  obtain m1 r1 where b: "stores ?B ?on = Inr (?on\<lparr>heap := m1\<rparr>)" "sys_ok (?on\<lparr>heap := m1\<rparr>) sr r1 ss []"
    "oom m1 = oom (heap ?on)" "length r1 = length ([] :: addr list) + 1"
    "recv_msgs (?on\<lparr>heap := m1\<rparr>) = recv_msgs ?on @ [\<lparr>m_bytes = ''b'', m_fd = G_uartfd ?on, m_to = 0\<rparr>]"
    by (rule store_byte [OF ok_on im(1)])
  let ?g1 = "?on\<lparr>heap := m1\<rparr>"
  have n1: "\<forall>n. \<not> oom (heap ?g1) n" "int (length r1) < INT_MAX" using b(3,4) mem im(2) by simp_all
  obtain m2 r2 where a: "stores ?A ?g1 = Inr (?g1\<lparr>heap := m2\<rparr>)"
    "recv_msgs (?g1\<lparr>heap := m2\<rparr>) = recv_msgs ?g1 @ [\<lparr>m_bytes = ''a'', m_fd = G_uartfd ?g1, m_to = 0\<rparr>]"
    by (rule store_byte [OF b(2) n1]) blast
  let ?g2 = "?g1\<lparr>heap := m2\<rparr>"
  have sb: "estep (?st ?on [] [?A, ?B]) (?st ?g1 [] [?A])"
    using job_stores [of "?st ?on [] [?A, ?B]" "[?A]" ?B "[]" ?g1] b(1) by simp
  have sa: "estep (?st ?g1 [] [?A]) (?st ?g2 [] [])"
    using job_stores [of "?st ?g1 [] [?A]" "[]" ?A "[]" ?g2] a(1) by simp
  have "estart g = ?st ?on [] []" by (simp add: estart_def on fds)
  moreover have "estep\<^sup>*\<^sup>* (?st ?on [] []) (?st ?g2 [] [])"
    using ev [of "[]"] go [of "[]" ?off] re [of "[]" "CHR ''a''"] ev [of "[?A]"] go [of "[?A]" ?off]
      re [of "[?A]" "CHR ''b''"] sb sa
    by (simp; meson rtranclp.rtrancl_into_rtrancl rtranclp.rtrancl_refl)
  ultimately have "ereach g (?st ?g2 [] [])" by (simp add: ereach_def)
  moreover have "recv_msgs ?on = []" using sys_ok_msgs(2) [OF ok_on(1)] by simp
  then have "map m_bytes (recv_msgs ?g2) = [''b'', ''a'']" using a(2) b(5) by simp
  ultimately show ?thesis by (intro that [of "?st ?g2 [] []"]) simp_all
qed

lemma boot_listens:
  assumes "boot u p (\<lambda>_. False) = Inr g"
  shows "sys_ok g 1 [] 3 []" and "epoll_fds g = [u, p]" and "G_uartfd g = u" and "G_pipefd g = p"
    and "\<forall>n. \<not> oom (heap g) n" and "G_epollfd g = 0"
  using boot_sys [of "\<lambda>_. False" u p] assms by (auto simp: boot_def main_lists_def start_threads_def)

subsection \<open>Properties\<close>

text \<open>The serial line has one reader at most: in every reachable state of the event loop
  there is at most one job of the serial line that has not read yet, and none while the
  line is in the epoll set; as long as every job was accepted and every \<open>EPOLL_CTL_ADD\<close> of the
  line has succeeded, one of the two holds.\<close>

theorem serial_line_has_one_reader:
  assumes "boot u p (\<lambda>_. False) = Inr g" and "ereach g s"
  shows "serial_jobs s + of_bool (listening s) \<le> 1 \<and>
     (\<not> refused s \<and> \<not> add_failed s \<longrightarrow> serial_jobs s + of_bool (listening s) = 1)"
proof -
  have "einv s" using einv_reach [OF assms(2)] .
  then show ?thesis
    by (cases "refused s"; cases "add_failed s"; cases "listening s"; simp add: einv_def)
qed

text \<open>C10: a job that the pool refuses is never made up for: once \<open>threadpool_add_job\<close> has failed
  for the serial line, the line is out of the epoll set in every later state, and no job
  that would put it back exists.\<close>

theorem refused_job_silences_serial_line:
  assumes "boot u p (\<lambda>_. False) = Inr g" and "ereach g s" and "refused s" and "estep\<^sup>*\<^sup>* s s'"
  shows "\<not> listening s' \<and> serial_jobs s' = 0"
proof -
  have "ereach g s'" using assms(2,4) unfolding ereach_def by (rule rtranclp_trans)
  then have "einv s'" by (rule einv_reach)
  moreover have "refused s'" by (rule refusal.inv_steps [OF assms(4,3)])
  ultimately show ?thesis by (simp add: einv_def)
qed

text \<open>C11: the handler puts the line back before it has stored what it has read, so a second
  handler can overtake it: two messages that came in the order a, b can be stored as b, a.\<close>

theorem serial_messages_can_swap:
  "\<exists>g s. boot 3 4 (\<lambda>_. False) = Inr g \<and> ereach g s \<and>
     map m_bytes (recv_msgs (eg s)) = [''b'', ''a''] \<and> queued s = [] \<and> running s = []"
proof -
  from boot_sys [of "\<lambda>_. False" 3 4] obtain g where g: "boot 3 4 (\<lambda>_. False) = Inr g" by auto
  have fds: "epoll_fds g = [G_uartfd g, 4]" "G_uartfd g \<noteq> 4" "G_epollfd g \<noteq> -1" using boot_listens [OF g] by simp_all
  obtain s where "ereach g s" "map m_bytes (recv_msgs (eg s)) = [''b'', ''a'']" "queued s = []" "running s = []"
    by (rule serial_messages_swapped [OF boot_listens(1,5) [OF g] fds])
  with g show ?thesis by (intro exI [of _ g] exI [of _ s] conjI)
qed

lemma serial_line_has_one_reader_witness:
  "\<exists>g. boot 3 4 (\<lambda>_. False) = Inr g \<and> serial_jobs (estart g) + of_bool (listening (estart g)) = 1"
proof -
  from boot_sys [of "\<lambda>_. False" 3 4] obtain g where g: "boot 3 4 (\<lambda>_. False) = Inr g" by auto
  have "ereach g (estart g)" "\<not> refused (estart g)" "\<not> add_failed (estart g)"
    using boot_listens(2,3) [OF g] by (simp_all add: ereach_def estart_def)
  with serial_line_has_one_reader [OF g this(1)] g show ?thesis by blast
qed

lemma refused_job_silences_serial_line_witness:
  "\<exists>g s. boot 3 4 (\<lambda>_. False) = Inr g \<and> ereach g s \<and> refused s \<and> \<not> listening s \<and> serial_jobs s = 0"
proof -
  from boot_sys [of "\<lambda>_. False" 3 4] obtain g where g: "boot 3 4 (\<lambda>_. False) = Inr g" by auto
  let ?s = "(estart g)\<lparr>eg := epoll_del 3 g, refused := True\<rparr>"
  have "estep (estart g) ?s"
    using event_refused [of 3 "estart g" Uart_read "epoll_del 3 g"] boot_listens(2,3) [OF g]
    by (simp add: estart_def dispatch_def)
  then have r: "ereach g ?s" "refused ?s" by (simp_all add: ereach_def r_into_rtranclp)
  from refused_job_silences_serial_line [OF g this, of ?s] r g show ?thesis by blast
qed

subsection \<open>Every job comes to its end\<close>

fun task_ok :: "task \<Rightarrow> bool" where
  "task_ok (Uart_store ret buf) \<longleftrightarrow> ret \<le> 1024 \<and> length buf = 1024"
| "task_ok (Pipe_store ret buf) \<longleftrightarrow> ret \<le> 1024 \<and> length buf = 1024"
| "task_ok _ \<longleftrightarrow> True"

definition loop_inv :: "esys \<Rightarrow> bool" where
  \<comment> \<open>the lists are well-formed, memory is available, and the jobs hold what was read\<close>
  "loop_inv s \<longleftrightarrow>
     sys_inv (eg s) \<and> (\<forall>n. \<not> oom (heap (eg s)) n) \<and> G_epollfd (eg s) \<noteq> -1 \<and> (\<forall>t \<in> set (queued s) \<union> set (running s). task_ok t)"

lemma sys_inv_fds [simp]:
  "sys_inv (g\<lparr>epoll_fds := es\<rparr>) = sys_inv g" "recv_msgs (g\<lparr>epoll_fds := es\<rparr>) = recv_msgs g"
  by (simp_all add: sys_inv_def sys_ok_def recv_msgs_def)

lemma epoll_frame [simp]:
  "sys_inv (epoll_add ok fd g) = sys_inv g" "recv_msgs (epoll_add ok fd g) = recv_msgs g"
  "heap (epoll_add ok fd g) = heap g" "sys_inv (epoll_del fd g) = sys_inv g"
  "recv_msgs (epoll_del fd g) = recv_msgs g" "heap (epoll_del fd g) = heap g"
  "G_epollfd (epoll_add ok fd g) = G_epollfd g" "G_epollfd (epoll_del fd g) = G_epollfd g"
  by (simp_all add: epoll_add_def epoll_del_def)

lemma c_read_length: "c_read 1024 r = (n, b) \<Longrightarrow> n \<le> 1024 \<and> length b = 1024"
  by (auto simp: c_read_def split: option.splits)

lemma pipe_reads_ok: "task_ok (pipe_reads r) \<and> pipe_reads r \<noteq> Uart_read \<and> pipe_reads r \<noteq> Pipe_read"
  using c_read_length [of r] by (auto simp: pipe_reads_def split: prod.splits)

lemma uart_reads_total:
  obtains t where "uart_reads rd added g = Inr (t, epoll_add added (G_uartfd g) g)" "task_ok t" "t \<noteq> Uart_read" "t \<noteq> Pipe_read"
proof -
  obtain j where
    "whole_read rd (replicate 1024 NUL) 1024 =
       Inr (length (rchunks rd 0 j), rchunks rd 0 j @ replicate (1024 - length (rchunks rd 0 j)) NUL, Suc j)"
    "length (rchunks rd 0 j) < 1024"
    by (rule whole_read_cases [of rd]) blast
  then show ?thesis
    by (intro that [of "Uart_store (int (length (rchunks rd 0 j)))
          (rchunks rd 0 j @ replicate (1024 - length (rchunks rd 0 j)) NUL)"]) (simp_all add: uart_reads_def)
qed

lemma stores_ok:
  assumes "sys_inv g" and "\<forall>n. \<not> oom (heap g) n" and "task_ok t" and "int (length (recv_msgs g)) < INT_MAX"
  obtains g' xs where "stores t g = Inr g'" "sys_inv g'" "oom (heap g') = oom (heap g)"
    "recv_msgs g' = recv_msgs g @ xs" "length xs \<le> 1"
proof -
  obtain sr rs ss sn where ok: "sys_ok g sr rs ss sn" by (rule sys_invE [OF assms(1)])
  have al: "alloc_ok (heap g) 3" using assms(2) by (simp add: alloc_ok_def)
  have room: "int (length rs) < INT_MAX" using assms(4) sys_ok_msgs(2) [OF ok] by simp
  have st: "\<exists>g' xs. recv_enqueue fd buf ret g = Inr g' \<and> sys_inv g' \<and> oom (heap g') = oom (heap g) \<and>
      recv_msgs g' = recv_msgs g @ xs \<and> length xs \<le> 1"
    if "0 < ret" "ret \<le> 1024" "length buf = 1024" for fd buf ret
  proof -
    have "ret \<le> int (length buf)" using that by simp
    from recv_enqueue_sys [OF ok that(1,2) this al room, of fd] obtain m' where
      "recv_enqueue fd buf ret g = Inr (g\<lparr>heap := m'\<rparr>)" "sys_inv (g\<lparr>heap := m'\<rparr>)"
      "recv_msgs (g\<lparr>heap := m'\<rparr>) = recv_msgs g @ [\<lparr>m_bytes = take (nat ret) buf, m_fd = fd, m_to = 0\<rparr>]"
      "oom m' = oom (heap g)" using sys_ok_msgs(1) by blast
    then show ?thesis
      by (intro exI [of _ "g\<lparr>heap := m'\<rparr>"] exI [of _ "[\<lparr>m_bytes = take (nat ret) buf, m_fd = fd, m_to = 0\<rparr>]"]) simp
  qed
  have id: "\<exists>g' xs. Inr g = Inr g' \<and> sys_inv g' \<and> oom (heap g') = oom (heap g) \<and>
      recv_msgs g' = recv_msgs g @ xs \<and> length xs \<le> (1 :: nat)"
    by (rule exI [of _ g], rule exI [of _ "[]"]) (simp add: assms(1))
  have "\<exists>g' xs. stores t g = Inr g' \<and> sys_inv g' \<and> oom (heap g') = oom (heap g) \<and>
      recv_msgs g' = recv_msgs g @ xs \<and> length xs \<le> 1"
  proof (cases t)
    case (Uart_store ret buf)
    with st [of ret buf "G_uartfd g"] id assms(3) show ?thesis by (cases "ret > 0") simp_all
  next
    case (Pipe_store ret buf)
    with st [of ret buf "G_pipefd g"] id assms(3) show ?thesis by (cases "ret > 0") simp_all
  qed (use id in simp_all)
  then show ?thesis using that by blast
qed

lemma stores_room:
  assumes "sys_inv g" and "\<forall>n. \<not> oom (heap g) n" and "task_ok t" and "stores t g = Inr g'"
  shows "g' = g \<or> int (length (recv_msgs g)) < INT_MAX"
proof -
  obtain sr rs ss sn where ok: "sys_ok g sr rs ss sn" by (rule sys_invE [OF assms(1)])
  have al: "alloc_ok (heap g) 3" using assms(2) by (simp add: alloc_ok_def)
  note R = recv_enqueue_room [OF _ ok al]
  show ?thesis
    using assms(3,4) R sys_ok_msgs(2) [OF ok] by (cases t) (auto split: if_splits)
qed

lemma loop_inv_step:
  assumes "estep s s'" and "loop_inv s"
  shows "loop_inv s' \<and> (\<exists>xs. recv_msgs (eg s') = recv_msgs (eg s) @ xs)"
  using assms
proof (induction rule: estep.induct)
  case (event fd s t g')
  then show ?case using dispatch_cases [OF event(2)]
    by (auto simp: loop_inv_def dispatch_def split: if_splits)
next
  case (event_refused fd s t g')
  then show ?case by (auto simp: loop_inv_def dispatch_def split: if_splits)
next
  case (job_starts s t ts)
  then show ?case by (auto simp: loop_inv_def)
next
  case (uart_job_reads s xs ys rd added t g')
  obtain t' where "uart_reads rd added (eg s) = Inr (t', epoll_add added (G_uartfd (eg s)) (eg s))" "task_ok t'"
    by (rule uart_reads_total)
  then show ?case using uart_job_reads by (auto simp: loop_inv_def)
next
  case (pipe_job_reads s xs ys r)
  then show ?case using pipe_reads_ok [of r] by (auto simp: loop_inv_def)
next
  case (job_stores s xs t ys g')
  then have I: "sys_inv (eg s)" "\<forall>n. \<not> oom (heap (eg s)) n" "task_ok t" by (auto simp: loop_inv_def)
  note F = stores_idle [OF job_stores(4)]
  from stores_room [OF I job_stores(4)] show ?case
  proof
    assume "g' = eg s"
    then show ?thesis using job_stores by (auto simp: loop_inv_def)
  next
    assume "int (length (recv_msgs (eg s))) < INT_MAX"
    from stores_ok [OF I this] job_stores(4) obtain xs where
      "sys_inv g'" "oom (heap g') = oom (heap (eg s))" "recv_msgs g' = recv_msgs (eg s) @ xs" by fastforce
    then show ?thesis using job_stores F by (auto simp: loop_inv_def)
  qed
qed

interpretation loop: invariant_steps estep loop_inv
  by unfold_locales (rule conjunct1 [OF loop_inv_step])

definition load :: "esys \<Rightarrow> nat" where
  \<comment> \<open>the messages stored, and those that the jobs may still store\<close>
  "load s = length (recv_msgs (eg s)) + length (queued s) + length (running s)"

fun effort :: "task \<Rightarrow> nat" where
  "effort Uart_read = 2" | "effort Pipe_read = 2" | "effort _ = 1"

definition to_do :: "esys \<Rightarrow> nat" where
  "to_do s = 3 * length (queued s) + sum_list (map effort (running s))"

definition job_step :: "bool \<Rightarrow> esys \<Rightarrow> esys \<Rightarrow> bool" where
  \<comment> \<open>a step of a job, not of the event loop; \<open>EPOLL_CTL_ADD\<close> has the outcome \<open>added\<close>\<close>
  "job_step added s s' \<longleftrightarrow>
     estep s s' \<and> load s' \<le> load s \<and> refused s' = refused s \<and> serial_jobs s' \<le> serial_jobs s \<and>
     (add_failed s' \<longleftrightarrow> add_failed s \<or> \<not> added \<and> serial_jobs s' < serial_jobs s)"

lemma job_can_step:
  assumes I: "loop_inv s" "einv s" and room: "int (load s) \<le> INT_MAX" and more: "0 < to_do s"
  shows "\<exists>s'. job_step added s s' \<and> to_do s' < to_do s"
proof (cases "running s")
  case Nil
  with more obtain t ts where q: "queued s = t # ts" by (cases "queued s") (auto simp: to_do_def)
  have "effort t \<le> 2" by (cases t) simp_all
  with job_starts [OF q] Nil q show ?thesis
    by (intro exI [of _ "s\<lparr>queued := ts, running := running s @ [t]\<rparr>"])
      (simp add: job_step_def load_def to_do_def serial_jobs_def)
next
  case (Cons t ts)
  then have r: "running s = [] @ t # ts" by simp
  have ok: "sys_inv (eg s)" "\<forall>n. \<not> oom (heap (eg s)) n" "task_ok t" "int (length (recv_msgs (eg s))) < INT_MAX"
    using I room Cons by (auto simp: loop_inv_def load_def)
  show ?thesis
  proof (cases "t = Uart_read \<or> t = Pipe_read")
    case True
    then show ?thesis
    proof
      assume t: "t = Uart_read"
      let ?g = "epoll_add added (G_uartfd (eg s)) (eg s)"
      obtain t' where t': "uart_reads (\<lambda>_. None) added (eg s) = Inr (t', ?g)"
        "task_ok t'" "t' \<noteq> Uart_read" "t' \<noteq> Pipe_read"
        by (rule uart_reads_total)
      then have e: "effort t' = 1" by (cases t') simp_all
      have "G_uartfd (eg s) \<notin> set (epoll_fds (eg s))" "G_epollfd (eg s) \<noteq> -1"
        using I Cons t by (auto simp: einv_def serial_jobs_def listening_def loop_inv_def)
      then have "G_uartfd ?g \<in> set (epoll_fds ?g) \<longleftrightarrow> added" by (simp add: epoll_add_def)
      with uart_job_reads [OF r [unfolded t] t'(1)] Cons t t'(3) e show ?thesis
        by (intro exI [of _ "s\<lparr>eg := ?g, running := [] @ t' # ts,
              add_failed := add_failed s \<or> G_uartfd ?g \<notin> set (epoll_fds ?g)\<rparr>"])
          (simp add: job_step_def load_def to_do_def serial_jobs_def)
    next
      assume t: "t = Pipe_read"
      have "effort (pipe_reads None) = 1" by (simp add: pipe_reads_def c_read_def)
      with pipe_job_reads [OF r [unfolded t], of None] pipe_reads_ok [of None] Cons t show ?thesis
        by (intro exI [of _ "s\<lparr>running := [] @ pipe_reads None # ts\<rparr>"])
          (simp add: job_step_def load_def to_do_def serial_jobs_def)
    qed
  next
    case False
    obtain g' xs where g': "stores t (eg s) = Inr g'" "recv_msgs g' = recv_msgs (eg s) @ xs" "length xs \<le> 1"
      by (rule stores_ok [OF ok])
    have "0 < effort t" by (cases t) simp_all
    with job_stores [OF r _ _ g'(1)] False Cons g'(2,3) show ?thesis
      by (intro exI [of _ "s\<lparr>eg := g', running := [] @ ts\<rparr>"])
        (simp add: job_step_def load_def to_do_def serial_jobs_def)
  qed
qed

definition finish_inv :: "bool \<Rightarrow> esys \<Rightarrow> esys \<Rightarrow> bool" where
  "finish_inv added s0 s \<longleftrightarrow>
     loop_inv s \<and> einv s \<and> int (load s) \<le> INT_MAX \<and> refused s = refused s0 \<and>
     serial_jobs s \<le> serial_jobs s0 \<and>
     (add_failed s \<longleftrightarrow> add_failed s0 \<or> \<not> added \<and> serial_jobs s < serial_jobs s0) \<and>
     (\<exists>xs. recv_msgs (eg s) = recv_msgs (eg s0) @ xs)"

interpretation finishing: draining_steps "job_step added" "finish_inv added s0" to_do for added s0
proof
  show "finish_inv added s0 s'" if "job_step added s s'" and "finish_inv added s0 s" for s s'
    using that loop_inv_step [of s s'] einv_step [of s s'] by (auto simp: job_step_def finish_inv_def)
  show "finish_inv added s0 s \<Longrightarrow> 0 < to_do s \<Longrightarrow> \<exists>s'. job_step added s s' \<and> to_do s' < to_do s" for s
    using job_can_step by (auto simp: finish_inv_def)
qed

lemma jobs_finish:
  assumes "loop_inv s" and "einv s" and "int (load s) \<le> INT_MAX"
  shows "\<exists>s'. estep\<^sup>*\<^sup>* s s' \<and> finish_inv added s s' \<and> queued s' = [] \<and> running s' = []"
proof -
  have "finish_inv added s s" using assms by (simp add: finish_inv_def)
  from finishing.drained [OF this] obtain s' where
    s': "(job_step added)\<^sup>*\<^sup>* s s'" "finish_inv added s s'" "to_do s' = 0" by blast
  have "job_step added \<le> estep" by (auto simp: job_step_def)
  then have "estep\<^sup>*\<^sup>* s s'" using s'(1) rtranclp_mono by blast
  moreover have "0 < effort t" for t by (cases t) simp_all
  then have "running s' = []" using s'(3) by (cases "running s'") (simp_all add: to_do_def, metis less_irrefl)
  moreover have "queued s' = []" using s'(3) by (simp add: to_do_def)
  ultimately show ?thesis using s'(2) by blast
qed

text \<open>C12: from every reachable state the jobs that are queued or running can all end, whatever
  the outcome of \<open>EPOLL_CTL_ADD\<close> is on the way, without any message already stored being touched.
  Then the serial line is in the epoll set, unless the pool has refused a job of the line or an
  \<open>EPOLL_CTL_ADD\<close> has failed: one before, or that of the job that was still to read.\<close>

theorem jobs_complete:
  assumes "boot u p (\<lambda>_. False) = Inr g" and "ereach g s" and "int (load s) \<le> INT_MAX"
  shows "\<exists>s' xs. estep\<^sup>*\<^sup>* s s' \<and> queued s' = [] \<and> running s' = [] \<and> recv_msgs (eg s') = recv_msgs (eg s) @ xs \<and>
     (listening s' \<longleftrightarrow> \<not> (refused s \<or> add_failed s \<or> \<not> added \<and> 0 < serial_jobs s))"
proof -
  note B = boot_listens [OF assms(1)]
  have "loop_inv (estart g)" using sys_ok_msgs(1) [OF B(1)] B(5,6) by (simp add: loop_inv_def estart_def)
  then have "loop_inv s" using loop.inv_steps assms(2) unfolding ereach_def by blast
  from jobs_finish [OF this einv_reach [OF assms(2)] assms(3)] obtain s' where
    s': "estep\<^sup>*\<^sup>* s s'" "finish_inv added s s'" "queued s' = []" "running s' = []" by blast
  then have "serial_jobs s' = 0" by (simp add: serial_jobs_def)
  with s'(2) have "listening s' \<longleftrightarrow> \<not> (refused s \<or> add_failed s \<or> \<not> added \<and> 0 < serial_jobs s)"
    unfolding finish_inv_def einv_def by (cases "listening s'") auto
  with s' show ?thesis unfolding finish_inv_def by blast
qed

lemma jobs_complete_witness:
  "\<exists>g s s' s''. boot 3 4 (\<lambda>_. False) = Inr g \<and> ereach g s \<and> queued s = [Uart_read] \<and> \<not> listening s \<and>
     estep\<^sup>*\<^sup>* s s' \<and> queued s' = [] \<and> running s' = [] \<and> listening s' \<and>
     estep\<^sup>*\<^sup>* s s'' \<and> queued s'' = [] \<and> running s'' = [] \<and> \<not> listening s''"
proof -
  from boot_sys [of "\<lambda>_. False" 3 4] obtain g where g: "boot 3 4 (\<lambda>_. False) = Inr g" "recv_msgs g = []" by auto
  let ?s = "(estart g)\<lparr>eg := epoll_del 3 g, queued := [Uart_read]\<rparr>"
  have "estep (estart g) ?s"
    using event [of 3 "estart g" Uart_read "epoll_del 3 g"] boot_listens(2,3) [OF g(1)]
    by (simp add: estart_def dispatch_def)
  then have r: "ereach g ?s" by (simp add: ereach_def r_into_rtranclp)
  have "int (load ?s) \<le> INT_MAX" using g(2) by (simp add: load_def estart_def INT_MAX_def)
  note J = jobs_complete [OF g(1) r this]
  have "\<not> listening ?s" "\<not> refused ?s" "\<not> add_failed ?s" "serial_jobs ?s = 1"
    using boot_listens(2,3) [OF g(1)] by (simp_all add: listening_def epoll_del_def estart_def serial_jobs_def)
  with J [of True] J [of False] obtain s' s'' where
    "estep\<^sup>*\<^sup>* ?s s'" "queued s' = []" "running s' = []" "listening s'"
    "estep\<^sup>*\<^sup>* ?s s''" "queued s'' = []" "running s'' = []" "\<not> listening s''" by auto
  with g(1) r \<open>\<not> listening ?s\<close> show ?thesis
    by (intro exI [of _ g] exI [of _ ?s] exI [of _ s'] exI [of _ s'']) simp
qed

end
