(* ===== verification/Pool_Loop.thy ===== *)
theory Pool_Loop
  imports Event_Loop Start_Up
begin

text \<open>
  The loop of \<open>epoll_start\<close> on the thread pool of \<^verbatim>\<open>thread_pool.c\<close> itself.  The jobs are blocks on
  the heap, linked in the queue of the pool; the loop and the five workers change the pool only
  by the critical sections of \<^verbatim>\<open>Thread_Pool\<close>.  A descriptor is dispatched before
  \<open>threadpool_add_job\<close> is called, which may wait, and a worker frees the block of its job when the
  callback has returned.  It is shown that this refines the loop of \<^verbatim>\<open>Event_Loop\<close>.
\<close>

subsection \<open>State and steps\<close>

datatype duty =
    Forever          \<comment> \<open>\<open>data_process\<close> and \<open>send_out_handler\<close>, which do not return\<close>
  | Start_job        \<comment> \<open>\<open>init_data_to_bt_onstart\<close>, whose code is not in the sources\<close>
  | Receive task     \<comment> \<open>a receive handler, and how far it is\<close>
  | Returned         \<comment> \<open>the callback has returned, its block is still to be freed\<close>

text \<open>The callbacks by number, in the order in which \<open>epoll_start\<close> names them.\<close>

definition duty_of :: "nat \<Rightarrow> duty" where
  "duty_of callback =
     (if callback = 3 then Start_job
      else if callback = 4 then Receive Uart_read
      else if callback = 5 then Receive Pipe_read
      else Forever)"

definition callback_of :: "task \<Rightarrow> nat" where
  "callback_of t = (if t = Uart_read then 4 else 5)"

record lsys =
  lg :: globals
  lp :: pstate
  adding :: "task option"          \<comment> \<open>the loop is in \<open>threadpool_add_job\<close>\<close>
  working :: "(addr \<times> duty) list"   \<comment> \<open>the blocks of the jobs that workers have taken\<close>
  denied :: bool                    \<comment> \<open>\<open>threadpool_add_job\<close> has failed for a job of the serial line\<close>
  ladd_failed :: bool              \<comment> \<open>an \<open>EPOLL_CTL_ADD\<close> of the serial line has failed\<close>

definition lstart :: "globals \<Rightarrow> (nat \<Rightarrow> bool) \<Rightarrow> lsys res" where
  "lstart g out_of_mem =
     bind_ok (threadpool_add_job 1 0 (new_pool 5 10 out_of_mem)) (\<lambda>(_, q1).
     bind_ok (threadpool_add_job 2 0 q1) (\<lambda>(_, q2).
     bind_ok (threadpool_add_job 3 0 q2) (\<lambda>(_, q3).
       Inr \<lparr>lg = g, lp = q3, adding = None, working = [], denied = False,
            ladd_failed = (G_uartfd g \<notin> set (epoll_fds g))\<rparr>)))"

inductive lstep :: "lsys \<Rightarrow> lsys \<Rightarrow> bool" where
  l_dispatch: "adding s = None \<Longrightarrow> fd \<in> set (epoll_fds (lg s)) \<Longrightarrow> dispatch fd (lg s) = (Some t, g') \<Longrightarrow>
    lstep s (s\<lparr>lg := g', adding := Some t\<rparr>)"
| l_add: "adding s = Some t \<Longrightarrow> threadpool_add_job (callback_of t) 0 (lp s) = Inr (Add_ret r woke, q) \<Longrightarrow>
    lstep s (s\<lparr>lp := q, adding := None, denied := denied s \<or> r \<noteq> 0 \<and> t = Uart_read\<rparr>)"
| l_add_waits: "adding s = Some t \<Longrightarrow> threadpool_add_job (callback_of t) 0 (lp s) = Inr (Add_wait, q) \<Longrightarrow>
    lstep s (s\<lparr>lp := q\<rparr>)"
| l_take: "length (working s) < 5 \<Longrightarrow> threadpool_function (lp s) = Inr (Take_job b emptied unfull, q) \<Longrightarrow>
    jobs q b = Some j \<Longrightarrow> lstep s (s\<lparr>lp := q, working := working s @ [(b, duty_of (callback_function j))]\<rparr>)"
| l_start_job: "working s = xs @ (b, Start_job) # ys \<Longrightarrow>
    lstep s (s\<lparr>working := xs @ (b, Returned) # ys\<rparr>)"
| l_uart_reads: "working s = xs @ (b, Receive Uart_read) # ys \<Longrightarrow> uart_reads rd added (lg s) = Inr (t, g') \<Longrightarrow>
    lstep s (s\<lparr>lg := g', working := xs @ (b, Receive t) # ys,
      ladd_failed := ladd_failed s \<or> G_uartfd g' \<notin> set (epoll_fds g')\<rparr>)"
| l_pipe_reads: "working s = xs @ (b, Receive Pipe_read) # ys \<Longrightarrow>
    lstep s (s\<lparr>working := xs @ (b, Receive (pipe_reads r)) # ys\<rparr>)"
| l_stores: "working s = xs @ (b, Receive t) # ys \<Longrightarrow> t \<noteq> Uart_read \<Longrightarrow> t \<noteq> Pipe_read \<Longrightarrow>
    stores t (lg s) = Inr g' \<Longrightarrow> lstep s (s\<lparr>lg := g', working := xs @ (b, Returned) # ys\<rparr>)"
| l_free: "working s = xs @ (b, Returned) # ys \<Longrightarrow> free_job b (lp s) = Inr q \<Longrightarrow>
    lstep s (s\<lparr>lp := q, working := xs @ ys\<rparr>)"

definition lreach :: "globals \<Rightarrow> (nat \<Rightarrow> bool) \<Rightarrow> lsys \<Rightarrow> bool" where
  "lreach g out_of_mem s \<longleftrightarrow> (\<exists>s0. lstart g out_of_mem = Inr s0 \<and> lstep\<^sup>*\<^sup>* s0 s)"

text \<open>The receive handlers among the jobs.\<close>

fun receive_tasks :: "duty list \<Rightarrow> task list" where
  "receive_tasks [] = []"
| "receive_tasks (Receive t # ds) = t # receive_tasks ds"
| "receive_tasks (d # ds) = receive_tasks ds"

definition pool_tasks :: "pstate \<Rightarrow> task list" where
  "pool_tasks q = receive_tasks (map (\<lambda>(callback, _). duty_of callback) (pool_list q))"

definition working_tasks :: "lsys \<Rightarrow> task list" where
  "working_tasks s = receive_tasks (map snd (working s))"

lemma receive_tasks_append [simp]: "receive_tasks (ds @ es) = receive_tasks ds @ receive_tasks es"
  by (induction ds rule: receive_tasks.induct) simp_all

lemma duty_of_callback: "t \<in> {Uart_read, Pipe_read} \<Longrightarrow> duty_of (callback_of t) = Receive t"
  by (auto simp: duty_of_def callback_of_def)

subsection \<open>The pool\<close>

text \<open>\<open>pool_ok q ws as\<close>: the pool is open, its queue the jobs at \<open>as\<close>, and the blocks that workers
  have taken are others, and still allocated.\<close>

definition pool_ok :: "pstate \<Rightarrow> (addr \<times> duty) list \<Rightarrow> addr list \<Rightarrow> bool" where
  "pool_ok q ws as \<longleftrightarrow>
     (\<exists>p. pool_rep q p as \<and> queue_max_num p = 10 \<and> queue_close p = 0 \<and> pool_close p = 0) \<and>
     distinct (map fst ws) \<and> length ws \<le> 5 \<and>
     (\<forall>b \<in> fst ` set ws. b \<notin> set as \<and> b \<noteq> 0 \<and> b \<le> jalloc q \<and> jobs q b \<noteq> None)"

definition duties :: "pstate \<Rightarrow> addr list \<Rightarrow> duty list" where
  "duties q as = map (\<lambda>(callback, _). duty_of callback) (map (job_of q) as)"

lemma pool_ok_tasks: "pool_ok q ws as \<Longrightarrow> pool_tasks q = receive_tasks (duties q as)"
  using pool_rep_list [of q _ as] by (auto simp: pool_ok_def pool_tasks_def duties_def)

lemma pool_ok_inv: "pool_ok q ws as \<Longrightarrow> pool_inv q"
  using pool_invI [of q _ as] by (auto simp: pool_ok_def)

lemma pool_ok_duty: "pool_ok q (xs @ (b, d) # ys) as \<longleftrightarrow> pool_ok q (xs @ (b, d') # ys) as"
  by (simp add: pool_ok_def)

lemma add_cases:
  assumes "pool_ok q ws as" and "threadpool_add_job cb a q = Inr (r, q')"
  shows "(\<exists>woke. r = Add_ret 0 woke) \<and> length as < 10 \<and> pool_ok q' ws (as @ [Suc (jalloc q)]) \<and>
       duties q' (as @ [Suc (jalloc q)]) = duties q as @ [duty_of cb] \<or>
     (r = Add_wait \<or> r = Add_ret (-1) False) \<and> pool_ok q' ws as \<and> duties q' as = duties q as"
proof -
  from assms(1) obtain p where p: "pool_rep q p as" "queue_max_num p = 10" "queue_close p = 0" "pool_close p = 0"
    and ws: "distinct (map fst ws)" "length ws \<le> 5"
      "\<forall>b \<in> fst ` set ws. b \<notin> set as \<and> b \<noteq> 0 \<and> b \<le> jalloc q \<and> jobs q b \<noteq> None"
    by (auto simp: pool_ok_def)
  from p(1,2) have le: "int (length as) \<le> 10" by (simp add: pool_rep_def)
  note R = add_job_refuses [OF p(1), of cb a]
  consider (full) "int (length as) = 10" | (no_memory) "int (length as) < 10" "joom q (jalloc q)"
    | (room) "int (length as) < 10" "\<not> joom q (jalloc q)" using le by linarith
  then show ?thesis
  proof cases
    case full
    with R(1) p assms show ?thesis by simp
  next
    case no_memory
    with R(3) p assms(2) have q': "r = Add_ret (-1) False" "q' = q\<lparr>jalloc := Suc (jalloc q)\<rparr>" by simp_all
    have "pool_rep q' p as" using p(1) q'(2) by (auto simp: pool_rep_def)
    with p(2-4) ws q' show ?thesis by (fastforce simp: pool_ok_def duties_def job_of_def)
  next
    case room
    from room(1) p(2) have "int (length as) < queue_max_num p" by simp
    note A = add_job_ok [OF p(1) this p(3,4) room(2), of cb a]
    have q': "r = Add_ret 0 (as = [])" "q' = after_add q p as cb a" using A(1) assms(2) by simp_all
    have f: "queue_max_num (the (pool q')) = 10" "queue_close (the (pool q')) = 0" "pool_close (the (pool q')) = 0"
      "jalloc q' = Suc (jalloc q)" "\<forall>b. jobs q b \<noteq> None \<longrightarrow> jobs q' b \<noteq> None"
      using p(2-4) q'(2) by (auto simp: after_add_def Let_def)
    have "pool_ok q' ws (as @ [Suc (jalloc q)])"
      unfolding pool_ok_def using A(2) f ws q'(2) by fastforce
    moreover have "duties q' (as @ [Suc (jalloc q)]) = duties q as @ [duty_of cb]"
      unfolding duties_def q'(2) A(3) by simp
    ultimately show ?thesis using q'(1) room(1) by simp
  qed
qed

lemma take_cases:
  assumes "pool_ok q ws as" and "threadpool_function q = Inr (Take_job b emptied unfull, q')" and "length ws < 5"
  obtains bs where "as = b # bs" "jobs q' = jobs q" "pool_ok q' (ws @ [(b, d)]) bs" "duties q' bs = duties q bs"
proof -
  from assms(1) obtain p where p: "pool_rep q p as" "queue_max_num p = 10" "queue_close p = 0" "pool_close p = 0"
    and ws: "distinct (map fst ws)"
      "\<forall>b \<in> fst ` set ws. b \<notin> set as \<and> b \<noteq> 0 \<and> b \<le> jalloc q \<and> jobs q b \<noteq> None"
    by (auto simp: pool_ok_def)
  show ?thesis
  proof (cases as)
    case Nil
    with take_job_waits [of q p] p assms(2) show ?thesis by simp
  next
    case (Cons c bs)
    note T = take_job_ok [OF p(1) [unfolded Cons] p(4)]
    let ?q = "q\<lparr>pool := Some (p\<lparr>jhead := (if bs = [] then 0 else hd bs),
                    jtail := (if bs = [] then 0 else jtail p), queue_cur_num := int (length bs)\<rparr>)\<rparr>"
    have q': "q' = ?q" "c = b" using T(1) assms(2) by simp_all
    have "b \<noteq> 0" "b \<notin> set bs" "b \<le> jalloc q" "jobs q b \<noteq> None"
      using p(1) Cons q'(2) jpath_Some [of "jobs q" "jhead p" as b] by (auto simp: pool_rep_def)
    then have "pool_ok q' (ws @ [(b, d)]) bs"
      using T(2) p(2-4) ws assms(3) Cons q' by (force simp: pool_ok_def)
    moreover have "duties q' bs = duties q bs" unfolding duties_def q'(1) T(3) ..
    ultimately show ?thesis using that Cons q' by simp
  qed
qed

lemma free_cases:
  assumes "pool_ok q (xs @ (b, d) # ys) as"
  obtains q' where "free_job b q = Inr q'" "pool_ok q' (xs @ ys) as" "duties q' as = duties q as"
proof -
  from assms obtain p where p: "pool_rep q p as" "queue_max_num p = 10" "queue_close p = 0" "pool_close p = 0"
    and b: "b \<notin> set as" "b \<noteq> 0" "jobs q b \<noteq> None" "b \<notin> fst ` set (xs @ ys)"
    by (auto simp: pool_ok_def)
  from b(3) obtain j where j: "jobs q b = Some j" by auto
  let ?q = "q\<lparr>jobs := (jobs q)(b := None)\<rparr>"
  note R = run_job_ok [OF p(1) b(1,2) j]
  have "free_job b q = Inr ?q" using b(2) j by (simp add: free_job_def deref_Some)
  moreover have "pool_ok ?q (xs @ ys) as" using assms R(2) p(2-4) b(4) by (auto simp: pool_ok_def)
  moreover have "duties ?q as = duties q as" unfolding duties_def R(3) ..
  ultimately show ?thesis by (rule that)
qed

subsection \<open>Simulation\<close>

text \<open>
  The jobs of the pool are those that are left of the three of the start, and then receive handlers;
  two workers run, or will run, a consumer.
\<close>

definition duties_ok :: "(addr \<times> duty) list \<Rightarrow> duty list \<Rightarrow> bool" where
  "duties_ok ws ds \<longleftrightarrow> (\<exists>ss ts. suffix ss [Forever, Forever, Start_job] \<and> ds = ss @ map Receive ts \<and>
     count_list (map snd ws) Forever + count_list ss Forever = 2)"

text \<open>While the loop is in \<open>threadpool_add_job\<close>, the event has still to come in \<^verbatim>\<open>Event_Loop\<close>.\<close>

fun awaits :: "task option \<Rightarrow> globals \<Rightarrow> globals \<Rightarrow> bool" where
  "awaits None g g' \<longleftrightarrow> g = g'"
| "awaits (Some t) g g' \<longleftrightarrow> (\<exists>fd \<in> set (epoll_fds g). dispatch fd g = (Some t, g'))"

definition simulates :: "lsys \<Rightarrow> esys \<Rightarrow> bool" where
  "simulates s a \<longleftrightarrow>
     (\<exists>as. pool_ok (lp s) (working s) as \<and> duties_ok (working s) (duties (lp s) as) \<and>
        queued a = receive_tasks (duties (lp s) as)) \<and>
     running a = working_tasks s \<and> refused a = denied s \<and> add_failed a = ladd_failed s \<and>
     awaits (adding s) (eg a) (lg s)"

lemma receive_tasks_map [simp]: "receive_tasks (map Receive ts) = ts"
  by (induction ts) simp_all

lemma receive_count: "length (receive_tasks ds) + count_list ds Forever \<le> length ds"
  by (induction ds rule: receive_tasks.induct) auto

lemma duties_ok_add: "duties_ok ws ds \<Longrightarrow> duties_ok ws (ds @ [Receive t])"
proof -
  assume "duties_ok ws ds"
  then obtain ss ts where "suffix ss [Forever, Forever, Start_job]" "ds = ss @ map Receive ts"
    "count_list (map snd ws) Forever + count_list ss Forever = 2" unfolding duties_ok_def by blast
  then show ?thesis unfolding duties_ok_def by (intro exI [of _ ss] exI [of _ "ts @ [t]"]) simp
qed

lemma duties_ok_take:
  assumes "duties_ok ws (d # ds)"
  shows "duties_ok (ws @ [(b, d)]) ds"
    and "d = Receive t \<Longrightarrow> count_list (map snd ws) Forever = 2"
proof -
  from assms obtain ss ts where s: "suffix ss [Forever, Forever, Start_job]" "d # ds = ss @ map Receive ts"
    "count_list (map snd ws) Forever + count_list ss Forever = 2" unfolding duties_ok_def by blast
  have ne: "Receive t \<notin> set ss" for t using set_mono_suffix [OF s(1)] by auto
  have "duties_ok (ws @ [(b, d)]) ds \<and> (d = Receive t \<longrightarrow> count_list (map snd ws) Forever = 2)"
  proof (cases ss)
    case Nil
    with s(2) obtain t' ts' where "ts = t' # ts'" "d = Receive t'" "ds = map Receive ts'" by (cases ts) auto
    with s(3) Nil show ?thesis
      unfolding duties_ok_def by (intro conjI impI exI [of _ "[] :: duty list"] exI [of _ ts']) simp_all
  next
    case (Cons e ss')
    then have "suffix ss' [Forever, Forever, Start_job]" using s(1) suffix_ConsD by metis
    with s(2,3) Cons ne show ?thesis
      unfolding duties_ok_def by (intro conjI impI exI [of _ ss'] exI [of _ ts]) auto
  qed
  then show "duties_ok (ws @ [(b, d)]) ds" "d = Receive t \<Longrightarrow> count_list (map snd ws) Forever = 2" by simp_all
qed

lemma duties_ok_change:
  "d \<noteq> Forever \<Longrightarrow> d' \<noteq> Forever \<Longrightarrow> duties_ok (xs @ (b, d) # ys) ds \<Longrightarrow> duties_ok (xs @ (b, d') # ys) ds"
  "d \<noteq> Forever \<Longrightarrow> duties_ok (xs @ (b, d) # ys) ds \<Longrightarrow> duties_ok (xs @ ys) ds"
  by (auto simp: duties_ok_def)

lemma stores_fds:
  assumes "stores t (g\<lparr>epoll_fds := es\<rparr>) = Inr g'"
  obtains h where "stores t g = Inr h" "g' = h\<lparr>epoll_fds := es\<rparr>"
proof -
  have "recv_enqueue fd buf n (g\<lparr>epoll_fds := es\<rparr>) =
      bind_ok (recv_enqueue fd buf n g) (\<lambda>h. Inr (h\<lparr>epoll_fds := es\<rparr>))" for fd buf n
    unfolding recv_enqueue_def bind_ok_assoc split_def if_distrib [where f = "\<lambda>m. bind_ok m f" for f]
    by (intro bind_ok_cong if_cong) simp_all
  with assms that show ?thesis by (cases t) (auto split: if_splits)
qed

text \<open>What a receive handler does is not changed by an event that is still to come.\<close>

lemma stores_before_dispatch:
  assumes "dispatch fd g = (Some t, g1)" and "stores k g1 = Inr g2"
  obtains h where "stores k g = Inr h" "epoll_fds h = epoll_fds g" "dispatch fd h = (Some t, g2)"
proof (cases "fd = G_uartfd g")
  case True
  with assms(1) have "t = Uart_read" "g1 = g\<lparr>epoll_fds := removeAll fd (epoll_fds g)\<rparr>"
    by (simp_all add: dispatch_def epoll_del_def)
  with assms(2) obtain h where h: "stores k g = Inr h" "g2 = h\<lparr>epoll_fds := removeAll fd (epoll_fds g)\<rparr>"
    by (auto elim: stores_fds)
  from stores_idle [OF h(1)] h(2) \<open>t = Uart_read\<close> True show ?thesis
    by (intro that [OF h(1)]) (simp_all add: dispatch_def epoll_del_def)
next
  case False
  with assms(1) have g1: "t = Pipe_read" "g1 = g" "fd = G_pipefd g" by (simp_all add: dispatch_def split: if_splits)
  with stores_idle [of k g g2] assms(2) False show ?thesis
    by (intro that [of g2]) (simp_all add: dispatch_def)
qed

lemma stores_awaits:
  assumes "awaits ad g g1" and "stores k g1 = Inr g2"
  obtains h where "stores k g = Inr h" "awaits ad h g2"
proof (cases ad)
  case None
  with assms that show ?thesis by simp
next
  case (Some t)
  with assms(1) obtain fd where fd: "fd \<in> set (epoll_fds g)" "dispatch fd g = (Some t, g1)" by auto
  obtain h where "stores k g = Inr h" "epoll_fds h = epoll_fds g" "dispatch fd h = (Some t, g2)"
    by (rule stores_before_dispatch [OF fd(2) assms(2)])
  with fd(1) Some show ?thesis by (intro that [of h]) auto
qed

lemma reads_awaits:
  assumes "awaits ad g g1" and "uart_reads rd added g1 = Inr (t, g2)" and "G_uartfd g \<notin> set (epoll_fds g)"
  obtains h where "uart_reads rd added g = Inr (t, h)" "awaits ad h g2" "G_uartfd h = G_uartfd g2"
    "epoll_fds h = epoll_fds g2"
proof (cases ad)
  case None
  with assms that show ?thesis by simp
next
  case (Some t')
  with assms(1) obtain fd where fd: "fd \<in> set (epoll_fds g)" "dispatch fd g = (Some t', g1)" by auto
  with assms(3) have "fd \<noteq> G_uartfd g" by auto
  with fd(2) have g1: "t' = Pipe_read" "g1 = g" "fd = G_pipefd g" by (simp_all add: dispatch_def split: if_splits)
  have g2: "g2 = epoll_add added (G_uartfd g) g" using assms(2) g1(2) by (auto simp: uart_reads_def)
  have "dispatch fd g2 = (Some t', g2)" "fd \<in> set (epoll_fds g2)"
    using g1 g2 fd(1) \<open>fd \<noteq> G_uartfd g\<close> by (simp_all add: dispatch_def epoll_add_def)
  then show ?thesis using that [of g2] assms(2) g1(2) Some by auto
qed

lemma simulation:
  assumes "lstep s s'" and "simulates s a" and "einv a"
  shows "\<exists>a'. estep\<^sup>*\<^sup>* a a' \<and> simulates s' a'"
  using assms
proof (induction rule: lstep.induct)
  case (l_dispatch s fd t g')
  then show ?case by (intro exI [of _ a]) (auto simp: simulates_def working_tasks_def)
next
  case (l_add s t r woke q)
  from l_add(3) obtain as where as: "pool_ok (lp s) (working s) as" "duties_ok (working s) (duties (lp s) as)"
    "queued a = receive_tasks (duties (lp s) as)" by (auto simp: simulates_def)
  from l_add(1,3) obtain fd where fd: "fd \<in> set (epoll_fds (eg a))" "dispatch fd (eg a) = (Some t, lg s)"
    by (auto simp: simulates_def)
  then have d: "duty_of (callback_of t) = Receive t" using dispatch_cases [OF fd(2)] duty_of_callback by blast
  from add_cases [OF as(1) l_add(2)] show ?case
  proof
    assume *: "(\<exists>w. Add_ret r woke = Add_ret 0 w) \<and> length as < 10 \<and>
      pool_ok q (working s) (as @ [Suc (jalloc (lp s))]) \<and>
      duties q (as @ [Suc (jalloc (lp s))]) = duties (lp s) as @ [duty_of (callback_of t)]"
    have "length (queued a) < 10"
      using * receive_count [of "duties (lp s) as"] as(3) by (simp add: duties_def)
    from event [OF fd this] have "estep a (a\<lparr>eg := lg s, queued := queued a @ [t]\<rparr>)" .
    with * l_add(3) as duties_ok_add [OF as(2), of t] show ?thesis unfolding d
      by (intro exI [of _ "a\<lparr>eg := lg s, queued := queued a @ [t]\<rparr>"] conjI)
        (auto simp: simulates_def working_tasks_def)
  next
    assume *: "(Add_ret r woke = Add_wait \<or> Add_ret r woke = Add_ret (-1) False) \<and>
      pool_ok q (working s) as \<and> duties q as = duties (lp s) as"
    from event_refused [OF fd] have "estep a (a\<lparr>eg := lg s, refused := refused a \<or> t = Uart_read\<rparr>)" .
    with * l_add(3) as show ?thesis
      by (intro exI [of _ "a\<lparr>eg := lg s, refused := refused a \<or> t = Uart_read\<rparr>"] conjI)
        (auto simp: simulates_def working_tasks_def)
  qed
next
  case (l_add_waits s t q)
  from l_add_waits(3) obtain as where as: "pool_ok (lp s) (working s) as" "duties_ok (working s) (duties (lp s) as)"
    "queued a = receive_tasks (duties (lp s) as)" by (auto simp: simulates_def)
  from add_cases [OF as(1) l_add_waits(2)] as l_add_waits(1,3) show ?case
    by (intro exI [of _ a]) (auto simp: simulates_def working_tasks_def)
next
  case (l_take s b emptied unfull q j)
  from l_take(4) obtain as where as: "pool_ok (lp s) (working s) as" "duties_ok (working s) (duties (lp s) as)"
    "queued a = receive_tasks (duties (lp s) as)" by (auto simp: simulates_def)
  let ?d = "duty_of (callback_function j)"
  obtain bs where bs: "as = b # bs" "jobs q = jobs (lp s)" "pool_ok q (working s @ [(b, ?d)]) bs"
    "duties q bs = duties (lp s) bs"
    by (rule take_cases [OF as(1) l_take(2,1)])
  have ds: "duties (lp s) as = ?d # duties q bs"
    using bs(1,2,4) l_take(3) by (simp add: duties_def job_of_def)
  note T = duties_ok_take [OF as(2) [unfolded ds]]
  let ?s = "s\<lparr>lp := q, working := working s @ [(b, ?d)]\<rparr>"
  show ?case
  proof (cases "\<exists>t. ?d = Receive t")
    case True
    then obtain t where t: "?d = Receive t" by blast
    have "length (running a) < 3"
      using receive_count [of "map snd (working s)"] T(2) [OF t] l_take(1,4)
      by (simp add: simulates_def working_tasks_def)
    moreover have "queued a = t # receive_tasks (duties q bs)" using as(3) ds t by simp
    ultimately have "estep a (a\<lparr>queued := receive_tasks (duties q bs), running := running a @ [t]\<rparr>)"
      by (intro job_starts)
    with l_take(4) bs(3) T(1) t show ?thesis
      by (intro exI [of _ "a\<lparr>queued := receive_tasks (duties q bs), running := running a @ [t]\<rparr>"] conjI)
        (auto simp: simulates_def working_tasks_def)
  next
    case False
    then have "receive_tasks [?d] = []" "queued a = receive_tasks (duties q bs)"
      using as(3) ds by (cases ?d; simp)+
    with l_take(4) bs(3) T(1) show ?thesis
      by (intro exI [of _ a] conjI) (auto simp: simulates_def working_tasks_def)
  qed
next
  case (l_start_job s xs b ys)
  then show ?case
    using duties_ok_change(1) [of Start_job Returned xs b ys] pool_ok_duty [of "lp s" xs b Start_job ys _ Returned]
    by (intro exI [of _ a]) (auto simp: simulates_def working_tasks_def)
next
  case (l_uart_reads s xs b ys rd added t g')
  from l_uart_reads(1,3) have r: "running a = receive_tasks (map snd xs) @ Uart_read # receive_tasks (map snd ys)"
    by (simp add: simulates_def working_tasks_def)
  then have u: "\<not> listening a" using l_uart_reads(4) by (auto simp: einv_def serial_jobs_def)
  have aw: "awaits (adding s) (eg a) (lg s)" using l_uart_reads(3) by (simp add: simulates_def)
  obtain h where h: "uart_reads rd added (eg a) = Inr (t, h)" "awaits (adding s) h g'"
    "G_uartfd h = G_uartfd g'" "epoll_fds h = epoll_fds g'"
    by (rule reads_awaits [OF aw l_uart_reads(2)]) (use u in \<open>auto simp: listening_def\<close>)
  let ?a = "a\<lparr>eg := h, running := receive_tasks (map snd xs) @ t # receive_tasks (map snd ys),
    add_failed := add_failed a \<or> G_uartfd h \<notin> set (epoll_fds h)\<rparr>"
  have "estep a ?a" by (rule uart_job_reads [OF _ h(1)]) (use r in simp)
  then show ?case
    using l_uart_reads(1,3) h(2-4) duties_ok_change(1) [of "Receive Uart_read" "Receive t" xs b ys]
      pool_ok_duty [of "lp s" xs b "Receive Uart_read" ys _ "Receive t"]
    by (intro exI [of _ ?a]) (auto simp: simulates_def working_tasks_def)
next
  case (l_pipe_reads s xs b ys r)
  let ?a = "a\<lparr>running := receive_tasks (map snd xs) @ pipe_reads r # receive_tasks (map snd ys)\<rparr>"
  have "estep a ?a" by (rule pipe_job_reads) (use l_pipe_reads(1,2) in \<open>simp add: simulates_def working_tasks_def\<close>)
  then show ?case
    using l_pipe_reads(1,2) duties_ok_change(1) [of "Receive Pipe_read" "Receive (pipe_reads r)" xs b ys]
      pool_ok_duty [of "lp s" xs b "Receive Pipe_read" ys _ "Receive (pipe_reads r)"]
    by (intro exI [of _ ?a]) (auto simp: simulates_def working_tasks_def)
next
  case (l_stores s xs b t ys g')
  have aw: "awaits (adding s) (eg a) (lg s)" using l_stores(5) by (simp add: simulates_def)
  obtain h where h: "stores t (eg a) = Inr h" "awaits (adding s) h g'" by (rule stores_awaits [OF aw l_stores(4)])
  let ?a = "a\<lparr>eg := h, running := receive_tasks (map snd xs) @ receive_tasks (map snd ys)\<rparr>"
  have "estep a ?a" 
    by (rule job_stores [OF _ l_stores(2,3) h(1)]) (use l_stores(1,5) in \<open>simp add: simulates_def working_tasks_def\<close>)
  then show ?case
    using l_stores(1,5) h(2) duties_ok_change(1) [of "Receive t" Returned xs b ys]
      pool_ok_duty [of "lp s" xs b "Receive t" ys _ Returned]
    by (intro exI [of _ ?a]) (auto simp: simulates_def working_tasks_def)
next
  case (l_free s xs b ys q)
  from l_free(3) obtain as where as: "pool_ok (lp s) (xs @ (b, Returned) # ys) as"
    "duties_ok (xs @ (b, Returned) # ys) (duties (lp s) as)" "queued a = receive_tasks (duties (lp s) as)"
    unfolding simulates_def l_free(1) by blast
  obtain q' where "free_job b (lp s) = Inr q'" "pool_ok q' (xs @ ys) as" "duties q' as = duties (lp s) as"
    by (rule free_cases [OF as(1)])
  with l_free as(3) duties_ok_change(2) [OF _ as(2)] show ?case
    by (intro exI [of _ a] conjI) (auto simp: simulates_def working_tasks_def)
qed

subsection \<open>The start\<close>

lemma add_room:
  assumes "pool_ok q ws as" and "length as < 10" and "\<not> joom q (jalloc q)"
  obtains woke q' where "threadpool_add_job cb a q = Inr (Add_ret 0 woke, q')"
    "pool_ok q' ws (as @ [Suc (jalloc q)])" "duties q' (as @ [Suc (jalloc q)]) = duties q as @ [duty_of cb]"
    "jalloc q' = Suc (jalloc q)" "joom q' = joom q"
proof -
  from assms(1,2) obtain p where p: "pool_rep q p as" "int (length as) < queue_max_num p"
    "queue_close p = 0" "pool_close p = 0" by (auto simp: pool_ok_def)
  from add_job_ok(1) [OF this assms(3), of cb a] have
    e: "threadpool_add_job cb a q = Inr (Add_ret 0 (as = []), after_add q p as cb a)" .
  from add_cases [OF assms(1) this] that [OF e] show ?thesis by (simp add: after_add_def Let_def)
qed

lemma lstart_simulates:
  assumes "\<forall>n < 3. \<not> out_of_mem n"
  obtains s0 where "lstart g out_of_mem = Inr s0" "simulates s0 (estart g)" "lg s0 = g" "adding s0 = None"
proof -
  let ?q0 = "new_pool 5 10 out_of_mem"
  have q0: "pool_ok ?q0 [] []" "duties ?q0 [] = []" "jalloc ?q0 = 0" "joom ?q0 = out_of_mem"
    by (simp_all add: pool_ok_def new_pool_def init_state_def threadpool_init_def pool_rep_def duties_def INT_MAX_def)
  obtain w1 q1 where 1: "threadpool_add_job 1 0 ?q0 = Inr (Add_ret 0 w1, q1)" "pool_ok q1 [] [1]"
    "duties q1 [1] = [Forever]" "jalloc q1 = 1" "joom q1 = out_of_mem"
    by (rule add_room [OF q0(1), where cb = 1 and a = 0]) (use assms q0 in \<open>simp_all add: duty_of_def\<close>)
  obtain w2 q2 where 2: "threadpool_add_job 2 0 q1 = Inr (Add_ret 0 w2, q2)" "pool_ok q2 [] [1, 2]"
    "duties q2 [1, 2] = [Forever, Forever]" "jalloc q2 = 2" "joom q2 = out_of_mem"
    by (rule add_room [OF 1(2), where cb = 2 and a = 0])
      (use assms 1 in \<open>simp_all add: duty_of_def numeral_2_eq_2\<close>)
  obtain w3 q3 where 3: "threadpool_add_job 3 0 q2 = Inr (Add_ret 0 w3, q3)" "pool_ok q3 [] [1, 2, 3]"
    "duties q3 [1, 2, 3] = [Forever, Forever, Start_job]"
    by (rule add_room [OF 2(2), where cb = 3 and a = 0])
      (use assms 2 in \<open>simp_all add: duty_of_def eval_nat_numeral\<close>)
  let ?s = "\<lparr>lg = g, lp = q3, adding = None, working = [], denied = False,
    ladd_failed = (G_uartfd g \<notin> set (epoll_fds g))\<rparr>"
  have "lstart g out_of_mem = Inr ?s" using 1(1) 2(1) 3(1) by (simp add: lstart_def)
  moreover have "duties_ok [] [Forever, Forever, Start_job]"
    unfolding duties_ok_def by (intro exI [of _ "[Forever, Forever, Start_job]"] exI [of _ "[] :: task list"]) simp
  then have "simulates ?s (estart g)"
    using 3(2,3) by (auto simp: simulates_def estart_def working_tasks_def intro!: exI [of _ "[1, 2, 3]"])
  ultimately show ?thesis using that by simp
qed

lemma simulates_steps:
  assumes "lstep\<^sup>*\<^sup>* s0 s" and "simulates s0 (estart g)"
  shows "\<exists>a. ereach g a \<and> simulates s a"
  using assms(1)
proof (induction rule: rtranclp_induct)
  case base
  with assms(2) show ?case by (auto simp: ereach_def)
next
  case (step s1 s2)
  then obtain a where a: "ereach g a" "simulates s1 a" by blast
  from simulation [OF step.hyps(2) a(2) einv_reach [OF a(1)]] a(1) show ?case
    unfolding ereach_def by (meson rtranclp_trans)
qed

lemma loop_simulates:
  assumes "\<forall>n < 10. \<not> se_oom env n" and "\<not> se_fcntl env (-1)" and "main k env = Inr (Running g)"
    and "\<forall>n < 3. \<not> out_of_mem n" and "lreach g out_of_mem s"
  obtains a where "ereach g a" "simulates s a" "einv a"
proof -
  obtain s0 where "lstart g out_of_mem = Inr s0" and sim: "simulates s0 (estart g)"
    by (rule lstart_simulates [OF assms(4), of g])
  with assms(5) have "lstep\<^sup>*\<^sup>* s0 s" by (simp add: lreach_def)
  from simulates_steps [OF this sim] obtain a where a: "ereach g a" "simulates s a" by (elim exE conjE)
  from that [OF a einv_reach [OF a(1)]] show ?thesis .
qed

lemma pool_sections_run:
  assumes "pool_ok q ws as"
  shows "\<exists>r. threadpool_add_job cb a q = Inr r" and "\<exists>r. threadpool_function q = Inr r"
    and "(b, d) \<in> set ws \<Longrightarrow> \<exists>q'. free_job b q = Inr q'"
proof -
  note inv = pool_ok_inv [OF assms]
  from put_job_law [OF inv, of "(cb, a)"] show "\<exists>r. threadpool_add_job cb a q = Inr r"
    by (auto simp: put_job_def)
  from get_job_law [OF inv] show "\<exists>r. threadpool_function q = Inr r" by (auto simp: get_job_def)
  assume "(b, d) \<in> set ws"
  then obtain xs ys where "ws = xs @ (b, d) # ys" by (meson split_list)
  with assms show "\<exists>q'. free_job b q = Inr q'" by (auto elim: free_cases)
qed

subsection \<open>Properties\<close>

text \<open>C9: the loop of \<open>epoll_start\<close> on the thread pool, from \<open>main\<close> on and in every interleaving, does
  what the loop with a plain queue does: the receive handlers in the queue of the pool and those
  taken by workers are the queued and the running jobs of a state that \<^verbatim>\<open>Event_Loop\<close> reaches,
  with the same globals unless an event is still on its way into the pool; and no call of the
  pool, and no release of a job, makes an error.\<close>

theorem loop_on_pool_refines:
  assumes "\<forall>n < 10. \<not> se_oom env n" and "\<not> se_fcntl env (-1)" and "main k env = Inr (Running g)"
    and "\<forall>n < 3. \<not> out_of_mem n" and "lreach g out_of_mem s"
  shows "(\<exists>a. ereach g a \<and> queued a = pool_tasks (lp s) \<and> running a = working_tasks s \<and>
       refused a = denied s \<and> add_failed a = ladd_failed s \<and> awaits (adding s) (eg a) (lg s)) \<and>
     (\<forall>cb x. \<exists>r. threadpool_add_job cb x (lp s) = Inr r) \<and> (\<exists>r. threadpool_function (lp s) = Inr r) \<and>
     (\<forall>(b, d) \<in> set (working s). \<exists>q. free_job b (lp s) = Inr q)"
proof -
  obtain a where a: "ereach g a" "simulates s a" by (rule loop_simulates [OF assms])
  then obtain as where as: "pool_ok (lp s) (working s) as" "queued a = receive_tasks (duties (lp s) as)"
    unfolding simulates_def by blast
  have "queued a = pool_tasks (lp s)" using as pool_ok_tasks by simp
  with a pool_sections_run [OF as(1)] show ?thesis unfolding simulates_def by blast
qed

text \<open>C8: the serial line has one reader, on the pool itself: in every reachable state either the
  line is in the epoll set, or exactly one job that has yet to put it back is on its way into the
  pool, queued there, or taken by a worker, or a job of the line has been refused, or an
  \<open>EPOLL_CTL_ADD\<close> of the line has failed, and only one of these holds.\<close>

theorem loop_on_pool_one_reader:
  assumes "\<forall>n < 10. \<not> se_oom env n" and "\<not> se_fcntl env (-1)" and "main k env = Inr (Running g)"
    and "\<forall>n < 3. \<not> out_of_mem n" and "lreach g out_of_mem s"
  shows "count_list (pool_tasks (lp s) @ working_tasks s) Uart_read + of_bool (adding s = Some Uart_read) +
     of_bool (G_uartfd (lg s) \<in> set (epoll_fds (lg s))) + of_bool (denied s) + of_bool (ladd_failed s) = 1"
proof -
  obtain a where a: "ereach g a" "simulates s a" "einv a" by (rule loop_simulates [OF assms])
  then have q: "queued a = pool_tasks (lp s)" "running a = working_tasks s" "refused a = denied s" "add_failed a = ladd_failed s"
    "awaits (adding s) (eg a) (lg s)"
    using pool_ok_tasks unfolding simulates_def by metis+
  have "of_bool (adding s = Some Uart_read) + of_bool (G_uartfd (lg s) \<in> set (epoll_fds (lg s))) =
      (of_bool (listening a) :: nat)"
    using q(5) by (cases "adding s") (auto simp: listening_def dest: dispatch_cases)
  then show ?thesis using a(3) q(1-4) by (simp add: einv_def serial_jobs_def)
qed

subsection \<open>The properties at concrete inputs\<close>

lemma serial_dispatched:
  obtains g s where "main linux_flags good_env = Inr (Running g)" "lreach g (\<lambda>_. False) s" "adding s = Some Uart_read"
proof -
  from boot_sys [of "\<lambda>_. False" 3 4] obtain g0 where "boot 3 4 (\<lambda>_. False) = Inr g0" by auto
  then obtain g where g: "main linux_flags good_env = Inr (Running g)"
    using main_cases [of good_env linux_flags] by (simp add: good_env_def)
  have "\<forall>n < 10. \<not> se_oom good_env n" "\<not> se_fcntl good_env (-1)" by (simp_all add: good_env_def)
  from main_running(5,10) [OF this g] have u: "G_uartfd g \<in> set (epoll_fds g)"
    by (simp add: watched_fds_def good_env_def)
  have "\<forall>n < 3. \<not> (\<lambda>_. False) (n :: nat)" by simp
  then obtain s0 where s0: "lstart g (\<lambda>_. False) = Inr s0" "lg s0 = g" "adding s0 = None"
    by (rule lstart_simulates)
  have "dispatch (G_uartfd g) (lg s0) = (Some Uart_read, epoll_del (G_uartfd g) g)"
    using s0(2) by (simp add: dispatch_def)
  from l_dispatch [OF s0(3) _ this] u s0(2)
  have "lstep s0 (s0\<lparr>lg := epoll_del (G_uartfd g) g, adding := Some Uart_read\<rparr>)" by simp
  then have "lreach g (\<lambda>_. False) (s0\<lparr>lg := epoll_del (G_uartfd g) g, adding := Some Uart_read\<rparr>)"
    using s0(1) by (auto simp: lreach_def)
  from that [OF g this] show ?thesis by simp
qed

lemma loop_on_pool_refines_witness:
  "\<exists>g s r. main linux_flags good_env = Inr (Running g) \<and> lreach g (\<lambda>_. False) s \<and>
     adding s = Some Uart_read \<and> threadpool_add_job (callback_of Uart_read) 0 (lp s) = Inr r"
proof -
  obtain g s where s: "main linux_flags good_env = Inr (Running g)" "lreach g (\<lambda>_. False) s" "adding s = Some Uart_read"
    by (rule serial_dispatched)
  have "\<forall>n < 10. \<not> se_oom good_env n" "\<not> se_fcntl good_env (-1)" "\<forall>n < 3. \<not> (\<lambda>_. False) (n :: nat)"
    by (simp_all add: good_env_def)
  from loop_on_pool_refines [OF this(1,2) s(1) this(3) s(2)] s show ?thesis by blast
qed

lemma loop_on_pool_one_reader_witness:
  "\<exists>g s. main linux_flags good_env = Inr (Running g) \<and> lreach g (\<lambda>_. False) s \<and>
     adding s = Some Uart_read \<and> G_uartfd (lg s) \<notin> set (epoll_fds (lg s)) \<and>
     count_list (pool_tasks (lp s) @ working_tasks s) Uart_read = 0"
proof -
  obtain g s where s: "main linux_flags good_env = Inr (Running g)" "lreach g (\<lambda>_. False) s" "adding s = Some Uart_read"
    by (rule serial_dispatched)
  have "\<forall>n < 10. \<not> se_oom good_env n" "\<not> se_fcntl good_env (-1)" "\<forall>n < 3. \<not> (\<lambda>_. False) (n :: nat)"
    by (simp_all add: good_env_def)
  from loop_on_pool_one_reader [OF this(1,2) s(1) this(3) s(2)] s show ?thesis
    by (intro exI [of _ g] exI [of _ s]) auto
qed

end
