(* ===== verification/Message_Queue.thy ===== *)
theory Message_Queue
  imports Daemon
begin

text \<open>
  The receive list as its clients see it: the receive handlers put messages in
  (\<open>recv_enqueue\<close>), \<open>data_process\<close> tests the list and takes the first message into its own
  node.  With memory available the list is a \<open>bounded_queue\<close>, bounded by its counter.
\<close>

definition recv_put :: "msg \<Rightarrow> globals \<Rightarrow> (bool \<times> globals) res" where
  "recv_put x g =
     bind_ok (recv_enqueue (m_fd x) (m_bytes x) (int (length (m_bytes x))) g) (\<lambda>g'. Inr (True, g'))"

definition recv_get :: "globals \<Rightarrow> (msg option \<times> globals) res" where
  \<comment> \<open>\<open>data_process\<close> up to \<open>singlelinklist_pop_node\<close>; an empty list is left alone\<close>
  "recv_get g =
     bind_ok (is_singlelinklist_empty (G_recv_linklist g) (heap g)) (\<lambda>e.
     if e \<noteq> 0 then Inr (None, g)
     else
       bind_ok (deref (nodes (heap g)) (dp_node g)) (\<lambda>n.
       bind_ok (deref (infs (heap g)) (data n)) (\<lambda>i.
       bind_ok (memset0 (pdata i) 1024 (heap g)) (\<lambda>m1.
       bind_ok (singlelinklist_pop_node (G_recv_linklist g) (dp_node g) m1) (\<lambda>m2.
         Inr (Some (node_msg m2 (dp_node g)), g\<lparr>heap := m2\<rparr>))))))"

definition list_ready :: "globals \<Rightarrow> bool" where
  "list_ready g \<longleftrightarrow> sys_inv g \<and> (\<forall>n. \<not> oom (heap g) n)"

definition storable :: "msg \<Rightarrow> bool" where
  "storable x \<longleftrightarrow> m_bytes x \<noteq> [] \<and> length (m_bytes x) \<le> 1024 \<and> m_to x = 0"

lemma recv_put_law:
  assumes "list_ready g" and "storable x" and "length (recv_msgs g) < nat INT_MAX"
  shows "\<exists>g'. recv_put x g = Inr (True, g') \<and> list_ready g' \<and> recv_msgs g' = recv_msgs g @ [x]"
proof -
  from assms(1) have I: "sys_inv g" "\<forall>n. \<not> oom (heap g) n" by (simp_all add: list_ready_def)
  obtain sr rs ss sn where ok: "sys_ok g sr rs ss sn" by (rule sys_invE [OF I(1)])
  have al: "alloc_ok (heap g) 3" using I(2) by (simp add: alloc_ok_def)
  have room: "int (length rs) < INT_MAX" using assms(3) sys_ok_msgs(2) [OF ok] by (simp add: INT_MAX_def)
  let ?n = "int (length (m_bytes x))"
  have len: "0 < ?n" "?n \<le> 1024" "?n \<le> int (length (m_bytes x))" using assms(2) by (simp_all add: storable_def)
  have x: "\<lparr>m_bytes = take (nat ?n) (m_bytes x), m_fd = m_fd x, m_to = 0\<rparr> = x" using assms(2) by (simp add: storable_def)
  from recv_enqueue_sys [OF ok len al room, of "m_fd x", unfolded x] obtain m' where
    "recv_enqueue (m_fd x) (m_bytes x) ?n g = Inr (g\<lparr>heap := m'\<rparr>)" "sys_inv (g\<lparr>heap := m'\<rparr>)"
    "recv_msgs (g\<lparr>heap := m'\<rparr>) = recv_msgs g @ [x]" "oom m' = oom (heap g)"
    using sys_ok_msgs(1) by blast
  with I(2) show ?thesis by (intro exI [of _ "g\<lparr>heap := m'\<rparr>"]) (simp add: recv_put_def list_ready_def)
qed

lemma recv_get_law:
  assumes "list_ready g"
  shows "\<exists>g'. recv_get g = Inr (case recv_msgs g of [] \<Rightarrow> None | x # _ \<Rightarrow> Some x, g') \<and> list_ready g' \<and>
     recv_msgs g' = tl (recv_msgs g)"
proof -
  from assms have I: "sys_inv g" "\<forall>n. \<not> oom (heap g) n" by (simp_all add: list_ready_def)
  obtain sr rs ss sn where ok: "sys_ok g sr rs ss sn" by (rule sys_invE [OF I(1)])
  note M = sys_ok_msgs(2) [OF ok]
  have e: "is_singlelinklist_empty (G_recv_linklist g) (heap g) = Inr (if rs = [] then 1 else 0)"
    using ok by (simp add: sys_ok_def chan_ok_def ll_shape_def is_singlelinklist_empty_def deref_def)
  show ?thesis
  proof (cases rs)
    case Nil
    with e M assms show ?thesis by (simp add: recv_get_def)
  next
    case (Cons n rs')
    obtain nd i m1 m2 where T:
      "deref (nodes (heap g)) (dp_node g) = Inr nd" "deref (infs (heap g)) (data nd) = Inr i"
      "memset0 (pdata i) 1024 (heap g) = Inr m1"
      "singlelinklist_pop_node (G_recv_linklist g) (dp_node g) m1 = Inr m2"
      "sys_ok (g\<lparr>heap := m2\<rparr>) sr rs' ss sn" "recv_msgs g = node_msg (heap g) n # recv_msgs (g\<lparr>heap := m2\<rparr>)"
      "node_msg m2 (dp_node g) = node_msg (heap g) n" "oom m2 = oom (heap g)"
      by (rule take_sys [OF ok [unfolded Cons]])
    with e Cons I(2) sys_ok_msgs(1) [OF T(5)] show ?thesis
      by (intro exI [of _ "g\<lparr>heap := m2\<rparr>"]) (simp add: recv_get_def list_ready_def)
  qed
qed

interpretation recv_list: bounded_queue list_ready recv_msgs "\<lambda>g. length (recv_msgs g) < nat INT_MAX"
  storable recv_put recv_get "nat INT_MAX"
  by unfold_locales (rule recv_put_law recv_get_law; assumption)+

text \<open>C24: any script of stores and takes on the receive list, as long as the counter has room:
  every message is stored, and they come out in the order in which they were stored.\<close>

theorem receive_list_any_script:
  assumes "list_ready g" and "\<forall>x \<in> set (puts ops). storable x"
    and "length (recv_msgs g) + length (puts ops) \<le> nat INT_MAX"
  shows "\<exists>taken g'. run_queue recv_put recv_get ops g = Inr (puts ops, taken, g') \<and> list_ready g' \<and>
     taken @ recv_msgs g' = recv_msgs g @ puts ops"
  using recv_list.run_bounded [OF assms] by blast

lemma receive_list_any_script_witness:
  "\<exists>g taken g'. boot 3 4 (\<lambda>_. False) = Inr g \<and>
     run_queue recv_put recv_get
       [Put \<lparr>m_bytes = ''a'', m_fd = 3, m_to = 0\<rparr>, Put \<lparr>m_bytes = ''b'', m_fd = 4, m_to = 0\<rparr>, Get] g =
       Inr ([\<lparr>m_bytes = ''a'', m_fd = 3, m_to = 0\<rparr>, \<lparr>m_bytes = ''b'', m_fd = 4, m_to = 0\<rparr>], taken, g') \<and>
     taken @ recv_msgs g' = [\<lparr>m_bytes = ''a'', m_fd = 3, m_to = 0\<rparr>, \<lparr>m_bytes = ''b'', m_fd = 4, m_to = 0\<rparr>]"
proof -
  let ?ops = "[Put \<lparr>m_bytes = ''a'', m_fd = 3, m_to = 0\<rparr>, Put \<lparr>m_bytes = ''b'', m_fd = 4, m_to = 0\<rparr>, Get]"
  from boot_sys [of "\<lambda>_. False" 3 4] obtain g where
    g: "boot 3 4 (\<lambda>_. False) = Inr g" "sys_ok g 1 [] 3 []" "recv_msgs g = []" "oom (heap g) = (\<lambda>_. False)" by auto
  have "list_ready g" using g(4) sys_ok_msgs(1) [OF g(2)] by (simp add: list_ready_def)
  moreover have "\<forall>x \<in> set (puts ?ops). storable x" "length (recv_msgs g) + length (puts ?ops) \<le> nat INT_MAX"
    using g(3) by (simp_all add: storable_def INT_MAX_def)
  ultimately obtain taken g' where "run_queue recv_put recv_get ?ops g = Inr (puts ?ops, taken, g')"
    "taken @ recv_msgs g' = recv_msgs g @ puts ?ops"
    using receive_list_any_script by blast
  with g(1,3) show ?thesis by (simp only: puts.simps append_Nil) blast
qed

text \<open>The iteration of the parser is the take followed by \<open>data_parse\<close> on its node.\<close>

lemma data_process_takes:
  assumes "is_singlelinklist_empty (G_recv_linklist g) (heap g) = Inr 0"
  shows "data_process t g = bind_ok (recv_get g) (\<lambda>(_, g').
     bind_ok (deref (nodes (heap g')) (dp_node g')) (\<lambda>n. data_parse (data n) t g'))"
  using assms by (simp add: data_process_def recv_get_def bind_ok_assoc)

end
