(* ===== verification/Sockets.thy ===== *)
theory Sockets
  imports Uart_Pipeline
begin

text \<open>
  The local-socket server: \<open>init_socket_server\<close> (\<^verbatim>\<open>socket_server.c\<close>), \<open>accept_new_client\<close>
  (\<^verbatim>\<open>epoll_server.c\<close>) and \<open>sock_accept_handler\<close> (\<^verbatim>\<open>uart_start.c\<close>).  What the system calls
  return is an argument, and so are the indeterminate bytes of a local variable.
\<close>

subsection \<open>Creating the server\<close>

record sockaddr_un =
  sun_family :: "char list"   \<comment> \<open>two bytes\<close>
  sun_path :: "char list"     \<comment> \<open>108 bytes\<close>

definition c_strncpy :: "char list \<Rightarrow> string \<Rightarrow> nat \<Rightarrow> char list" where
  \<comment> \<open>at most \<open>n\<close> characters of the source, then NULs up to \<open>n\<close>\<close>
  "c_strncpy dst s n = take n (s @ replicate n NUL) @ drop n dst"

definition zero_front :: "nat \<Rightarrow> sockaddr_un \<Rightarrow> sockaddr_un" where
  \<comment> \<open>\<open>memset\<close> of the first \<open>n\<close> bytes of the structure\<close>
  "zero_front n a =
     \<lparr>sun_family = replicate (min n 2) NUL @ drop n (sun_family a),
      sun_path = replicate (min (n - 2) 108) NUL @ drop (n - 2) (sun_path a)\<rparr>"

definition init_socket_server ::
    "nat \<Rightarrow> char list \<Rightarrow> sockaddr_un \<Rightarrow> string \<Rightarrow> int \<Rightarrow> int \<Rightarrow> int \<Rightarrow> int list \<Rightarrow>
     int option \<times> int \<times> sockaddr_un \<times> int list" where
  \<comment> \<open>The size of a pointer, the bytes of \<open>AF_UNIX\<close>, the indeterminate structure, the name, the
      results of \<open>socket\<close>, \<open>bind\<close> and \<open>listen\<close>, and the open descriptors.  The result is the
      return value, if there is one, \<open>*sockfd\<close>, the address given to \<open>bind\<close> and the descriptors.\<close>
  "init_socket_server ptr_size AF_UNIX garbage sock_file_name sock bound listening fds =
     (let a1 = zero_front ptr_size garbage;
          a2 = a1\<lparr>sun_family := AF_UNIX\<rparr>;
          a3 = a2\<lparr>sun_path := c_strncpy (sun_path a2) sock_file_name (108 - 1)\<rparr> in
      if sock = -1 then (Some (-1), sock, a3, fds)
      else if bound = -1 then (Some (-1), sock, a3, sock # fds)
      else if listening = -1 then (Some (-1), sock, a3, sock # fds)
      else (None, sock, a3, sock # fds))"

subsection \<open>Accepting a client\<close>

definition epoll_ctl_add :: "bool \<Rightarrow> int \<Rightarrow> globals \<Rightarrow> globals" where
  \<comment> \<open>a negative descriptor is an ignored error\<close>
  "epoll_ctl_add added fd g = (if fd < 0 then g else epoll_add added fd g)"

definition accept_new_client :: "int \<Rightarrow> bool \<Rightarrow> globals \<Rightarrow> int \<times> globals" where
  \<comment> \<open>the results of \<open>accept\<close> and of \<open>epoll_ctl\<close> are the first arguments\<close>
  "accept_new_client new_sock added g = (new_sock, epoll_ctl_add added new_sock g)"

definition sock_accept_handler :: "int \<Rightarrow> bool \<Rightarrow> globals \<Rightarrow> globals" where
  "sock_accept_handler new_sock added g = (if new_sock < 0 then g else epoll_ctl_add added new_sock g)"

subsection \<open>Properties\<close>

lemma c_strncpy_short:
  assumes "length s < n" and "length dst = n + 1"
  shows "c_strncpy dst s n = s @ replicate (n - length s) NUL @ [dst ! n]"
proof -
  have "drop n dst = [dst ! n]" using assms(2) by (metis Cons_nth_drop_Suc Suc_eq_plus1 drop_all le_refl lessI)
  then show ?thesis using assms by (simp add: c_strncpy_def)
qed

text \<open>\<open>memset\<close> is given the size of a pointer, so most of the address is indeterminate; a name
  of at most 106 characters is nevertheless ended by a NUL in the address given to \<open>bind\<close>,
  but the last byte of the path is never written.\<close>

theorem server_address:
  assumes "length (sun_family garbage) = 2" and "length (sun_path garbage) = 108"
    and "ptr_size \<in> {4, 8}" and "NUL \<notin> set name" and "length name \<le> 106"
    and "init_socket_server ptr_size AF_UNIX garbage name sock bound listening fds = (ret, fd, a, fds')"
  shows "sun_family a = AF_UNIX \<and> length (sun_path a) = 108 \<and>
     takeWhile (\<lambda>c. c \<noteq> NUL) (sun_path a) = name \<and>
     sun_path a ! 107 = sun_path garbage ! 107"
proof -
  let ?p = "replicate (min (ptr_size - 2) 108) NUL @ drop (ptr_size - 2) (sun_path garbage)"
  have a: "sun_family a = AF_UNIX" "sun_path a = c_strncpy ?p name 107"
    using assms(6) by (auto simp: init_socket_server_def zero_front_def Let_def split: if_splits)
  have len: "length ?p = 107 + 1" using assms(2,3) by auto
  have last: "?p ! 107 = sun_path garbage ! 107"
    using assms(2,3) by (auto simp: nth_append)
  have p: "sun_path a = name @ replicate (107 - length name) NUL @ [sun_path garbage ! 107]"
    unfolding a(2) using c_strncpy_short [of name 107 ?p] len assms(5) last by simp
  have "takeWhile (\<lambda>c. c \<noteq> NUL) (sun_path a) = name"
    unfolding p using assms(4,5) by (subst takeWhile_append2) (auto simp: Suc_diff_le gr0_conv_Suc)
  moreover have "sun_path a ! 107 = sun_path garbage ! 107"
    unfolding p using assms(5) by (simp add: nth_append)
  moreover have "length (sun_path a) = 108" unfolding p using assms(5) by simp
  ultimately show ?thesis using a(1) by simp
qed

text \<open>The result of \<open>init_socket_server\<close>: it returns \<open>-1\<close> when a call fails, leaving the socket open
  when it is \<open>bind\<close> or \<open>listen\<close>, and on success it ends without returning a value.\<close>

theorem server_result:
  "fst (init_socket_server ptr_size AF_UNIX garbage name sock bound listening fds) =
     (if sock \<noteq> -1 \<and> bound \<noteq> -1 \<and> listening \<noteq> -1 then None else Some (-1)) \<and>
   snd (snd (snd (init_socket_server ptr_size AF_UNIX garbage name sock bound listening fds))) =
     (if sock = -1 then fds else sock # fds)"
  by (simp add: init_socket_server_def Let_def)

text \<open>The two functions that accept a client do the same to the epoll set: a new client is
  watched, once, if it can be added, and a failed \<open>accept\<close> changes nothing.\<close>

theorem accept_functions_agree:
  "snd (accept_new_client new_sock added g) = sock_accept_handler new_sock added g \<and>
   set (epoll_fds (sock_accept_handler new_sock added g)) =
     set (epoll_fds g) \<union> (if 0 \<le> new_sock \<and> added \<and> G_epollfd g \<noteq> -1 then {new_sock} else {})"
  by (auto simp: accept_new_client_def sock_accept_handler_def epoll_ctl_add_def epoll_add_def)

lemma server_address_witness:
  "takeWhile (\<lambda>c. c \<noteq> NUL) (sun_path (fst (snd (snd (init_socket_server 4 [CHR 0x01, NUL]
     \<lparr>sun_family = ''??'', sun_path = replicate 108 (CHR ''?'')\<rparr> ''/tmp/UNIX.nuart'' 5 0 0 []))))) = ''/tmp/UNIX.nuart''"
proof -
  let ?g = "\<lparr>sun_family = ''??'', sun_path = replicate 108 (CHR ''?'')\<rparr>"
  obtain ret fd a fds' where e: "init_socket_server 4 [CHR 0x01, NUL] ?g ''/tmp/UNIX.nuart'' 5 0 0 [] = (ret, fd, a, fds')"
    by (metis prod_cases4)
  from server_address [OF _ _ _ _ _ e] show ?thesis unfolding e by simp
qed

end
