(* ===== verification/Select_Loop.thy ===== *)
theory Select_Loop
  imports Uart_Pipeline
begin

text \<open>
  \<open>select_start\<close> of \<^verbatim>\<open>epoll_server.c\<close>, the predecessor of the event loop: it prints what the
  serial line sends.  The loop has no exit, so a run is the list of its rounds so far; a
  round is the result of \<open>select\<close>, whether the line is in the set it returns, and the
  outcome of the \<open>read\<close>.
\<close>

datatype shown = Printed string | Perror string

type_synonym select_result = "int \<times> bool \<times> char list option"

definition select_round :: "select_result \<Rightarrow> char list \<Rightarrow> (shown list \<times> char list) res" where
  "select_round = (\<lambda>(ret, isset, r) recv_buf.
     if ret = -1 then Inr ([Perror ''select''], recv_buf)
     else if ret = 0 then Inr ([Perror ''time is over!''], recv_buf)
     else if isset then
       (case c_read (length recv_buf) r of (_, buf) \<Rightarrow>
         bind_ok (c_strlen buf) (\<lambda>len. Inr ([Printed (take len buf @ [CHR 0x0A])], buf)))
     else Inr ([], recv_buf))"

fun select_rounds :: "select_result list \<Rightarrow> char list \<Rightarrow> (shown list \<times> char list) res" where
  "select_rounds [] buf = Inr ([], buf)"
| "select_rounds (x # xs) buf =
     bind_ok (select_round x buf) (\<lambda>(s, buf1).
     bind_ok (select_rounds xs buf1) (\<lambda>(t, buf2). Inr (s @ t, buf2)))"

definition select_start :: "select_result list \<Rightarrow> shown list res" where
  "select_start rounds =
     bind_ok (select_rounds rounds (replicate 1024 NUL)) (\<lambda>(s, _). Inr (Printed (''epoll waiting...'' @ [CHR 0x0A]) # s))"

subsection \<open>What is shown\<close>

definition readable_text :: "select_result \<Rightarrow> bool" where
  \<comment> \<open>what is read leaves a NUL in the buffer\<close>
  "readable_text = (\<lambda>(ret, isset, r). case r of None \<Rightarrow> True | Some bs \<Rightarrow> NUL \<in> set (take 1024 bs) \<or> length bs < 1024)"

definition shown_by :: "select_result \<Rightarrow> shown list" where
  "shown_by = (\<lambda>(ret, isset, r).
     if ret = -1 then [Perror ''select''] else if ret = 0 then [Perror ''time is over!'']
     else if isset then
       [Printed (takeWhile (\<lambda>c. c \<noteq> NUL) (case r of None \<Rightarrow> [] | Some bs \<Rightarrow> take 1024 bs) @ [CHR 0x0A])]
     else [])"

lemma c_strlen_takeWhile: "NUL \<in> set b \<Longrightarrow> c_strlen b = Inr (length (takeWhile (\<lambda>c. c \<noteq> NUL) b))"
  by (induction b) auto

lemma c_strlen_unterminated: "NUL \<notin> set b \<Longrightarrow> c_strlen b = Inl Out_of_bounds"
  by (induction b) auto

lemma takeWhile_zeros: "takeWhile (\<lambda>c. c \<noteq> NUL) (xs @ replicate n NUL) = takeWhile (\<lambda>c. c \<noteq> NUL) xs"
  by (induction xs) (cases n; simp)+

lemma select_round_ok:
  assumes "readable_text x" and "length buf = 1024"
  shows "\<exists>buf'. select_round x buf = Inr (shown_by x, buf') \<and> length buf' = 1024"
proof -
  obtain ret isset r where x: "x = (ret, isset, r)" by (cases x)
  obtain n b where c: "c_read 1024 r = (n, b)" by (cases "c_read 1024 r")
  let ?bs = "case r of None \<Rightarrow> [] | Some bs \<Rightarrow> take 1024 bs"
  have b: "b = ?bs @ replicate (1024 - length ?bs) NUL" "length b = 1024"
    using c by (cases r; auto simp: c_read_def)+
  have "NUL \<in> set b" using assms(1) b(1) by (cases r) (auto simp: readable_text_def x)
  note s = c_strlen_takeWhile [OF this]
  have "take (length (takeWhile (\<lambda>c. c \<noteq> NUL) b)) b = takeWhile (\<lambda>c. c \<noteq> NUL) b"
    by (simp add: takeWhile_eq_take [symmetric])
  then show ?thesis
    using assms(2) b s c takeWhile_zeros [of ?bs] by (simp add: select_round_def shown_by_def x)
qed

text \<open>As long as every read leaves a NUL in the buffer, each round shows the text read up to the
  first NUL; a read of 1024 bytes without a NUL makes \<open>printf\<close> read past the buffer.\<close>

theorem select_start_shows:
  assumes "list_all readable_text rounds"
  shows "select_start rounds = Inr (Printed (''epoll waiting...'' @ [CHR 0x0A]) # concat (map shown_by rounds))"
proof -
  have "\<exists>buf'. select_rounds rounds buf = Inr (concat (map shown_by rounds), buf')" if "length buf = 1024" for buf
    using assms that
  proof (induction rounds arbitrary: buf)
    case (Cons x xs)
    from select_round_ok [of x buf] Cons.prems obtain b where
      "select_round x buf = Inr (shown_by x, b)" "length b = 1024" by auto
    with Cons show ?case by auto
  qed simp
  from this [of "replicate 1024 NUL"] show ?thesis by (auto simp: select_start_def)
qed

theorem full_read_overruns:
  assumes "NUL \<notin> set bs" and "1024 \<le> length bs" and "ret \<noteq> -1" and "ret \<noteq> 0"
  shows "select_start [(ret, True, Some bs)] = Inl Out_of_bounds"
proof -
  have "NUL \<notin> set (take 1024 bs)" using assms(1) by (auto dest: in_set_takeD)
  from c_strlen_unterminated [OF this] show ?thesis
    using assms by (simp add: select_start_def select_round_def c_read_def)
qed

end
