(* ===== verification/Report_Key.thy ===== *)
theory Report_Key
  imports Daemon Files
begin

text \<open>
  \<^verbatim>\<open>report_key.c\<close>: a key press is reported as a JSON document over HTTP.  The JSON library,
  libcurl, \<open>fp_read_file\<close>, \<open>cdb_get\<close> and \<open>popen\<close> are not part of the program: what they
  return is an argument.  A loop that does not return has the value \<open>None\<close>.
\<close>

subsection \<open>The body of the answer\<close>

record MemoryStruct =
  memory :: "char list option"   \<comment> \<open>\<open>None\<close> is the null pointer\<close>
  msize :: nat
  lost :: nat                    \<comment> \<open>blocks to which the pointer has been overwritten\<close>

definition realloc_block :: "(nat \<Rightarrow> char) \<Rightarrow> char list option \<Rightarrow> nat \<Rightarrow> char list" where
  \<comment> \<open>the old bytes, then indeterminate ones\<close>
  "realloc_block indet old n =
     (case old of None \<Rightarrow> map indet [0..<n] | Some b \<Rightarrow> take n b @ map indet [length b..<n])"

definition WriteMemoryCallback ::
    "(nat \<Rightarrow> char) \<Rightarrow> bool \<Rightarrow> char list \<Rightarrow> nat \<Rightarrow> nat \<Rightarrow> MemoryStruct \<Rightarrow> (nat \<times> MemoryStruct) res" where
  \<comment> \<open>the flag is the outcome of \<open>realloc\<close>; \<open>size_t\<close> has 32 bits\<close>
  "WriteMemoryCallback indet realloc_ok contents sz nmemb mem =
     (let realsize = (sz * nmemb) mod 2 ^ 32;
          need = (msize mem + realsize + 1) mod 2 ^ 32 in
      if \<not> realloc_ok then
        Inr (0, mem\<lparr>memory := None, lost := lost mem + (if memory mem = None then 0 else 1)\<rparr>)
      else
        (let b = realloc_block indet (memory mem) need in
         bind_ok (guard_ok (msize mem + realsize \<le> length b \<and> realsize \<le> length contents) Out_of_bounds) (\<lambda>_.
         (let b1 = take (msize mem) b @ take realsize contents @ drop (msize mem + realsize) b;
              k = (msize mem + realsize) mod 2 ^ 32 in
          bind_ok (guard_ok (k < length b1) Out_of_bounds) (\<lambda>_.
            Inr (realsize, mem\<lparr>memory := Some (b1[k := NUL]), msize := k\<rparr>))))))"

fun deliver :: "(nat \<Rightarrow> char) \<Rightarrow> (nat \<Rightarrow> bool) \<Rightarrow> nat \<Rightarrow> char list list \<Rightarrow> MemoryStruct \<Rightarrow> (bool \<times> MemoryStruct) res" where
  \<comment> \<open>libcurl calls the callback for each piece until it returns another number than the piece's size\<close>
  "deliver indet reallocs k [] mem = Inr (True, mem)"
| "deliver indet reallocs k (c # cs) mem =
     bind_ok (WriteMemoryCallback indet (reallocs k) c 1 (length c) mem) (\<lambda>(n, mem1).
     if n = length c then deliver indet reallocs (Suc k) cs mem1 else Inr (False, mem1))"

datatype block = Header_list | Body_block

record report =
  r_ret :: int
  r_printed :: "char list option"   \<comment> \<open>the string printed\<close>
  r_leaked :: "block list"

definition curl_init_and_reportdata ::
    "(nat \<Rightarrow> char) \<Rightarrow> bool \<Rightarrow> bool \<Rightarrow> bool \<Rightarrow> (nat \<Rightarrow> bool) \<Rightarrow> char list list \<Rightarrow> report res" where
  \<comment> \<open>the outcomes of \<open>malloc\<close>, \<open>curl_easy_init\<close>, the transfer and the calls of \<open>realloc\<close>, and the answer\<close>
  "curl_init_and_reportdata indet malloc_ok curl_ok transfer_ok reallocs pieces =
     (let chunk = \<lparr>memory = (if malloc_ok then Some [indet 0] else None), msize = 0, lost = 0\<rparr> in
      if \<not> curl_ok then
        Inr \<lparr>r_ret = -1, r_printed = None, r_leaked = (if malloc_ok then [Body_block] else [])\<rparr>
      else
        bind_ok (deliver indet reallocs 0 pieces chunk) (\<lambda>(all_written, mem).
        bind_ok
          (if transfer_ok \<and> all_written then
             (case memory mem of None \<Rightarrow> Inl Null_deref
              | Some b \<Rightarrow> bind_ok (c_strlen b) (\<lambda>n. Inr (Some (take n b))))
           else Inr None) (\<lambda>printed.
          Inr \<lparr>r_ret = 0, r_printed = printed, r_leaked = Header_list # replicate (lost mem) Body_block\<rparr>)))"

subsection \<open>Running a command\<close>

text \<open>
  The loop of \<open>excute_cmd\<close>: the rest of the output, the end-of-file flag, \<open>rbuf\<close>, the offset
  of \<open>p\<close> in it and \<open>rbuflen\<close>.  A \<open>fgets\<close> that stops for want of characters sets the flag.
\<close>

definition hits_eof :: "nat \<Rightarrow> char list \<Rightarrow> bool" where
  "hits_eof n l \<longleftrightarrow> length l < n - 1 \<and> (l = [] \<or> last l \<noteq> newline)"

partial_function (option) execute_loop ::
    "char list \<Rightarrow> bool \<Rightarrow> char list \<Rightarrow> nat \<Rightarrow> nat \<Rightarrow> (char list \<times> nat) res option" where
  "execute_loop out eof rbuf p rbuflen =
     (if eof \<or> rbuflen = 0 then Some (Inr (rbuf, p))
      else
        (case c_fgets (min rbuflen 128) out of None \<Rightarrow> Some (Inr (rbuf, p))
         | Some (buf, rest) \<Rightarrow>
             (let s = takeWhile (\<lambda>c. c \<noteq> NUL) buf; w = take (rbuflen - 1) s @ [NUL] in
              if p + length w \<le> length rbuf then
                execute_loop rest (hits_eof (min rbuflen 128) buf)
                  (take p rbuf @ w @ drop (p + length w) rbuf) (p + length s) (rbuflen - length s)
              else Some (Inl Out_of_bounds))))"

definition excute_cmd :: "char list option \<Rightarrow> nat \<Rightarrow> char list option \<Rightarrow> (int \<times> char list option) res option" where
  \<comment> \<open>\<open>rbuf\<close>, its length, and the output of the command when \<open>popen\<close> succeeds\<close>
  "excute_cmd rbuf rbuflen out =
     (case out of None \<Rightarrow> Some (Inr (0, rbuf))
      | Some cs \<Rightarrow>
         (case rbuf of None \<Rightarrow> Some (Inr (0, None))
          | Some b \<Rightarrow>
              Option.bind (execute_loop cs False b 0 rbuflen) (\<lambda>r.
                Some (bind_ok r (\<lambda>(b1, p).
                  Inr (0, Some (if p \<noteq> 0 \<and> b1 ! (p - 1) = newline then b1[p - 1 := NUL] else b1)))))))"

subsection \<open>The body of the answer is collected\<close>

lemma realloc_length: "length (realloc_block indet old n) = n"
  by (cases old) (auto simp: realloc_block_def)

lemma realloc_keeps: "k \<le> n \<Longrightarrow> k \<le> length b \<Longrightarrow> take k (realloc_block indet (Some b) n) = take k b"
  by (simp add: realloc_block_def min_def)

definition holds :: "MemoryStruct \<Rightarrow> char list \<Rightarrow> char list \<Rightarrow> bool" where
  "holds mem s rest \<longleftrightarrow> memory mem = Some (s @ rest) \<and> rest \<noteq> [] \<and> msize mem = length s"

lemma callback_ok:
  assumes "holds mem s rest" and "length s + length c + 1 < 2 ^ 32"
  shows "WriteMemoryCallback indet True c 1 (length c) mem =
     Inr (length c, mem\<lparr>memory := Some (s @ c @ [NUL]), msize := length s + length c\<rparr>)"
proof -
  let ?n = "length s + length c + 1"
  define b where "b = realloc_block indet (Some (s @ rest)) ?n"
  have m: "memory mem = Some (s @ rest)" "msize mem = length s" using assms(1) by (simp_all add: holds_def)
  have lb: "length b = ?n" unfolding b_def by (rule realloc_length)
  have ts: "take (length s) b = s" using realloc_keeps [of "length s" ?n "s @ rest" indet] by (simp add: b_def)
  have r: "(1 * length c) mod 2 ^ 32 = length c" "(length s + length c + 1) mod 2 ^ 32 = ?n"
    "(length s + length c) mod 2 ^ 32 = length s + length c" using assms(2) by simp_all
  obtain x where x: "drop (length s + length c) b = [x]"
    using lb by (metis Cons_nth_drop_Suc Suc_eq_plus1 drop_all le_refl lessI)
  have "(s @ c @ [x])[length s + length c := NUL] = s @ c @ [NUL]"
    by (simp add: list_update_append)
  then show ?thesis
    unfolding WriteMemoryCallback_def Let_def m r b_def [symmetric]
    by (simp add: lb ts x)
qed

lemma deliver_ok:
  assumes "holds mem s rest" and "\<forall>k. reallocs k" and "length s + length (concat cs) + 1 < 2 ^ 32"
  shows "\<exists>mem' rest'. deliver indet reallocs k cs mem = Inr (True, mem') \<and> holds mem' (s @ concat cs) rest' \<and>
     rest' = (if cs = [] then rest else [NUL]) \<and> lost mem' = lost mem"
  using assms
proof (induction cs arbitrary: mem s rest k)
  case Nil
  then show ?case by auto
next
  case (Cons c cs)
  let ?m = "mem\<lparr>memory := Some (s @ c @ [NUL]), msize := length s + length c\<rparr>"
  have w: "WriteMemoryCallback indet (reallocs k) c 1 (length c) mem = Inr (length c, ?m)"
    using callback_ok [OF Cons.prems(1), of c indet] Cons.prems(2,3) by simp
  have h: "holds ?m (s @ c) [NUL]" by (simp add: holds_def)
  have l: "length (s @ c) + length (concat cs) + 1 < 2 ^ 32" using Cons.prems(3) by (simp add: add.assoc)
  from Cons.IH [OF h Cons.prems(2) l, of "Suc k"] obtain mem' rest' where
    "deliver indet reallocs (Suc k) cs ?m = Inr (True, mem')" "holds mem' ((s @ c) @ concat cs) rest'"
    "rest' = (if cs = [] then [NUL] else [NUL])" "lost mem' = lost ?m" by blast
  then show ?case using w by auto
qed

subsection \<open>The loop over the output of a command\<close>

lemma execute_loop_stuck:
  assumes "execute_loop out eof rbuf p r = Some x"
  shows "p + r \<le> length rbuf \<longrightarrow> eof \<or> r \<noteq> 1"
proof (rule execute_loop.raw_induct [where P = "\<lambda>out eof rbuf p r x. p + r \<le> length rbuf \<longrightarrow> eof \<or> r \<noteq> 1", OF _ assms])
  fix f out eof rbuf p r x
  assume IH: "\<And>out eof rbuf p r x. f out eof rbuf p r = Some x \<Longrightarrow> p + r \<le> length rbuf \<longrightarrow> eof \<or> r \<noteq> 1"
    and eq: "(if eof \<or> r = 0 then Some (Inr (rbuf, p))
      else
        (case c_fgets (min r 128) out of None \<Rightarrow> Some (Inr (rbuf, p))
         | Some (buf, rest) \<Rightarrow>
             (let s = takeWhile (\<lambda>c. c \<noteq> NUL) buf; w = take (r - 1) s @ [NUL] in
              if p + length w \<le> length rbuf then
                f rest (hits_eof (min r 128) buf)
                  (take p rbuf @ w @ drop (p + length w) rbuf) (p + length s) (r - length s)
              else Some (Inl Out_of_bounds)))) = Some x"
  show "p + r \<le> length rbuf \<longrightarrow> eof \<or> r \<noteq> 1"
  proof (rule impI, rule ccontr)
    assume "p + r \<le> length rbuf" and "\<not> (eof \<or> r \<noteq> 1)"
    then have n: "eof = False" "r = 1" "p + 1 \<le> length rbuf" by simp_all
    from eq have "f out False (take p rbuf @ [NUL] @ drop (p + 1) rbuf) p 1 = Some x"
      using n(3) by (simp add: n(1,2) c_fgets_def hits_eof_def)
    from IH [OF this] n(3) show False by simp
  qed
qed

lemma fgets_body_split:
  "fgets_body k out = (l, rest) \<Longrightarrow> out = l @ rest \<and> length l \<le> k \<and> (0 < k \<and> out \<noteq> [] \<longrightarrow> l \<noteq> []) \<and>
     (length l < k \<and> (l = [] \<or> last l \<noteq> newline) \<longrightarrow> rest = [])"
proof (induction k out arbitrary: l rest rule: fgets_body.induct)
  case (3 k c cs)
  show ?case
  proof (cases "c = newline")
    case True
    then show ?thesis using "3.prems" by auto
  next
    case False
    obtain l' r' where r: "fgets_body k cs = (l', r')" by fastforce
    with "3.prems" False have l: "l = c # l'" "rest = r'" by auto
    have IH: "cs = l' @ r'" "length l' \<le> k" "length l' < k \<and> (l' = [] \<or> last l' \<noteq> newline) \<longrightarrow> r' = []"
      using "3.IH" [OF False r] by blast+
    show ?thesis unfolding l using IH False by (cases l') simp_all
  qed
qed simp_all

lemma execute_loop_step:
  assumes "out \<noteq> []" and "2 \<le> r" and "NUL \<notin> set out" and "p + r \<le> length rbuf"
  obtains buf rest where "out = buf @ rest" "buf \<noteq> []" "length buf \<le> min r 128 - 1"
    "hits_eof (min r 128) buf \<Longrightarrow> rest = []"
    "execute_loop out False rbuf p r = execute_loop rest (hits_eof (min r 128) buf)
       (take p rbuf @ buf @ NUL # drop (p + length buf + 1) rbuf) (p + length buf) (r - length buf)"
proof -
  obtain buf rest where fg: "fgets_body (min r 128 - 1) out = (buf, rest)" by fastforce
  note F = fgets_body_split [OF fg]
  have F1: "out = buf @ rest" using F by (rule conjunct1)
  have F2: "length buf \<le> min r 128 - 1" using F [THEN conjunct2] by (rule conjunct1)
  have F3: "0 < min r 128 - 1 \<and> out \<noteq> [] \<longrightarrow> buf \<noteq> []"
    using F [THEN conjunct2, THEN conjunct2] by (rule conjunct1)
  have F4: "length buf < min r 128 - 1 \<and> (buf = [] \<or> last buf \<noteq> newline) \<longrightarrow> rest = []"
    using F [THEN conjunct2, THEN conjunct2] by (rule conjunct2)
  have le: "length buf \<le> r - 1" using F2 by linarith
  have "NUL \<notin> set buf" using F1 assms(3) by simp
  then have s: "takeWhile (\<lambda>c. c \<noteq> NUL) buf = buf" by (subst takeWhile_eq_all_conv) auto
  have "min r 128 \<noteq> 0" "min r 128 \<noteq> 1" using assms(2) by simp_all
  then have c: "c_fgets (min r 128) out = Some (buf, rest)"
    using fg assms(1) by (simp only: c_fgets_def if_False)
  have w: "take (r - 1) buf @ [NUL] = buf @ [NUL]" using le by simp
  have b: "p + length (buf @ [NUL]) \<le> length rbuf" using le assms(2,4) by simp
  have e: "\<not> (False \<or> r = 0)" using assms(2) by simp
  have "execute_loop out False rbuf p r = execute_loop rest (hits_eof (min r 128) buf)
       (take p rbuf @ buf @ NUL # drop (p + length buf + 1) rbuf) (p + length buf) (r - length buf)"
    unfolding execute_loop.simps [of out False rbuf p r] if_not_P [OF e] c option.case prod.case Let_def s w if_P [OF b]
    by simp
  moreover have "buf \<noteq> []" using F3 assms(1,2) by simp
  ultimately show ?thesis using F4 by (intro that [OF F1 _ F2]) (simp_all add: hits_eof_def)
qed

lemma execute_loop_returns:
  assumes "NUL \<notin> set out" and "length out + 1 < r" and "p + r \<le> length rbuf"
  shows "execute_loop out False rbuf p r = Some (Inr
     (take p rbuf @ (if out = [] then drop p rbuf else out @ NUL # drop (p + length out + 1) rbuf), p + length out))"
  using assms
proof (induction "length out" arbitrary: out rbuf p r rule: less_induct)
  case less
  show ?case
  proof (cases "out = []")
    case True
    have "c_fgets (min r 128) [] = None" using less.prems(2) by (auto simp: c_fgets_def min_def)
    then show ?thesis using True less.prems(2) by (subst execute_loop.simps) simp
  next
    case False
    have r2: "2 \<le> r" using less.prems(2) by simp
    obtain buf rest where b: "out = buf @ rest" "buf \<noteq> []" "length buf \<le> min r 128 - 1"
      and eof: "hits_eof (min r 128) buf \<Longrightarrow> rest = []"
      and st: "execute_loop out False rbuf p r = execute_loop rest (hits_eof (min r 128) buf)
       (take p rbuf @ buf @ NUL # drop (p + length buf + 1) rbuf) (p + length buf) (r - length buf)"
      by (rule execute_loop_step [OF False r2 less.prems(1,3)]) blast
    let ?rb = "take p rbuf @ buf @ NUL # drop (p + length buf + 1) rbuf"
    have lp: "length (take p rbuf) = p" using less.prems(3) by simp
    have len: "length ?rb = length rbuf" using less.prems(2,3) b(1) lp by simp
    have tk: "take (p + length buf) ?rb = take p rbuf @ buf" using lp by simp
    have dp: "drop (p + length buf) ?rb = NUL # drop (p + length buf + 1) rbuf" using lp by simp
    have e: "execute_loop rest (hits_eof (min r 128) buf) ?rb (p + length buf) (r - length buf) =
      Some (Inr (take (p + length buf) ?rb @ (if rest = [] then drop (p + length buf) ?rb
          else rest @ NUL # drop (p + length buf + length rest + 1) ?rb), p + length buf + length rest))"
    proof (cases "hits_eof (min r 128) buf")
      case True
      then show ?thesis using eof by (subst execute_loop.simps) simp
    next
      case False
      have "length rest < length out" "NUL \<notin> set rest" "length rest + 1 < r - length buf"
        "p + length buf + (r - length buf) \<le> length ?rb"
        using b less.prems(1,2,3) len by auto
      from less.hyps [OF this] False show ?thesis by simp
    qed
    have d: "drop (p + length buf + length rest + 1) ?rb = drop (p + length out + 1) rbuf"
    proof -
      have "drop (p + length buf + length rest + 1) ?rb = drop (length rest + 1) (drop (p + length buf) ?rb)"
        unfolding drop_drop by (simp only: add.commute add.left_commute)
      also have "\<dots> = drop (p + length out + 1) rbuf" unfolding dp by (simp add: b(1) add.commute add.left_commute)
      finally show ?thesis .
    qed
    show ?thesis unfolding st e tk dp d using b(2) by (simp add: b(1))
  qed
qed

lemma execute_loop_diverges:
  assumes "NUL \<notin> set out" and "1 \<le> r" and "r \<le> length out + 1" and "p + r \<le> length rbuf"
  shows "execute_loop out False rbuf p r = None"
  using assms
proof (induction r arbitrary: out rbuf p rule: less_induct)
  case (less r)
  show ?case
  proof (cases "r = 1")
    case True
    then show ?thesis using execute_loop_stuck [of out False rbuf p r] less.prems(4)
      by (cases "execute_loop out False rbuf p r") auto
  next
    case False
    then have r2: "2 \<le> r" "out \<noteq> []" using less.prems(2,3) by auto
    obtain buf rest where b: "out = buf @ rest" "buf \<noteq> []" "length buf \<le> min r 128 - 1"
      and eof: "hits_eof (min r 128) buf \<Longrightarrow> rest = []"
      and st: "execute_loop out False rbuf p r = execute_loop rest (hits_eof (min r 128) buf)
       (take p rbuf @ buf @ NUL # drop (p + length buf + 1) rbuf) (p + length buf) (r - length buf)"
      by (rule execute_loop_step [OF r2(2,1) less.prems(1,4)]) blast
    have "\<not> hits_eof (min r 128) buf"
    proof
      assume h: "hits_eof (min r 128) buf"
      then have "length buf < min r 128 - 1" by (simp add: hits_eof_def)
      moreover have "r \<le> length buf + 1" using eof [OF h] b(1) less.prems(3) by simp
      ultimately show False by linarith
    qed
    moreover have "r - length buf < r" "NUL \<notin> set rest" "1 \<le> r - length buf" "r - length buf \<le> length rest + 1"
      using b less.prems(1,3) r2(1) by (auto simp: min_def split: if_splits)
    moreover have "p + length buf + (r - length buf) \<le> length (take p rbuf @ buf @ NUL # drop (p + length buf + 1) rbuf)"
      using less.prems(4) b(3) r2(1) by (auto simp: min_def split: if_splits)
    ultimately show ?thesis unfolding st using less.IH by simp
  qed
qed

subsection \<open>The report\<close>

definition time_stamp :: "int \<Rightarrow> int \<Rightarrow> tm \<Rightarrow> string" where
  \<comment> \<open>the conversion \<open>"%d-%02d-%02d %02d:%02d:%02d"\<close>\<close>
  "time_stamp year month p =
     fmt_d year @ ''-'' @ fmt_0d 2 month @ ''-'' @ fmt_0d 2 (tm_mday p) @ '' '' @
     fmt_0d 2 (tm_hour p) @ '':'' @ fmt_0d 2 (tm_min p) @ '':'' @ fmt_0d 2 (tm_sec p)"

definition get_cur_time :: "tm \<Rightarrow> char list \<Rightarrow> (int \<times> char list) res" where
  \<comment> \<open>the global \<open>cur_time\<close> is the second argument and part of the result\<close>
  "get_cur_time p cur_time =
     bind_ok (int_add 1900 (tm_year p)) (\<lambda>year.
     bind_ok (int_add 1 (tm_mon p)) (\<lambda>month.
     bind_ok (sprintf cur_time (time_stamp year month p)) (\<lambda>b. Inr (0, b))))"

definition get_duercfg ::
    "int \<times> string \<Rightarrow> (string \<Rightarrow> 'j option) \<Rightarrow> ('j \<Rightarrow> string \<Rightarrow> 'j option) \<Rightarrow> ('j \<Rightarrow> string option) \<Rightarrow> bool \<Rightarrow>
     string \<Rightarrow> int \<times> string option" where
  \<comment> \<open>what \<open>fp_read_file\<close> returns and reads, three functions of the JSON library (\<open>None\<close> where \<open>is_error\<close>
      holds of the result), and whether \<open>strdup\<close> gets memory; the result and what is stored in \<open>device_id\<close>\<close>
  "get_duercfg file json_tokener_parse object_get get_string strdup_ok pName =
     (case file of (err, json_str) \<Rightarrow>
      if err < 0 then (-1, None)
      else
        (case json_tokener_parse json_str of None \<Rightarrow> (-2, None)
         | Some obj \<Rightarrow>
             (case object_get obj pName of None \<Rightarrow> (-3, None)
              | Some attr_obj \<Rightarrow>
                  (case get_string attr_obj of None \<Rightarrow> (-4, None)
                   | Some attr \<Rightarrow> (err, if strdup_ok then Some attr else None)))))"

datatype key_block = Device_id | Info_object

definition json_string :: "(string \<Rightarrow> 'j) \<Rightarrow> string option \<Rightarrow> 'j res" where
  \<comment> \<open>\<open>json_object_new_string\<close>, which reads its argument: on a null pointer it goes wrong\<close>
  "json_string new_string s = (case s of None \<Rightarrow> Inl Null_deref | Some t \<Rightarrow> Inr (new_string t))"

definition report_key ::
    "(string \<Rightarrow> string) \<Rightarrow> string option \<Rightarrow> tm \<Rightarrow> (string \<Rightarrow> 'j) \<Rightarrow> bool \<Rightarrow> bool \<Rightarrow> bool \<Rightarrow>
     string \<Rightarrow> char list \<Rightarrow> ((string \<times> 'j) list option \<times> key_block list \<times> char list) res" where
  \<comment> \<open>\<open>cdb_get\<close>, what \<open>get_duercfg\<close> stores, the time, \<open>json_object_new_string\<close> on a string, and the
      outcomes of the three constructors.  The result is the event that is sent, the blocks that are
      never released, and \<open>cur_time\<close>.\<close>
  "report_key cdb_get device_id now new_string infor_ok para_ok array_ok key_name cur_time =
     bind_ok (sprintf (replicate 128 NUL) (cdb_get ''$ota_path'')) (\<lambda>ota_path.
     bind_ok (sprintf (replicate 16 NUL) (cdb_get ''$sw_build'')) (\<lambda>voice_ver.
     bind_ok (sprintf (replicate 32 NUL) (cdb_get ''$wanif_mac'')) (\<lambda>mac_addr.
     bind_ok (get_cur_time now cur_time) (\<lambda>(ret, ct).
     if \<not> infor_ok \<or> \<not> para_ok \<or> \<not> array_ok then
       Inr (None, (if device_id = None then [] else [Device_id]), ct)
     else
       bind_ok (json_string new_string (Some (c_string voice_ver))) (\<lambda>v.
       bind_ok (json_string new_string (Some ''F-8198v1.2'')) (\<lambda>h.
       bind_ok (json_string new_string device_id) (\<lambda>d.
       bind_ok (json_string new_string (Some (c_string mac_addr))) (\<lambda>m.
       bind_ok (json_string new_string (Some key_name)) (\<lambda>k.
       bind_ok (json_string new_string (Some (c_string ct))) (\<lambda>t.
         Inr (Some [(''sysVersion'', v), (''hardVersion'', h), (''deviceId'', d), (''macAddress'', m),
                    (''keyName'', k), (''time'', t)], [Info_object], ct)))))))))))"

subsection \<open>Properties\<close>

text \<open>C37: when the answer fits in the address space and no allocation fails, the pieces in which
  libcurl delivers it are joined in order, ended by a NUL and printed as they came; the
  header list is never released.\<close>

theorem answer_is_printed:
  assumes "pieces \<noteq> []" and "NUL \<notin> set (concat pieces)" and "length (concat pieces) + 1 < 2 ^ 32" and "\<forall>k. reallocs k"
  shows "curl_init_and_reportdata indet True True True reallocs pieces =
     Inr \<lparr>r_ret = 0, r_printed = Some (concat pieces), r_leaked = [Header_list]\<rparr>"
proof -
  have h: "holds \<lparr>memory = Some [indet 0], msize = 0, lost = 0\<rparr> [] [indet 0]" by (simp add: holds_def)
  have l: "length ([] :: char list) + length (concat pieces) + 1 < 2 ^ 32" using assms(3) by simp
  from deliver_ok [OF h assms(4) l, of indet 0] assms(1) obtain mem where
    m: "deliver indet reallocs 0 pieces \<lparr>memory = Some [indet 0], msize = 0, lost = 0\<rparr> = Inr (True, mem)"
      "memory mem = Some (concat pieces @ [NUL])" "lost mem = 0" by (auto simp: holds_def)
  have "c_strlen (concat pieces @ NUL # []) = Inr (length (concat pieces))"
    by (rule c_strlen_append [OF assms(2)])
  with m show ?thesis by (simp add: curl_init_and_reportdata_def)
qed

lemma answer_is_printed_witness:
  "curl_init_and_reportdata (\<lambda>_. CHR ''?'') True True True (\<lambda>_. True) [''{}'', ''ok''] =
     Inr \<lparr>r_ret = 0, r_printed = Some ''{}ok'', r_leaked = [Header_list]\<rparr>"
  using answer_is_printed [of "[''{}'', ''ok'']" "\<lambda>_. True" "\<lambda>_. CHR ''?''"] by simp

text \<open>An empty answer is printed from a block of one byte that was never written: unless that
  byte happens to be a NUL, the program reads past the block.\<close>

theorem empty_answer_unterminated:
  "curl_init_and_reportdata indet True True True reallocs [] =
     (if indet 0 = NUL then Inr \<lparr>r_ret = 0, r_printed = Some [], r_leaked = [Header_list]\<rparr>
      else Inl Out_of_bounds)"
  by (simp add: curl_init_and_reportdata_def)

text \<open>C36: \<open>excute_cmd\<close> with a buffer: when the output of the command leaves room for two more
  bytes, the function returns 0 with the output in the buffer, less a last newline; with a
  longer output it never returns, since it goes on to read lines into the one byte left.\<close>

theorem excute_cmd_outcome:
  assumes "NUL \<notin> set out" and "1 \<le> n" and "length b = n"
  shows "if length out + 1 < n then
       \<exists>b'. excute_cmd (Some b) n (Some out) = Some (Inr (0, Some b')) \<and> length b' = n \<and>
         (out \<noteq> [] \<longrightarrow> takeWhile (\<lambda>c. c \<noteq> NUL) b' = (if last out = newline then butlast out else out))
     else excute_cmd (Some b) n (Some out) = None"
proof (cases "length out + 1 < n")
  case False
  then have "n \<le> length out + 1" by simp
  from execute_loop_diverges [OF assms(1,2) this, of 0 b] assms(3) False show ?thesis
    by (simp add: excute_cmd_def)
next
  case True
  let ?b = "if out = [] then b else out @ NUL # drop (length out + 1) b"
  have e: "execute_loop out False b 0 n = Some (Inr (?b, length out))"
    using execute_loop_returns [OF assms(1) True, of 0 b] assms(3) by simp
  have x: "excute_cmd (Some b) n (Some out) = Some (Inr (0, Some
      (if length out \<noteq> 0 \<and> ?b ! (length out - 1) = newline then ?b[length out - 1 := NUL] else ?b)))"
    unfolding excute_cmd_def option.case e Option.bind.bind_lunit by (simp del: length_0_conv)
  show ?thesis
  proof (cases "out = []")
    case True
    then show ?thesis using x assms(3) \<open>length out + 1 < n\<close> by simp
  next
    case False
    then obtain o' c where out: "out = o' @ [c]" by (cases out rule: rev_cases) auto
    have nn: "NUL \<notin> set o'" "c \<noteq> NUL" using assms(1) out by auto
    have u: "(o' @ c # r)[length o' := NUL] = o' @ NUL # r" for r by simp
    have tw: "takeWhile (\<lambda>c. c \<noteq> NUL) (s @ NUL # r) = s" if "NUL \<notin> set s" for s r
      using that by (subst takeWhile_append2) auto
    let ?b' = "if c = newline then o' @ NUL # NUL # drop (length out + 1) b else o' @ c # NUL # drop (length out + 1) b"
    have "excute_cmd (Some b) n (Some out) = Some (Inr (0, Some ?b'))"
      unfolding x by (simp add: out nth_append)
    moreover have "length ?b' = n" using assms(3) True out by auto
    moreover have "takeWhile (\<lambda>c. c \<noteq> NUL) ?b' = (if last out = newline then butlast out else out)"
      using tw [of o'] tw [of "o' @ [c]"] nn by (simp add: out)
    ultimately show ?thesis using True by auto
  qed
qed

lemma excute_cmd_outcome_witness:
  "(\<exists>b'. excute_cmd (Some (replicate 8 NUL)) 8 (Some (''abc'' @ [newline])) = Some (Inr (0, Some b')) \<and>
     takeWhile (\<lambda>c. c \<noteq> NUL) b' = ''abc'') \<and>
   excute_cmd (Some (replicate 4 NUL)) 4 (Some ''abc'') = None"
  using excute_cmd_outcome [of "''abc'' @ [newline]" 8 "replicate 8 NUL"]
    excute_cmd_outcome [of "''abc''" 4 "replicate 4 NUL"]
  by (auto simp: newline_def)

subsection \<open>The time stamp\<close>

lemma six_fields:
  fixes a b c d e f z :: "char list"
  assumes "length a = 4" and "length b = 2" and "length c = 2" and "length d = 2" and "length e = 2" and "length f = 2"
  defines "m \<equiv> a @ ''-'' @ b @ ''-'' @ c @ '' '' @ d @ '':'' @ e @ '':'' @ f @ z"
  shows "take 4 (drop 0 m) = a" "take 2 (drop 5 m) = b" "take 2 (drop 8 m) = c"
    "take 2 (drop 11 m) = d" "take 2 (drop 14 m) = e" "take 2 (drop 17 m) = f"
  unfolding m_def using assms(1-6) by simp_all

lemma time_stamp_parts:
  assumes t: "valid_tm t"
  defines "s \<equiv> time_stamp (1900 + tm_year t) (1 + tm_mon t) t"
  shows "length s = 19" and "NUL \<notin> set s"
    and "map (\<lambda>(pos, len). int (field pos len (s @ z))) [(0, 4), (5, 2), (8, 2), (11, 2), (14, 2), (17, 2)] =
      [1900 + tm_year t, 1 + tm_mon t, tm_mday t, tm_hour t, tm_min t, tm_sec t]"
proof -
  have two: "length (fmt_0d 2 i) = 2" "undec (fmt_0d 2 i) = nat i" if "0 \<le> i" "i < 100" for i
    using fmt_0d_width [of i 1] that by (simp_all add: numeral_2_eq_2)
  have y: "(10 :: nat) ^ 3 \<le> nat (1900 + tm_year t)" "nat (1900 + tm_year t) < 10 ^ 4" "0 \<le> 1900 + tm_year t"
    using t by (simp_all add: valid_tm_def nat_less_iff le_nat_iff)
  have ld: "length (dec (nat (1900 + tm_year t))) = 4"
    using length_dec_ge [OF y(1)] length_dec_less [of "nat (1900 + tm_year t)" 3] y(2) by simp
  have yr: "length (fmt_d (1900 + tm_year t)) = 4" "undec (fmt_d (1900 + tm_year t)) = nat (1900 + tm_year t)"
    using ld y(3) by (simp_all add: fmt_d_def sign_of_def)
  have r: "0 \<le> tm_sec t" "tm_sec t < 100" "0 \<le> tm_min t" "tm_min t < 100" "0 \<le> tm_hour t"
    "tm_hour t < 100" "0 \<le> tm_mday t" "tm_mday t < 100" "0 \<le> 1 + tm_mon t" "1 + tm_mon t < 100"
    using t by (simp_all add: valid_tm_def)
  show "length s = 19" unfolding s_def time_stamp_def
    using yr(1) two(1) [OF r(1,2)] two(1) [OF r(3,4)] two(1) [OF r(5,6)] two(1) [OF r(7,8)] two(1) [OF r(9,10)]
    by simp
  show "NUL \<notin> set s" by (simp add: s_def time_stamp_def)
  note f = six_fields [OF yr(1) two(1) [OF r(9,10)] two(1) [OF r(7,8)] two(1) [OF r(5,6)] two(1) [OF r(3,4)]
      two(1) [OF r(1,2)], of z]
  have sz: "s @ z = fmt_d (1900 + tm_year t) @ ''-'' @ fmt_0d 2 (1 + tm_mon t) @ ''-'' @ fmt_0d 2 (tm_mday t) @ '' '' @
     fmt_0d 2 (tm_hour t) @ '':'' @ fmt_0d 2 (tm_min t) @ '':'' @ fmt_0d 2 (tm_sec t) @ z"
    by (simp add: s_def time_stamp_def)
  note u = two(2) [OF r(1,2)] two(2) [OF r(3,4)] two(2) [OF r(5,6)] two(2) [OF r(7,8)] two(2) [OF r(9,10)] yr(2)
  show "map (\<lambda>(pos, len). int (field pos len (s @ z))) [(0, 4), (5, 2), (8, 2), (11, 2), (14, 2), (17, 2)] =
      [1900 + tm_year t, 1 + tm_mon t, tm_mday t, tm_hour t, tm_min t, tm_sec t]"
    unfolding list.map prod.case field_def sz f u using r y(3) by simp
qed

lemma cur_time_eq:
  assumes "valid_tm t" and "length cur_time = 32"
  shows "get_cur_time t cur_time =
     Inr (0, time_stamp (1900 + tm_year t) (1 + tm_mon t) t @ NUL # drop 20 cur_time)"
proof -
  have "int_add 1900 (tm_year t) = Inr (1900 + tm_year t)" "int_add 1 (tm_mon t) = Inr (1 + tm_mon t)"
    using assms(1) by (simp_all add: int_add_def INT_MAX_def valid_tm_def)
  moreover have "sprintf cur_time (time_stamp (1900 + tm_year t) (1 + tm_mon t) t) =
      Inr (time_stamp (1900 + tm_year t) (1 + tm_mon t) t @ NUL # drop 20 cur_time)"
    using time_stamp_parts(1) [OF assms(1)] assms(2) by (simp add: sprintf_def)
  ultimately show ?thesis by (simp add: get_cur_time_def)
qed

text \<open>The time stamp fits its buffer of 32 bytes for every valid calendar time with a year of
  four digits, and year, month, day, hour, minute and second can be read back from it.\<close>

theorem time_stamp_read_back:
  assumes "valid_tm t" and "length cur_time = 32"
  shows "\<exists>b. get_cur_time t cur_time = Inr (0, b) \<and> length b = 32 \<and> c_strlen b = Inr 19 \<and>
     map (\<lambda>(pos, len). int (field pos len b)) [(0, 4), (5, 2), (8, 2), (11, 2), (14, 2), (17, 2)] =
       [1900 + tm_year t, 1 + tm_mon t, tm_mday t, tm_hour t, tm_min t, tm_sec t]"
proof -
  let ?s = "time_stamp (1900 + tm_year t) (1 + tm_mon t) t"
  note P = time_stamp_parts [OF assms(1)]
  have "c_strlen (?s @ NUL # drop 20 cur_time) = Inr 19"
    using c_strlen_append [OF P(2)] P(1) by simp
  moreover have "length (?s @ NUL # drop 20 cur_time) = 32" using P(1) assms(2) by simp
  ultimately show ?thesis using cur_time_eq [OF assms] P(3) by (intro exI [of _ "?s @ NUL # drop 20 cur_time"]) simp
qed

definition some_time :: tm where
  "some_time = \<lparr>tm_sec = 9, tm_min = 5, tm_hour = 23, tm_mday = 31, tm_mon = 11, tm_year = 99, tm_wday = 5\<rparr>"

lemma some_time_valid: "valid_tm some_time"
  by (simp add: some_time_def valid_tm_def)

lemma time_stamp_read_back_witness:
  "\<exists>b. get_cur_time some_time (replicate 32 NUL) = Inr (0, b) \<and>
     map (\<lambda>(pos, len). int (field pos len b)) [(0, 4), (5, 2), (8, 2), (11, 2), (14, 2), (17, 2)] =
       [1999, 12, 31, 23, 5, 9]"
proof -
  have e: "[1900 + tm_year some_time, 1 + tm_mon some_time, tm_mday some_time, tm_hour some_time, tm_min some_time,
      tm_sec some_time] = [1999, 12, 31, 23, 5, 9]" by (simp add: some_time_def)
  show ?thesis using time_stamp_read_back [OF some_time_valid, of "replicate 32 NUL"] unfolding e by auto
qed

text \<open>C40: the report of a key: when the values of the configuration fit their buffers and the device
  is known, one event is sent, with the version, the hardware, the device, the address, the key and
  a time stamp of 19 characters, and the document is never released.  When \<open>get_duercfg\<close> has
  failed, or its \<open>strdup\<close>, the program goes wrong: it does not test the device and gives a null
  pointer to the JSON library, which reads it.\<close>

theorem report_contents:
  assumes "valid_tm t" and "length cur_time = 32"
    and "length (cdb_get ''$ota_path'') < 128" and "length (cdb_get ''$sw_build'') < 16"
    and "length (cdb_get ''$wanif_mac'') < 32"
    and "NUL \<notin> set (cdb_get ''$sw_build'')" and "NUL \<notin> set (cdb_get ''$wanif_mac'')"
    and "get_duercfg file parse object_get get_string strdup_ok ''device_id'' = (err, device_id)"
  shows "if err < 0 \<or> \<not> strdup_ok
     then report_key cdb_get device_id t new_string True True True key cur_time = Inl Null_deref
     else \<exists>ct device. device_id = Some device \<and>
       report_key cdb_get device_id t new_string True True True key cur_time =
         Inr (Some [(''sysVersion'', new_string (cdb_get ''$sw_build'')),
                    (''hardVersion'', new_string ''F-8198v1.2''),
                    (''deviceId'', new_string device),
                    (''macAddress'', new_string (cdb_get ''$wanif_mac'')),
                    (''keyName'', new_string key),
                    (''time'', new_string (time_stamp (1900 + tm_year t) (1 + tm_mon t) t))],
              [Info_object], ct)"
proof -
  have d: "device_id = None \<longleftrightarrow> err < 0 \<or> \<not> strdup_ok"
    using assms(8)
    by (auto simp: get_duercfg_def split: prod.splits option.splits if_splits) (metis option.exhaust)+
  show ?thesis
  proof (cases device_id)
    case None
    with assms(3-5) d show ?thesis
      by (simp add: report_key_def sprintf_def cur_time_eq [OF assms(1,2)] json_string_def)
  next
    case (Some device)
    with assms(3-5) d c_string_append [OF assms(6)] c_string_append [OF assms(7)]
      c_string_append [OF time_stamp_parts(2) [OF assms(1)]] show ?thesis
      by (simp add: report_key_def sprintf_def cur_time_eq [OF assms(1,2)] json_string_def)
  qed
qed

lemma report_contents_witness:
  "(\<exists>ct. report_key (\<lambda>_. ''v1'') (Some ''d7'') some_time id True True True ''play'' (replicate 32 NUL) =
      Inr (Some [(''sysVersion'', ''v1''), (''hardVersion'', ''F-8198v1.2''), (''deviceId'', ''d7''),
                 (''macAddress'', ''v1''), (''keyName'', ''play''),
                 (''time'', time_stamp 1999 12 some_time)], [Info_object], ct)) \<and>
   report_key (\<lambda>_. ''v1'') None some_time id True True True ''play'' (replicate 32 NUL) = Inl Null_deref"
proof -
  have g: "get_duercfg (0, ''{}'') (\<lambda>_. Some ()) (\<lambda>_ _. Some ()) (\<lambda>_. Some ''d7'') True ''device_id'' = (0, Some ''d7'')"
    "get_duercfg (-1, []) (\<lambda>_. Some ()) (\<lambda>_ _. Some ()) (\<lambda>_. Some ''d7'') True ''device_id'' = (-1, None)"
    by (simp_all add: get_duercfg_def)
  have y: "1900 + tm_year some_time = 1999" "1 + tm_mon some_time = 12" by (simp_all add: some_time_def)
  note R = report_contents [OF some_time_valid, of "replicate 32 NUL" "\<lambda>_. ''v1''", unfolded y]
  from R [OF _ _ _ _ _ _ g(1), of id "''play''"] R [OF _ _ _ _ _ _ g(2), of id "''play''"]
  show ?thesis by (simp add: id_def)
qed

end
