(* ===== verification/Test_Mode.thy ===== *)
theory Test_Mode
  imports C_Text "HOL-Library.Word"
begin

unbundle bit_operations_syntax

text \<open>
  \<^verbatim>\<open>uartd_test_mode.c\<close>: a key code is broadcast on two interfaces in test mode.  The state
  is the global socket, the global address and the open descriptors; \<open>datagrams\<close> records
  the calls of \<open>sendto\<close>.  The results of the system calls are arguments.
\<close>

subsection \<open>State\<close>

record net =
  sockfd :: int
  dest_address :: "(32 word \<times> 16 word) option"   \<comment> \<open>address and port, in host order\<close>
  open_fds :: "int list"
  datagrams :: "(int \<times> char list) list"

text \<open>What the calls of one \<open>create_broadcast_socket\<close> return.\<close>

record broadcast_env =
  be_socket :: int        \<comment> \<open>\<open>socket\<close>\<close>
  be_setopt :: int        \<comment> \<open>\<open>setsockopt(.., SO_BROADCAST, ..)\<close>\<close>
  be_ioctl :: int         \<comment> \<open>\<open>ioctl(.., SIOCGIFFLAGS, ..)\<close>\<close>
  be_flags :: "16 word"   \<comment> \<open>the flags it stores\<close>
  be_bind :: int          \<comment> \<open>\<open>setsockopt(.., SO_BINDTODEVICE, ..)\<close>\<close>

definition SEND_PORT :: "16 word" where "SEND_PORT = 8060"
definition INADDR_BROADCAST :: "32 word" where "INADDR_BROADCAST = 0xFFFFFFFF"
definition IFF_UP :: "16 word" where "IFF_UP = 1"
definition IFNAMSIZ :: nat where "IFNAMSIZ = 16"

definition close_sockfd :: "net \<Rightarrow> net" where
  \<comment> \<open>\<open>close(sockfd); sockfd = -1;\<close>\<close>
  "close_sockfd n = n\<lparr>open_fds := remove1 (sockfd n) (open_fds n), sockfd := -1\<rparr>"

subsection \<open>Operations\<close>

definition create_broadcast_socket :: "broadcast_env \<Rightarrow> string \<Rightarrow> net \<Rightarrow> (int \<times> net) res" where
  "create_broadcast_socket env ifname n =
     (let fd = be_socket env; n1 = n\<lparr>sockfd := fd\<rparr> in
      if fd = -1 then Inr (-1, n1)
      else
        (let n2 = n1\<lparr>open_fds := fd # open_fds n1\<rparr> in
         if be_setopt env = -1 then Inr (-1, close_sockfd n2)
         else
           bind_ok (guard_ok (length ifname \<le> IFNAMSIZ) Out_of_bounds) (\<lambda>_.
           if be_ioctl env \<ge> 0 \<and> be_flags env AND IFF_UP \<noteq> 0 then
             if be_bind env = -1 then Inr (-1, close_sockfd n2)
             else Inr (0, n2\<lparr>dest_address := Some (INADDR_BROADCAST, SEND_PORT)\<rparr>)
           else Inr (-1, close_sockfd n2))))"

fun send_loop :: "nat \<Rightarrow> nat \<Rightarrow> (nat \<Rightarrow> int) \<Rightarrow> int \<Rightarrow> char list \<Rightarrow> net \<Rightarrow> (int \<times> net) res" where
  \<comment> \<open>the rounds left, the round, the results of \<open>sendto\<close>, and \<open>cnt\<close>\<close>
  "send_loop 0 i cnts cnt buffer n = Inr (cnt, n)"
| "send_loop (Suc k) i cnts cnt buffer n =
     bind_ok (c_strlen buffer) (\<lambda>len.
       send_loop k (Suc i) cnts (cnts i) buffer
         (n\<lparr>datagrams := datagrams n @ [(sockfd n, take len buffer)]\<rparr>))"

definition send_broadcast_to_interface ::
    "broadcast_env \<Rightarrow> (nat \<Rightarrow> int) \<Rightarrow> char list \<Rightarrow> string \<Rightarrow> net \<Rightarrow> (int \<times> net) res" where
  "send_broadcast_to_interface env cnts buffer ifname n =
     bind_ok (if sockfd n = -1 then create_broadcast_socket env ifname n else Inr (0, n)) (\<lambda>(created, n1).
     if created \<noteq> 0 then Inr (-1, n1)
     else
       bind_ok (send_loop 10 0 cnts 0 buffer n1) (\<lambda>(cnt, n2).
         Inr (if cnt < 0 then -1 else 0, close_sockfd n2)))"

definition send_cmd_to_server ::
    "bool \<Rightarrow> string \<Rightarrow> (string \<Rightarrow> broadcast_env) \<Rightarrow> (string \<Rightarrow> nat \<Rightarrow> int) \<Rightarrow> int \<Rightarrow> net \<Rightarrow> (int \<times> net) res" where
  \<comment> \<open>whether the file of the test mode exists, the address \<open>cdb_get\<close> stores, and the two environments\<close>
  "send_cmd_to_server test_mode mac0 env cnts cmd n =
     (if \<not> test_mode then Inr (-1, n)
      else
        bind_ok (sprintf (replicate 20 NUL) mac0) (\<lambda>mac.
        bind_ok (sprintf (replicate 20 NUL) (takeWhile (\<lambda>c. c \<noteq> NUL) mac @ fmt_0d 2 cmd)) (\<lambda>mac_cmd.
        bind_ok (send_broadcast_to_interface (env ''br0'') (cnts ''br0'') mac_cmd ''br0'' n) (\<lambda>(r0, n1).
        bind_ok (send_broadcast_to_interface (env ''br1'') (cnts ''br1'') mac_cmd ''br1'' n1) (\<lambda>(r1, n2).
          Inr (if r0 = 0 \<or> r1 = 0 then 0 else -1, n2))))))"

subsection \<open>One interface\<close>

definition usable :: "broadcast_env \<Rightarrow> bool" where
  "usable env \<longleftrightarrow> be_socket env \<noteq> -1 \<and> be_setopt env \<noteq> -1 \<and> be_ioctl env \<ge> 0 \<and>
     be_flags env AND IFF_UP \<noteq> 0 \<and> be_bind env \<noteq> -1"

lemma create_ok:
  assumes "sockfd n = -1" and "length ifname \<le> 16"
  shows "create_broadcast_socket env ifname n = Inr
     (if usable env then
        (0, n\<lparr>sockfd := be_socket env, open_fds := be_socket env # open_fds n,
              dest_address := Some (INADDR_BROADCAST, SEND_PORT)\<rparr>)
      else (-1, n))"
  using assms
  by (cases n) (auto simp: create_broadcast_socket_def usable_def close_sockfd_def IFNAMSIZ_def Let_def)

lemma send_loop_ok:
  assumes "c_strlen buffer = Inr len"
  shows "send_loop k i cnts cnt buffer n =
     Inr (if k = 0 then cnt else cnts (i + k - 1),
          n\<lparr>datagrams := datagrams n @ replicate k (sockfd n, take len buffer)\<rparr>)"
proof (induction k arbitrary: i cnt n)
  case 0
  then show ?case by simp
next
  case (Suc k)
  have "send_loop (Suc k) i cnts cnt buffer n =
      send_loop k (Suc i) cnts (cnts i) buffer (n\<lparr>datagrams := datagrams n @ [(sockfd n, take len buffer)]\<rparr>)"
    using assms by simp
  moreover have "(if k = 0 then cnts i else cnts (Suc i + k - 1)) = cnts (i + Suc k - 1)" by simp
  ultimately show ?case unfolding Suc.IH by simp
qed

lemma send_interface_ok:
  assumes "sockfd n = -1" and "length ifname \<le> 16" and "NUL \<notin> set s"
  shows "send_broadcast_to_interface env cnts (s @ NUL # r) ifname n = Inr
     (if usable env then
        (if cnts 9 < 0 then -1 else 0,
         n\<lparr>dest_address := Some (INADDR_BROADCAST, SEND_PORT),
           datagrams := datagrams n @ replicate 10 (be_socket env, s)\<rparr>)
      else (-1, n))"
proof (cases "usable env")
  case True
  have "c_strlen (s @ NUL # r) = Inr (length s)" using assms(3) by (rule c_strlen_append)
  from send_loop_ok [OF this] True create_ok [OF assms(1,2)] assms(1) show ?thesis
    by (cases n) (simp add: send_broadcast_to_interface_def close_sockfd_def)
next
  case False
  with create_ok [OF assms(1,2)] assms(1) show ?thesis
    by (simp add: send_broadcast_to_interface_def)
qed

subsection \<open>Properties\<close>

text \<open>Broadcasting on one interface: with no socket open, the function leaves no socket and no
  descriptor behind on any path; when the interface is usable it sends the text ten times,
  and reports only what the last of the ten calls returned.\<close>

theorem broadcast_on_interface:
  assumes "sockfd n = -1" and "length ifname \<le> 16" and "NUL \<notin> set s"
  shows "\<exists>n'. send_broadcast_to_interface env cnts (s @ NUL # r) ifname n =
       Inr (if usable env \<and> 0 \<le> cnts 9 then 0 else -1, n') \<and>
     sockfd n' = -1 \<and> open_fds n' = open_fds n \<and>
     datagrams n' = datagrams n @ (if usable env then replicate 10 (be_socket env, s) else [])"
  using send_interface_ok [OF assms, of env cnts r] assms(1) by auto

definition demo_env :: "int \<Rightarrow> broadcast_env" where
  "demo_env fd = \<lparr>be_socket = fd, be_setopt = 0, be_ioctl = 0, be_flags = 1, be_bind = 0\<rparr>"

definition idle_net :: net where
  "idle_net = \<lparr>sockfd = -1, dest_address = None, open_fds = [0, 1], datagrams = []\<rparr>"

theorem broadcast_on_interface_witness:
  "\<exists>n'. send_broadcast_to_interface (demo_env 5) (\<lambda>k. if k < 9 then -1 else 2) (''hi'' @ [NUL]) ''br0'' idle_net =
       Inr (0, n') \<and> open_fds n' = [0, 1] \<and> length (datagrams n') = 10"
  using broadcast_on_interface [of idle_net "''br0''" "''hi''" "demo_env 5" "\<lambda>k. if k < 9 then -1 else 2" "[]"]
  by (auto simp: idle_net_def demo_env_def usable_def IFF_UP_def)

text \<open>Both interfaces, one after the other.\<close>

lemma key_code_sent:
  assumes "sockfd n = -1" and "length mac \<le> 17" and "NUL \<notin> set mac" and "0 \<le> cmd" and "cmd \<le> 99"
  shows "\<exists>n'. send_cmd_to_server test_mode mac env cnts cmd n =
       Inr (if test_mode \<and> (\<exists>i \<in> {''br0'', ''br1''}. usable (env i) \<and> 0 \<le> cnts i 9) then 0 else -1, n') \<and>
     sockfd n' = -1 \<and> open_fds n' = open_fds n \<and>
     datagrams n' = datagrams n @
       concat (map (\<lambda>i. if test_mode \<and> usable (env i) then replicate 10 (be_socket (env i), mac @ fmt_0d 2 cmd) else [])
         [''br0'', ''br1''])"
proof (cases test_mode)
  case False
  then show ?thesis using assms(1) by (simp add: send_cmd_to_server_def)
next
  case True
  let ?s = "mac @ fmt_0d 2 cmd" and ?k = "17 - length mac"
  have len: "length (fmt_0d 2 cmd) = 2" using fmt_0d_width(1) [of cmd 1] assms(4,5) by (simp add: numeral_2_eq_2)
  have nn: "NUL \<notin> set ?s" using assms(3) by simp
  have 1: "sprintf (replicate 20 NUL) mac = Inr (mac @ NUL # replicate (19 - length mac) NUL)"
    using assms(2) by (simp add: sprintf_def)
  have 2: "takeWhile (\<lambda>c. c \<noteq> NUL) (mac @ NUL # x) = mac" for x
    using assms(3) by (subst takeWhile_append2) auto
  have 3: "sprintf (replicate 20 NUL) ?s = Inr (?s @ NUL # replicate ?k NUL)"
    using assms(2) len by (simp add: sprintf_def)
  obtain n1 where n1: "send_broadcast_to_interface (env ''br0'') (cnts ''br0'') (?s @ NUL # replicate ?k NUL) ''br0'' n =
       Inr (if usable (env ''br0'') \<and> 0 \<le> cnts ''br0'' 9 then 0 else -1, n1)"
     "sockfd n1 = -1" "open_fds n1 = open_fds n"
     "datagrams n1 = datagrams n @ (if usable (env ''br0'') then replicate 10 (be_socket (env ''br0''), ?s) else [])"
    using send_interface_ok [OF assms(1) _ nn, of "''br0''" "env ''br0''" "cnts ''br0''" "replicate ?k NUL"] assms(1)
    by (auto split: if_splits)
  obtain n2 where n2: "send_broadcast_to_interface (env ''br1'') (cnts ''br1'') (?s @ NUL # replicate ?k NUL) ''br1'' n1 =
       Inr (if usable (env ''br1'') \<and> 0 \<le> cnts ''br1'' 9 then 0 else -1, n2)"
     "sockfd n2 = -1" "open_fds n2 = open_fds n1"
     "datagrams n2 = datagrams n1 @ (if usable (env ''br1'') then replicate 10 (be_socket (env ''br1''), ?s) else [])"
    using send_interface_ok [OF n1(2) _ nn, of "''br1''" "env ''br1''" "cnts ''br1''" "replicate ?k NUL"] n1(2)
    by (auto split: if_splits)
  have "send_cmd_to_server test_mode mac env cnts cmd n =
      Inr (if (usable (env ''br0'') \<and> 0 \<le> cnts ''br0'' 9) \<or> (usable (env ''br1'') \<and> 0 \<le> cnts ''br1'' 9)
           then 0 else -1, n2)"
    using True n1(1) n2(1) unfolding send_cmd_to_server_def by (simp add: 1 2 3)
  with True n1 n2 show ?thesis by (intro exI [of _ n2]) auto
qed

text \<open>C39: \<open>send_cmd_to_server\<close>: in test mode, with an address of at most 17 characters and a code
  of two digits, it broadcasts the address followed by the two digits on both interfaces,
  succeeds when one of them does, and leaves no descriptor open; without test mode it does
  nothing.\<close>

theorem key_code_broadcast:
  assumes "sockfd n = -1" and "length mac \<le> 17" and "NUL \<notin> set mac" and "0 \<le> cmd" and "cmd \<le> 99"
  shows "\<exists>n'. send_cmd_to_server test_mode mac env cnts cmd n =
       Inr (if test_mode \<and> (\<exists>i \<in> {''br0'', ''br1''}. usable (env i) \<and> 0 \<le> cnts i 9) then 0 else -1, n') \<and>
     sockfd n' = -1 \<and> open_fds n' = open_fds n \<and>
     datagrams n' = datagrams n @
       concat (map (\<lambda>i. if test_mode \<and> usable (env i) then replicate 10 (be_socket (env i), mac @ fmt_0d 2 cmd) else [])
         [''br0'', ''br1''])"
  by (rule key_code_sent [OF assms])

theorem key_code_broadcast_witness:
  "\<exists>n'. send_cmd_to_server True ''00:11:22:33:44:55'' (\<lambda>_. demo_env 5) (\<lambda>i k. if i = ''br0'' then -1 else 19) 7 idle_net =
       Inr (0, n') \<and> open_fds n' = [0, 1] \<and> length (datagrams n') = 20"
  using key_code_broadcast [of idle_net "''00:11:22:33:44:55''" 7 True "\<lambda>_. demo_env 5"
      "\<lambda>i k. if i = ''br0'' then -1 else 19"]
  by (auto simp: idle_net_def demo_env_def usable_def IFF_UP_def)

text \<open>The buffer of 20 bytes has no room for a code of three digits after an address of 17
  characters.\<close>

theorem key_code_overflow:
  assumes "length mac = 17" and "NUL \<notin> set mac" and "100 \<le> cmd" and "cmd \<le> 127"
  shows "send_cmd_to_server True mac env cnts cmd n = Inl Out_of_bounds"
proof -
  have 1: "sprintf (replicate 20 NUL) mac = Inr (mac @ NUL # replicate 2 NUL)"
    using assms(1) by (simp add: sprintf_def)
  have 2: "takeWhile (\<lambda>c. c \<noteq> NUL) (mac @ NUL # x) = mac" for x
    using assms(2) by (subst takeWhile_append2) auto
  have "3 \<le> length (dec (nat cmd))" using length_dec_ge [of 2 "nat cmd"] assms(3) by simp
  then have "3 \<le> length (fmt_0d 2 cmd)" using assms(3) by (simp add: fmt_0d_def)
  then show ?thesis unfolding send_cmd_to_server_def 1 using assms(1) by (simp add: 2 sprintf_def)
qed

theorem key_code_overflow_witness:
  "send_cmd_to_server True ''00:11:22:33:44:55'' (\<lambda>_. demo_env 5) (\<lambda>_ _. 0) 100 idle_net = Inl Out_of_bounds"
  by (rule key_code_overflow) simp_all

subsection \<open>The buttons\<close>

text \<open>The codes that the header offers to callers of \<open>send_cmd_to_server\<close>, in its spelling.\<close>

datatype buttons =
    BUTTON_WPS_PRESSED | BUTTON_PLAY_PAUSE_PRESSED | BUTTON_PREV_PRESSED | BUTTON_NEXT_PRESSED
  | BUTTON_RECODE_PRESSED | BUTTON_VOLUME_UP_PRESSED | BUTTON_VOLUME_DOWN_PRESSED
  | BUTTON_MODE_SWITCH_PRESSED | BUTTON_COLLECTION_PRESSED | BUTTON_UNCOLLECTION_PRESSED
  | BUTION_LOOPMODE_PRESSED | BUTTON_MUTE_PRESSED | BUTTON_MCU1_PRESSED | BUTTON_MCU2_PRESSED
  | BUTTON_MCU3_PRESSED | BUTTON_MCU4_PRESSED | BUTTON_MCU5_PRESSED | BUTTON_MCU6_PRESSED
  | BUTTON_MCU7_PRESSED | BUTTON_MCU8_PRESSED | BUTTON_MCU9_PRESSED | BUTTON_RESET_PRESSED
  | BUTTON_GROUP_PRESSED | RECORD_SUCCEED | RECORD_FAILED | MIC_GAIN_SUCCEED | MIC_GAIN_FAILE

instantiation buttons :: enum
begin

definition enum_buttons :: "buttons list" where
  "enum_buttons =
     [BUTTON_WPS_PRESSED, BUTTON_PLAY_PAUSE_PRESSED, BUTTON_PREV_PRESSED, BUTTON_NEXT_PRESSED,
      BUTTON_RECODE_PRESSED, BUTTON_VOLUME_UP_PRESSED, BUTTON_VOLUME_DOWN_PRESSED,
      BUTTON_MODE_SWITCH_PRESSED, BUTTON_COLLECTION_PRESSED, BUTTON_UNCOLLECTION_PRESSED,
      BUTION_LOOPMODE_PRESSED, BUTTON_MUTE_PRESSED, BUTTON_MCU1_PRESSED, BUTTON_MCU2_PRESSED,
      BUTTON_MCU3_PRESSED, BUTTON_MCU4_PRESSED, BUTTON_MCU5_PRESSED, BUTTON_MCU6_PRESSED,
      BUTTON_MCU7_PRESSED, BUTTON_MCU8_PRESSED, BUTTON_MCU9_PRESSED, BUTTON_RESET_PRESSED,
      BUTTON_GROUP_PRESSED, RECORD_SUCCEED, RECORD_FAILED, MIC_GAIN_SUCCEED, MIC_GAIN_FAILE]"

definition enum_all_buttons :: "(buttons \<Rightarrow> bool) \<Rightarrow> bool" where
  "enum_all_buttons P = list_all P enum_class.enum"

definition enum_ex_buttons :: "(buttons \<Rightarrow> bool) \<Rightarrow> bool" where
  "enum_ex_buttons P = list_ex P enum_class.enum"

instance
proof
  have u: "b \<in> set enum_class.enum" for b :: buttons by (cases b) (simp_all add: enum_buttons_def)
  then show "(UNIV :: buttons set) = set enum_class.enum" by auto
  show "distinct (enum_class.enum :: buttons list)" by (simp add: enum_buttons_def)
  show "enum_class.enum_all P = Ball UNIV P" for P :: "buttons \<Rightarrow> bool"
    using u by (auto simp: enum_all_buttons_def list_all_iff)
  show "enum_class.enum_ex P = Bex UNIV P" for P :: "buttons \<Rightarrow> bool"
    using u by (auto simp: enum_ex_buttons_def list_ex_iff)
qed

end

definition button_code :: "buttons \<Rightarrow> int" where
  \<comment> \<open>the value of an enumeration constant: its position, from zero\<close>
  "button_code b = int (length (takeWhile (\<lambda>c. c \<noteq> b) enum_class.enum))"

definition button_of :: "nat \<Rightarrow> buttons option" where
  "button_of k = find (\<lambda>b. button_code b = int k) enum_class.enum"

lemma button_codes: "\<forall>b. 0 \<le> button_code b \<and> button_code b \<le> 26 \<and> button_of (nat (button_code b)) = Some b"
proof -
  have "list_all (\<lambda>b. 0 \<le> button_code b \<and> button_code b \<le> 26 \<and> button_of (nat (button_code b)) = Some b) enum_class.enum"
    by code_simp
  then show ?thesis by (simp add: list_all_iff enum_UNIV)
qed

text \<open>Every button of the enumeration can be told from the datagrams: with an address of 17
  characters, each datagram is the address followed by two digits that name the button.\<close>

definition heard :: "string \<Rightarrow> (string \<times> buttons option)" where
  "heard bs = (take 17 bs, button_of (undec (drop 17 bs)))"

theorem button_heard:
  assumes "sockfd n = -1" and "length mac = 17" and "NUL \<notin> set mac"
  shows "\<exists>n' r. send_cmd_to_server True mac env cnts (button_code b) n = Inr (r, n') \<and>
     (\<exists>ds. datagrams n' = datagrams n @ ds \<and> list_all (\<lambda>(fd, bs). heard bs = (mac, Some b)) ds \<and>
       length ds = (if usable (env ''br0'') then 10 else 0) + (if usable (env ''br1'') then 10 else 0))"
proof -
  from button_codes have c: "0 \<le> button_code b" "button_code b \<le> 99" "button_of (nat (button_code b)) = Some b"
    by (auto dest: spec [of _ b])
  have "undec (fmt_0d 2 (button_code b)) = nat (button_code b)"
    using fmt_0d_width(2) [of "button_code b" 1] c(1,2) by (simp add: numeral_2_eq_2)
  with c(3) assms(2) have h: "heard (mac @ fmt_0d 2 (button_code b)) = (mac, Some b)" by (simp add: heard_def)
  have "length mac \<le> 17" using assms(2) by simp
  from key_code_sent [OF assms(1) this assms(3) c(1,2), of True env cnts] obtain n' where
    "send_cmd_to_server True mac env cnts (button_code b) n =
       Inr (if True \<and> (\<exists>i \<in> {''br0'', ''br1''}. usable (env i) \<and> 0 \<le> cnts i 9) then 0 else -1, n')"
    "datagrams n' = datagrams n @
       concat (map (\<lambda>i. if True \<and> usable (env i) then replicate 10 (be_socket (env i), mac @ fmt_0d 2 (button_code b)) else [])
         [''br0'', ''br1''])" by blast
  moreover have "list_all (\<lambda>(fd, bs). heard bs = (mac, Some b)) (concat (map (\<lambda>i. if True \<and> usable (env i)
      then replicate 10 (be_socket (env i), mac @ fmt_0d 2 (button_code b)) else []) [''br0'', ''br1'']))"
    using h by (auto simp: list_all_iff)
  ultimately show ?thesis by (intro exI conjI) (assumption | simp)+
qed

lemma button_heard_witness:
  "\<exists>n' r. send_cmd_to_server True ''00:11:22:33:44:55'' (\<lambda>_. demo_env 5) (\<lambda>_ _. 19) (button_code BUTTON_MUTE_PRESSED) idle_net =
       Inr (r, n') \<and> list_all (\<lambda>(fd, bs). heard bs = (''00:11:22:33:44:55'', Some BUTTON_MUTE_PRESSED)) (datagrams n') \<and>
     length (datagrams n') = 20"
  using button_heard [of idle_net "''00:11:22:33:44:55''" "\<lambda>_. demo_env 5" "\<lambda>_ _. 19" BUTTON_MUTE_PRESSED]
  by (fastforce simp: idle_net_def demo_env_def usable_def IFF_UP_def)

end
