(* ===== verification/Pool_Threads.thy ===== *)
theory Pool_Threads
  imports Thread_Pool
begin

text \<open>
  The threads of a pool (\<^verbatim>\<open>thread_pool.c\<close>): producers that call \<open>threadpool_add_job\<close>,
  workers that run \<open>threadpool_function\<close>, one thread that calls \<open>threadpool_destroy\<close>.
  A step is one critical section of one thread, or what happens between two of them.  A
  thread inside \<open>pthread_cond_wait\<close> is in a waiting state; a broadcast moves the waiting
  threads to the state in which they take the mutex again, and so may a spurious wakeup at
  any time.
\<close>

subsection \<open>Threads\<close>

datatype producer =
    P_idle
  | P_calling nat nat   \<comment> \<open>about to take the mutex, for the first time or after a wait\<close>
  | P_waiting nat nat   \<comment> \<open>waits for \<open>queue_not_full\<close>\<close>

datatype worker =
    W_ready
  | W_waiting           \<comment> \<open>waits for \<open>queue_not_empty\<close>\<close>
  | W_running addr
  | W_exited

datatype destroyer =
    D_none
  | D_waiting           \<comment> \<open>waits for \<open>queue_empty\<close>\<close>
  | D_woken
  | D_closed            \<comment> \<open>has set \<open>pool_close\<close>, the broadcasts are still to come\<close>
  | D_joining
  | D_done

record tsys =
  ps :: pstate
  prods :: "nat \<Rightarrow> producer"
  works :: "nat \<Rightarrow> worker"
  dest :: destroyer
  accepted :: "(nat \<times> nat) list"   \<comment> \<open>jobs for which 0 was returned\<close>
  started :: "(nat \<times> nat) list"    \<comment> \<open>jobs taken by a worker\<close>

primrec wake_producer :: "producer \<Rightarrow> producer" where
  "wake_producer P_idle = P_idle"
| "wake_producer (P_calling cb a) = P_calling cb a"
| "wake_producer (P_waiting cb a) = P_calling cb a"

primrec wake_worker :: "worker \<Rightarrow> worker" where
  "wake_worker W_ready = W_ready"
| "wake_worker W_waiting = W_ready"
| "wake_worker (W_running a) = W_running a"
| "wake_worker W_exited = W_exited"

definition wake_destroyer :: "destroyer \<Rightarrow> destroyer" where
  "wake_destroyer d = (if d = D_waiting then D_woken else d)"

primrec destroyer_after :: "destroy_outcome \<Rightarrow> destroyer" where
  "destroyer_after (Destroy_ret n) = D_none"
| "destroyer_after Destroy_wait = D_waiting"
| "destroyer_after Destroy_closed = D_closed"

subsection \<open>Steps\<close>

text \<open>\<open>n\<close> is the number of workers; worker \<open>i\<close> exists when \<open>i < n\<close>.\<close>

inductive tstep :: "nat \<Rightarrow> tsys \<Rightarrow> tsys \<Rightarrow> bool" for n :: nat where
  call: "prods s t = P_idle \<Longrightarrow>
    tstep n s (s\<lparr>prods := (prods s)(t := P_calling cb a)\<rparr>)"
| add_waits: "prods s t = P_calling cb a \<Longrightarrow> threadpool_add_job cb a (ps s) = Inr (Add_wait, q) \<Longrightarrow>
    tstep n s (s\<lparr>ps := q, prods := (prods s)(t := P_waiting cb a)\<rparr>)"
| add_returns: "prods s t = P_calling cb a \<Longrightarrow>
    threadpool_add_job cb a (ps s) = Inr (Add_ret r woke, q) \<Longrightarrow>
    tstep n s (s\<lparr>ps := q, prods := (prods s)(t := P_idle),
      works := (if woke then wake_worker \<circ> works s else works s),
      accepted := (if r = 0 then accepted s @ [(cb, a)] else accepted s)\<rparr>)"
| producer_wakes: "prods s t = P_waiting cb a \<Longrightarrow>
    tstep n s (s\<lparr>prods := (prods s)(t := P_calling cb a)\<rparr>)"
| worker_waits: "i < n \<Longrightarrow> works s i = W_ready \<Longrightarrow> threadpool_function (ps s) = Inr (Take_wait, q) \<Longrightarrow>
    tstep n s (s\<lparr>ps := q, works := (works s)(i := W_waiting)\<rparr>)"
| worker_exits: "i < n \<Longrightarrow> works s i = W_ready \<Longrightarrow> threadpool_function (ps s) = Inr (Take_exit, q) \<Longrightarrow>
    tstep n s (s\<lparr>ps := q, works := (works s)(i := W_exited)\<rparr>)"
| worker_takes: "i < n \<Longrightarrow> works s i = W_ready \<Longrightarrow>
    threadpool_function (ps s) = Inr (Take_job b emptied unfull, q) \<Longrightarrow>
    tstep n s (s\<lparr>ps := q, works := (works s)(i := W_running b),
      prods := (if unfull then wake_producer \<circ> prods s else prods s),
      dest := (if emptied then wake_destroyer (dest s) else dest s),
      started := started s @ [job_of (ps s) b]\<rparr>)"
| worker_finishes: "i < n \<Longrightarrow> works s i = W_running b \<Longrightarrow> run_job b (ps s) = Inr (x, q) \<Longrightarrow>
    tstep n s (s\<lparr>ps := q, works := (works s)(i := W_ready)\<rparr>)"
| worker_wakes: "i < n \<Longrightarrow> works s i = W_waiting \<Longrightarrow>
    tstep n s (s\<lparr>works := (works s)(i := W_ready)\<rparr>)"
| destroy_starts: "dest s = D_none \<Longrightarrow> threadpool_destroy (ps s) = Inr (r, q) \<Longrightarrow>
    tstep n s (s\<lparr>ps := q, dest := destroyer_after r\<rparr>)"
| destroy_wakes: "dest s = D_waiting \<Longrightarrow> tstep n s (s\<lparr>dest := D_woken\<rparr>)"
| destroy_retries: "dest s = D_woken \<Longrightarrow> destroy_woken (ps s) = Inr (r, q) \<Longrightarrow>
    tstep n s (s\<lparr>ps := q, dest := destroyer_after r\<rparr>)"
| destroy_broadcasts: "dest s = D_closed \<Longrightarrow>
    tstep n s (s\<lparr>works := wake_worker \<circ> works s, prods := wake_producer \<circ> prods s, dest := D_joining\<rparr>)"
| destroy_frees: "dest s = D_joining \<Longrightarrow> \<forall>i < n. works s i = W_exited \<Longrightarrow>
    destroy_free (ps s) = Inr q \<Longrightarrow> tstep n s (s\<lparr>ps := q, dest := D_done\<rparr>)"

definition fresh_pool :: "nat \<Rightarrow> int \<Rightarrow> (nat \<Rightarrow> bool) \<Rightarrow> tsys" where
  "fresh_pool n max_num out_of_mem =
     \<lparr>ps = new_pool (int n) max_num out_of_mem,
      prods = (\<lambda>_. P_idle), works = (\<lambda>_. W_ready), dest = D_none, accepted = [], started = []\<rparr>"

definition treachable :: "nat \<Rightarrow> int \<Rightarrow> (nat \<Rightarrow> bool) \<Rightarrow> tsys \<Rightarrow> bool" where
  "treachable n max_num out_of_mem s \<longleftrightarrow> (tstep n)\<^sup>*\<^sup>* (fresh_pool n max_num out_of_mem) s"

subsection \<open>The invariant\<close>

text \<open>All threads of a new pool have been created (see \<open>failed_create_breaks_destroy\<close> for the other case).

  The jobs on the heap are those queued and those being run, each once.\<close>

definition jobs_owned :: "nat \<Rightarrow> tsys \<Rightarrow> addr list \<Rightarrow> bool" where
  "jobs_owned n s as \<longleftrightarrow>
     (\<forall>b. jobs (ps s) b \<noteq> None \<longleftrightarrow> b \<in> set as \<or> (\<exists>i < n. works s i = W_running b)) \<and>
     (\<forall>i < n. \<forall>b. works s i = W_running b \<longrightarrow> b \<notin> set as \<and> b \<noteq> 0 \<and> b \<le> jalloc (ps s)) \<and>
     (\<forall>i < n. \<forall>j < n. \<forall>b. works s i = W_running b \<and> works s j = W_running b \<longrightarrow> i = j)"

definition tinv_at :: "nat \<Rightarrow> int \<Rightarrow> tsys \<Rightarrow> threadpool \<Rightarrow> addr list \<Rightarrow> bool" where
  "tinv_at n max_num s p as \<longleftrightarrow>
     pool_rep (ps s) p as \<and> queue_max_num p = max_num \<and>
     thread_num p = int n \<and> pthreads (ps s) = Some (replicate n True) \<and>
     accepted s = started s @ map (job_of (ps s)) as \<and> jobs_owned n s as \<and>
     (\<forall>i < n. works s i = W_waiting \<longrightarrow> as = [] \<and> dest s \<noteq> D_joining) \<and>
     (\<forall>t cb a. prods s t = P_waiting cb a \<longrightarrow> int (length as) = max_num \<and> pool_close p = 0) \<and>
     (dest s = D_waiting \<longrightarrow> as \<noteq> []) \<and>
     (queue_close p \<noteq> 0 \<longleftrightarrow> dest s \<noteq> D_none) \<and>
     (pool_close p \<noteq> 0 \<longleftrightarrow> dest s = D_closed \<or> dest s = D_joining) \<and>
     (pool_close p \<noteq> 0 \<longrightarrow> as = []) \<and>
     (\<forall>i < n. works s i = W_exited \<longrightarrow> pool_close p \<noteq> 0)"

definition tinv :: "nat \<Rightarrow> int \<Rightarrow> tsys \<Rightarrow> bool" where
  "tinv n max_num s \<longleftrightarrow>
     (if dest s = D_done then
        pool (ps s) = None \<and> pthreads (ps s) = None \<and> accepted s = started s \<and> jobs (ps s) = (\<lambda>_. None) \<and>
        (\<forall>i < n. works s i = W_exited) \<and> (\<forall>t cb a. prods s t \<noteq> P_waiting cb a)
      else \<exists>p as. tinv_at n max_num s p as)"

subsection \<open>Outcomes of the critical sections\<close>

lemma add_job_cases:
  assumes r: "pool_rep s p as" and eq: "threadpool_add_job cb a s = Inr (r, q)"
  obtains (waits) "r = Add_wait" "q = s" "int (length as) = queue_max_num p" "queue_close p = 0" "pool_close p = 0"
    | (refused) k where "r = Add_ret (-1) False" "q = s\<lparr>jalloc := k\<rparr>" "jalloc s \<le> k"
    | (added) "r = Add_ret 0 (as = [])" "q = after_add s p as cb a" "int (length as) < queue_max_num p"
        "queue_close p = 0" "pool_close p = 0" "\<not> joom s (jalloc s)"
proof -
  have "int (length as) \<le> queue_max_num p" using r by (simp add: pool_rep_def)
  then consider (w) "int (length as) = queue_max_num p" "queue_close p = 0" "pool_close p = 0"
    | (c) "queue_close p \<noteq> 0 \<or> pool_close p \<noteq> 0"
    | (o) "int (length as) < queue_max_num p" "queue_close p = 0" "pool_close p = 0" "joom s (jalloc s)"
    | (k) "int (length as) < queue_max_num p" "queue_close p = 0" "pool_close p = 0" "\<not> joom s (jalloc s)"
    unfolding le_less by blast
  then show ?thesis
  proof cases
    case w
    with add_job_refuses(1) [OF r] eq waits show ?thesis by simp
  next
    case c
    have "s = s\<lparr>jalloc := jalloc s\<rparr>" by (cases s) simp
    with add_job_refuses(2) [OF r c] eq refused [of "jalloc s"] show ?thesis by simp
  next
    case o
    with add_job_refuses(3) [OF r] eq refused [of "Suc (jalloc s)"] show ?thesis by simp
  next
    case k
    with add_job_ok(1) [OF r] eq added show ?thesis by simp
  qed
qed

definition after_take :: "pstate \<Rightarrow> threadpool \<Rightarrow> addr list \<Rightarrow> pstate" where
  "after_take s p bs = s\<lparr>pool := Some (p\<lparr>jhead := (if bs = [] then 0 else hd bs),
     jtail := (if bs = [] then 0 else jtail p), queue_cur_num := int (length bs)\<rparr>)\<rparr>"

lemma take_job_cases:
  assumes r: "pool_rep s p as" and eq: "threadpool_function s = Inr (r, q)"
    and cl: "pool_close p \<noteq> 0 \<longrightarrow> as = []"
  obtains (waits) "r = Take_wait" "q = s" "as = []" "pool_close p = 0"
    | (exits) "r = Take_exit" "q = s" "pool_close p \<noteq> 0"
    | (takes) b bs where "as = b # bs" "r = Take_job b (bs = []) (int (length bs) = queue_max_num p - 1)"
        "q = after_take s p bs" "pool_close p = 0"
proof (cases "pool_close p = 0")
  case False
  with take_job_exits [OF r] eq exits show ?thesis by simp
next
  case True
  show ?thesis
  proof (cases as)
    case Nil
    with take_job_waits [of s p] r eq waits True show ?thesis by simp
  next
    case (Cons b bs)
    with take_job_ok(1) [OF r [unfolded Cons] True] eq takes True show ?thesis by (simp add: after_take_def)
  qed
qed

lemma after_take_ok:
  assumes "pool_rep s p (b # bs)"
  shows "pool_rep (after_take s p bs) (the (pool (after_take s p bs))) bs"
    and "job_of (after_take s p bs) = job_of s" and "jobs (after_take s p bs) = jobs s"
    and "jalloc (after_take s p bs) = jalloc s"
    and "queue_max_num (the (pool (after_take s p bs))) = queue_max_num p"
    and "queue_close (the (pool (after_take s p bs))) = queue_close p"
    and "pool_close (the (pool (after_take s p bs))) = pool_close p"
    and "thread_num (the (pool (after_take s p bs))) = thread_num p"
    and "pthreads (after_take s p bs) = pthreads s"
proof -
  show "pool_rep (after_take s p bs) (the (pool (after_take s p bs))) bs"
    using assms by (cases bs) (auto simp: pool_rep_def after_take_def split: option.splits)
qed (simp_all add: after_take_def job_of_def fun_eq_iff)

definition closing :: "pstate \<Rightarrow> threadpool \<Rightarrow> int \<Rightarrow> int \<Rightarrow> pstate" where
  "closing s p qc pc = s\<lparr>pool := Some (p\<lparr>queue_close := qc, pool_close := pc\<rparr>)\<rparr>"

lemma destroy_ok:
  assumes r: "pool_rep s p as" and op: "queue_close p = 0" "pool_close p = 0"
  shows "threadpool_destroy s = Inr
     (if as \<noteq> [] then (Destroy_wait, closing s p 1 0) else (Destroy_closed, closing s p 1 1))"
  using r op by (simp add: pool_rep_def threadpool_destroy_def destroy_drain_def pool_eval closing_def; cases p; simp)

lemma destroy_woken_ok:
  assumes r: "pool_rep s p as" and op: "pool_close p = 0"
  shows "destroy_woken s = Inr
     (if as \<noteq> [] then (Destroy_wait, s) else (Destroy_closed, closing s p (queue_close p) 1))"
  using r op idle_pool [of s p]
  by (simp add: pool_rep_def destroy_woken_def destroy_drain_def pool_eval closing_def; cases p; simp)

lemma destroy_total:
  assumes "pool_rep s p as"
  shows "\<exists>r q. threadpool_destroy s = Inr (r, q)"
proof (cases "queue_close p = 0 \<and> pool_close p = 0")
  case True
  then show ?thesis using destroy_ok [OF assms] by (auto split: if_splits)
next
  case False
  then show ?thesis using assms by (auto simp: pool_rep_def threadpool_destroy_def pool_eval)
qed

lemma closing_ok:
  assumes "pool_rep s p as"
  shows "pool_rep (closing s p qc pc) (p\<lparr>queue_close := qc, pool_close := pc\<rparr>) as"
    and "job_of (closing s p qc pc) = job_of s" and "jobs (closing s p qc pc) = jobs s"
    and "jalloc (closing s p qc pc) = jalloc s" and "pthreads (closing s p qc pc) = pthreads s"
  using assms by (simp_all add: closing_def pool_rep_def job_of_def fun_eq_iff)

lemma destroy_free_ok:
  assumes "pool_rep s p []" and "thread_num p = int n" and "pthreads s = Some (replicate n True)"
  shows "\<exists>q. destroy_free s = Inr q \<and> pool q = None \<and> pthreads q = None \<and> jobs q = jobs s"
  using assms
  by (simp add: pool_rep_def destroy_free_def join_threads_def cond_destroy_def free_pthreads_def the_pool_def
      set_pool_def list_all_iff)

subsection \<open>Every step keeps the invariant\<close>

lemmas tinv_parts = tinv_at_def jobs_owned_def


lemma tinv_add:
  assumes I: "tinv_at n M s p as" and t: "prods s t = P_calling cb a"
    and eq: "threadpool_add_job cb a (ps s) = Inr (Add_ret r woke, q)"
  shows "\<exists>p' as'. tinv_at n M (s\<lparr>ps := q, prods := (prods s)(t := P_idle),
      works := (if woke then wake_worker \<circ> works s else works s),
      accepted := (if r = 0 then accepted s @ [(cb, a)] else accepted s)\<rparr>) p' as'"
proof -
  from I have rep: "pool_rep (ps s) p as" by (simp add: tinv_at_def)
  from rep eq show ?thesis
  proof (cases rule: add_job_cases)
    case (refused k)
    then have "pool_rep q p as" "job_of q = job_of (ps s)" using rep
      by (auto simp: pool_rep_def job_of_def fun_eq_iff)
    then show ?thesis using I refused
      by (intro exI [of _ p] exI [of _ as]) (auto simp: tinv_parts dest: le_trans [OF _ refused(3)])
  next
    case added
    let ?x = "Suc (jalloc (ps s))" and ?p = "the (pool q)"
    note A = add_job_ok [OF rep added(3-6), of cb a, folded added(2)]
    have pq: "queue_max_num ?p = queue_max_num p" "queue_close ?p = queue_close p"
      "pool_close ?p = pool_close p" "jalloc q = ?x" "thread_num ?p = thread_num p" "pthreads q = pthreads (ps s)"
      by (simp_all add: added(2) after_add_def Let_def)
    have x: "?x \<notin> set as" using rep by (auto simp: pool_rep_def)
    have dom: "jobs q b \<noteq> None \<longleftrightarrow> b = ?x \<or> jobs (ps s) b \<noteq> None" for b
      using x last_in_set [of as] by (auto simp: added(2) after_add_def Let_def)
    have wk: "(if woke then wake_worker \<circ> works s else works s) i = W_running b \<longleftrightarrow> works s i = W_running b"
      "(if woke then wake_worker \<circ> works s else works s) i = W_exited \<longleftrightarrow> works s i = W_exited" for i b
      by (cases "works s i"; simp)+
    have nw: "(if woke then wake_worker \<circ> works s else works s) i \<noteq> W_waiting" if "i < n" for i
      using that I added(1) by (cases "works s i") (auto simp: tinv_at_def)
    let ?s = "s\<lparr>ps := q, prods := (prods s)(t := P_idle),
      works := (if woke then wake_worker \<circ> works s else works s),
      accepted := (if r = 0 then accepted s @ [(cb, a)] else accepted s)\<rparr>"
    from I have o1: "jobs (ps s) b \<noteq> None \<longleftrightarrow> b \<in> set as \<or> (\<exists>i < n. works s i = W_running b)"
      and o2: "i < n \<Longrightarrow> works s i = W_running b \<Longrightarrow> b \<notin> set as \<and> b \<noteq> 0 \<and> b \<le> jalloc (ps s)"
      and o3: "i < n \<Longrightarrow> k < n \<Longrightarrow> works s i = W_running b \<Longrightarrow> works s k = W_running b \<Longrightarrow> i = k" for b i k
      by (auto simp: tinv_parts)
    have w: "works ?s i = W_running b \<longleftrightarrow> works s i = W_running b" for i b using wk(1) by simp
    have own: "jobs_owned n ?s (as @ [?x])"
      unfolding jobs_owned_def w
    proof (intro conjI allI impI)
      show "jobs (ps ?s) b \<noteq> None \<longleftrightarrow> b \<in> set (as @ [?x]) \<or> (\<exists>i < n. works s i = W_running b)" for b
        using o1 [of b] dom [of b] by auto
    next
      fix i b assume "i < n" "works s i = W_running b"
      from o2 [OF this] show "b \<notin> set (as @ [?x])" "b \<noteq> 0" "b \<le> jalloc (ps ?s)"
        using pq(4) by auto
    next
      fix i k b assume "i < n" "k < n" "works s i = W_running b \<and> works s k = W_running b"
      then show "i = k" using o3 by blast
    qed
    have nowait: "\<not> (prods s u = P_waiting c d)" for u c d
      using I added(3) by (auto simp: tinv_at_def)
    show ?thesis
      using I A own pq added(1,4,5) nw wk nowait unfolding tinv_at_def
      by (intro exI [of _ ?p] exI [of _ "as @ [?x]"]) simp
  qed (use eq in simp)
qed

lemma tinv_take:
  assumes I: "tinv_at n M s p as" and i: "i < n" "works s i = W_ready" and M: "0 < M"
    and eq: "threadpool_function (ps s) = Inr (Take_job b emptied unfull, q)"
  shows "\<exists>p' as'. tinv_at n M (s\<lparr>ps := q, works := (works s)(i := W_running b),
      prods := (if unfull then wake_producer \<circ> prods s else prods s),
      dest := (if emptied then wake_destroyer (dest s) else dest s),
      started := started s @ [job_of (ps s) b]\<rparr>) p' as'"
proof -
  let ?s = "s\<lparr>ps := q, works := (works s)(i := W_running b),
      prods := (if unfull then wake_producer \<circ> prods s else prods s),
      dest := (if emptied then wake_destroyer (dest s) else dest s),
      started := started s @ [job_of (ps s) b]\<rparr>"
  from I have rep: "pool_rep (ps s) p as" and cl: "pool_close p \<noteq> 0 \<longrightarrow> as = []"
    by (simp_all add: tinv_at_def)
  from rep eq cl show ?thesis
  proof (cases rule: take_job_cases)
    case (takes b' bs)
    then have q: "q = after_take (ps s) p bs" and as: "as = b # bs" and op: "pool_close p = 0"
      and em: "emptied \<longleftrightarrow> bs = []" and un: "unfull \<longleftrightarrow> int (length bs) = M - 1"
      using eq I by (auto simp: tinv_at_def)
    note T = after_take_ok [OF rep [unfolded as], folded q]
    from rep as have b: "b \<noteq> 0" "b \<notin> set bs" "b \<le> jalloc (ps s)"
      using jpath_nonzero [of "jobs (ps s)" "jhead p" as] by (auto simp: pool_rep_def)
    from I have o1: "jobs (ps s) b \<noteq> None \<longleftrightarrow> b \<in> set as \<or> (\<exists>i < n. works s i = W_running b)"
      and o2: "i < n \<Longrightarrow> works s i = W_running b \<Longrightarrow> b \<notin> set as \<and> b \<noteq> 0 \<and> b \<le> jalloc (ps s)"
      and o3: "i < n \<Longrightarrow> k < n \<Longrightarrow> works s i = W_running b \<Longrightarrow> works s k = W_running b \<Longrightarrow> i = k" for b i k
      by (auto simp: tinv_parts)
    have w: "works ?s k = W_running c \<longleftrightarrow> (if k = i then c = b else works s k = W_running c)" for k c
      by auto
    have own: "jobs_owned n ?s bs"
      unfolding jobs_owned_def w
    proof (intro conjI allI impI)
      fix c
      show "jobs (ps ?s) c \<noteq> None \<longleftrightarrow>
          c \<in> set bs \<or> (\<exists>k < n. if k = i then c = b else works s k = W_running c)"
      proof -
        have "(\<exists>k < n. if k = i then c = b else works s k = W_running c) \<longleftrightarrow>
            c = b \<or> (\<exists>k < n. works s k = W_running c)"
          using i by (metis worker.distinct(3))
        then show ?thesis using o1 [of c] T(3) as by auto
      qed
    next
      fix k c assume "k < n" "if k = i then c = b else works s k = W_running c"
      then show "c \<notin> set bs" "c \<noteq> 0" "c \<le> jalloc (ps ?s)"
        using o2 [of k c] b T(4) as by (auto split: if_splits)
    next
      fix k l c
      assume "k < n" "l < n" and
        *: "(if k = i then c = b else works s k = W_running c) \<and> (if l = i then c = b else works s l = W_running c)"
      then show "k = l" using o3 [of k l c] o2 [of k b] o2 [of l b] as by (auto split: if_splits)
    qed
    have ww: "works s k \<noteq> W_waiting" if "k < n" for k using that I as by (auto simp: tinv_at_def)
    have pw: "prods ?s t \<noteq> P_waiting c d" for t c d
    proof
      assume w: "prods ?s t = P_waiting c d"
      then have "prods s t = P_waiting c d" by (cases "prods s t") (auto split: if_splits)
      then have "int (length as) = M" using I by (auto simp: tinv_at_def)
      then have unfull using un as by simp
      with w \<open>prods s t = P_waiting c d\<close> show False by simp
    qed
    have "accepted ?s = started ?s @ map (job_of (ps ?s)) bs"
      using I as T(2) by (simp add: tinv_at_def)
    moreover have "dest ?s = D_waiting \<longrightarrow> bs \<noteq> []" using em by (auto simp: wake_destroyer_def)
    moreover have "dest ?s = D_none \<longleftrightarrow> dest s = D_none" "dest ?s = D_closed \<longleftrightarrow> dest s = D_closed"
      "dest ?s = D_joining \<longleftrightarrow> dest s = D_joining" by (auto simp: wake_destroyer_def)
    moreover have "works ?s k = W_waiting \<longleftrightarrow> k \<noteq> i \<and> works s k = W_waiting"
      "works ?s k = W_exited \<longleftrightarrow> k \<noteq> i \<and> works s k = W_exited" for k by auto
    ultimately have "tinv_at n M ?s (the (pool q)) bs"
      unfolding tinv_at_def using I T own ww pw op unfolding tinv_at_def by simp
    then show ?thesis by blast
  qed (use eq in auto)
qed

lemma tinv_finish:
  assumes I: "tinv_at n M s p as" and i: "i < n" "works s i = W_running b"
    and eq: "run_job b (ps s) = Inr (x, q)"
  shows "tinv_at n M (s\<lparr>ps := q, works := (works s)(i := W_ready)\<rparr>) p as"
proof -
  let ?s = "s\<lparr>ps := q, works := (works s)(i := W_ready)\<rparr>"
  from I have rep: "pool_rep (ps s) p as" by (simp add: tinv_at_def)
  from I have o1: "jobs (ps s) b \<noteq> None \<longleftrightarrow> b \<in> set as \<or> (\<exists>i < n. works s i = W_running b)"
    and o2: "i < n \<Longrightarrow> works s i = W_running b \<Longrightarrow> b \<notin> set as \<and> b \<noteq> 0 \<and> b \<le> jalloc (ps s)"
    and o3: "i < n \<Longrightarrow> k < n \<Longrightarrow> works s i = W_running b \<Longrightarrow> works s k = W_running b \<Longrightarrow> i = k" for b i k
    by (auto simp: tinv_parts)
  from o2 [OF i] o1 [of b] i obtain j where b: "b \<notin> set as" "b \<noteq> 0" "jobs (ps s) b = Some j" by auto
  note R = run_job_ok [OF rep b]
  from R(1) eq have q: "q = (ps s)\<lparr>jobs := (jobs (ps s))(b := None)\<rparr>" by simp
  have w: "works ?s k = W_running c \<longleftrightarrow> k \<noteq> i \<and> works s k = W_running c" for k c by auto
  have own: "jobs_owned n ?s as"
    unfolding jobs_owned_def w
  proof (intro conjI allI impI)
    fix c
    show "jobs (ps ?s) c \<noteq> None \<longleftrightarrow> c \<in> set as \<or> (\<exists>k < n. k \<noteq> i \<and> works s k = W_running c)"
    proof (cases "c = b")
      case True
      with o3 [OF i(1) _ i(2)] b(1) show ?thesis by (auto simp: q)
    next
      case False
      then have "works s k = W_running c \<longrightarrow> k \<noteq> i" for k using i(2) by auto
      then have "(\<exists>k < n. k \<noteq> i \<and> works s k = W_running c) \<longleftrightarrow> (\<exists>k < n. works s k = W_running c)" by blast
      with o1 [of c] False show ?thesis by (simp add: q)
    qed
  next
    fix k c assume "k < n" "k \<noteq> i \<and> works s k = W_running c"
    then show "c \<notin> set as" "c \<noteq> 0" "c \<le> jalloc (ps ?s)" using o2 [of k c] by (auto simp: q)
  next
    fix k l c
    assume "k < n" "l < n" "(k \<noteq> i \<and> works s k = W_running c) \<and> l \<noteq> i \<and> works s l = W_running c"
    then show "k = l" using o3 [of k l c] by auto
  qed
  have "works ?s k = W_waiting \<longleftrightarrow> k \<noteq> i \<and> works s k = W_waiting"
    "works ?s k = W_exited \<longleftrightarrow> k \<noteq> i \<and> works s k = W_exited" for k by auto
  then show ?thesis
    unfolding tinv_at_def using I own R(2,3) unfolding tinv_at_def q by simp
qed

text \<open>Steps that change the state of one thread only.\<close>

lemma tinv_works:
  assumes I: "tinv_at n M s p as" and i: "i < n" "works s i = W_ready \<or> works s i = W_waiting"
    and w: "w = W_ready \<or> w = W_waiting \<and> as = [] \<and> pool_close p = 0 \<or> w = W_exited \<and> pool_close p \<noteq> 0"
  shows "tinv_at n M (s\<lparr>works := (works s)(i := w)\<rparr>) p as"
proof -
  let ?s = "s\<lparr>works := (works s)(i := w)\<rparr>"
  have r: "works ?s k = W_running c \<longleftrightarrow> works s k = W_running c" for k c using i w by auto
  have "jobs_owned n ?s as" using I unfolding tinv_at_def jobs_owned_def r by simp
  then show ?thesis using I w unfolding tinv_at_def by auto
qed

lemma tinv_prods:
  assumes I: "tinv_at n M s p as"
    and f: "\<And>u c d. f u = P_waiting c d \<Longrightarrow>
        prods s u = P_waiting c d \<or> int (length as) = M \<and> pool_close p = 0"
  shows "tinv_at n M (s\<lparr>prods := f\<rparr>) p as"
proof -
  have "jobs_owned n (s\<lparr>prods := f\<rparr>) as" using I by (simp add: tinv_parts)
  then show ?thesis using I f unfolding tinv_at_def by fastforce
qed

lemma tinv_dest:
  assumes I: "tinv_at n M s p as" and rep: "pool_rep q p' as" and q: "job_of q = job_of (ps s)"
      "jobs q = jobs (ps s)" "jalloc q = jalloc (ps s)" "queue_max_num p' = queue_max_num p"
      "pthreads q = pthreads (ps s)" "thread_num p' = thread_num p"
    and d: "d = D_waiting \<longrightarrow> as \<noteq> []" "queue_close p' \<noteq> 0 \<longleftrightarrow> d \<noteq> D_none" "d \<noteq> D_joining"
      "pool_close p' \<noteq> 0 \<longleftrightarrow> d = D_closed" "pool_close p' \<noteq> 0 \<longrightarrow> as = []" "pool_close p = 0" and M: "0 < M"
  shows "tinv_at n M (s\<lparr>ps := q, dest := d\<rparr>) p' as"
proof -
  have "jobs_owned n (s\<lparr>ps := q, dest := d\<rparr>) as" using I q by (simp add: tinv_parts)
  moreover have "pool_close p' = 0" if "prods s t = P_waiting cb a" for t cb a
    using that I d(5) M by (fastforce simp: tinv_at_def)
  ultimately show ?thesis using I rep q d unfolding tinv_at_def by auto
qed

lemma tinv_init:
  assumes "0 < M" and "M \<le> INT_MAX"
  shows "tinv n M (fresh_pool n M out_of_mem)"
proof -
  let ?s = "fresh_pool n M out_of_mem"
  have "tinv_at n M ?s (the (pool (ps ?s))) []"
    using assms by (simp add: tinv_parts fresh_pool_def new_pool_def init_state_def threadpool_init_def pool_rep_def map_replicate_const)
  then show ?thesis unfolding tinv_def by (auto simp: fresh_pool_def)
qed

lemma freed_pool:
  assumes "pool s = None"
  shows "threadpool_add_job cb a s = Inl Bad_pointer" and "threadpool_function s = Inl Bad_pointer"
  using assms by (simp_all add: threadpool_add_job_def threadpool_function_def lock_pool_def the_pool_def)

lemma tinvI: "tinv_at n M s p as \<Longrightarrow> dest s \<noteq> D_done \<Longrightarrow> tinv n M s"
  by (auto simp: tinv_def)

lemma tinv_step_done:
  assumes "tstep n s s'" and "tinv n M s" and d: "dest s = D_done"
  shows "tinv n M s'"
proof -
  from assms(2) d have I: "pool (ps s) = None" "pthreads (ps s) = None" "accepted s = started s" "jobs (ps s) = (\<lambda>_. None)"
    "\<forall>i < n. works s i = W_exited" "\<forall>t cb a. prods s t \<noteq> P_waiting cb a"
    by (simp_all add: tinv_def)
  from assms(1) show ?thesis
    by cases (use I d freed_pool in \<open>auto simp: tinv_def\<close>)
qed

lemma tinv_step:
  assumes "tstep n s s'" and "tinv n M s" and M: "0 < M" and nd: "dest s \<noteq> D_done"
  shows "tinv n M s'"
proof -
  from assms(2) nd obtain p as where I: "tinv_at n M s p as" by (auto simp: tinv_def)
  then have rep: "pool_rep (ps s) p as" and cl: "pool_close p \<noteq> 0 \<longrightarrow> as = []"
    and qc: "queue_close p \<noteq> 0 \<longleftrightarrow> dest s \<noteq> D_none"
    and pc: "pool_close p \<noteq> 0 \<longleftrightarrow> dest s = D_closed \<or> dest s = D_joining"
    and mx: "queue_max_num p = M" by (simp_all add: tinv_at_def)
  have idle: "s\<lparr>ps := ps s\<rparr> = s" "s\<lparr>ps := ps s, works := w\<rparr> = s\<lparr>works := w\<rparr>"
    "s\<lparr>ps := ps s, prods := f\<rparr> = s\<lparr>prods := f\<rparr>" for w f
    by (cases s; simp)+
  from assms(1) show ?thesis
  proof cases
    case (call t cb a)
    have "tinv_at n M s' p as" unfolding call(1) by (rule tinv_prods [OF I]) (auto split: if_splits)
    then show ?thesis by (rule tinvI) (use call nd in simp)
  next
    case (add_waits t cb a q)
    from rep add_waits(3) have "q = ps s" "int (length as) = M" "pool_close p = 0"
      by (cases rule: add_job_cases; use mx in auto)+
    then have "tinv_at n M s' p as" unfolding add_waits(1)
      using tinv_prods [OF I, of "(prods s)(t := P_waiting cb a)"] by (auto simp: idle)
    then show ?thesis by (rule tinvI) (use add_waits nd in simp)
  next
    case (add_returns t cb a r woke q)
    from tinv_add [OF I add_returns(2,3)] obtain p' as' where "tinv_at n M s' p' as'"
      unfolding add_returns(1) by blast
    then show ?thesis by (rule tinvI) (use add_returns nd in simp)
  next
    case (producer_wakes t cb a)
    have "tinv_at n M s' p as" unfolding producer_wakes(1)
      by (rule tinv_prods [OF I]) (auto split: if_splits)
    then show ?thesis by (rule tinvI) (use producer_wakes nd in simp)
  next
    case (worker_waits i q)
    from rep worker_waits(4) cl have "q = ps s" "as = []" "pool_close p = 0"
      by (cases rule: take_job_cases; auto)+
    then have "tinv_at n M s' p as" unfolding worker_waits(1)
      using tinv_works [OF I worker_waits(2), of W_waiting] worker_waits(3) by (simp add: idle)
    then show ?thesis by (rule tinvI) (use worker_waits nd in simp)
  next
    case (worker_exits i q)
    from rep worker_exits(4) cl have "q = ps s" "pool_close p \<noteq> 0"
      by (cases rule: take_job_cases; auto)+
    then have "tinv_at n M s' p as" unfolding worker_exits(1)
      using tinv_works [OF I worker_exits(2), of W_exited] worker_exits(3) by (simp add: idle)
    then show ?thesis by (rule tinvI) (use worker_exits nd in simp)
  next
    case (worker_takes i b emptied unfull q)
    from tinv_take [OF I worker_takes(2,3) M worker_takes(4)] obtain p' as' where "tinv_at n M s' p' as'"
      unfolding worker_takes(1) by blast
    then show ?thesis by (rule tinvI) (use worker_takes nd in \<open>auto simp: wake_destroyer_def\<close>)
  next
    case (worker_finishes i b x q)
    from tinv_finish [OF I worker_finishes(2-4)] have "tinv_at n M s' p as"
      unfolding worker_finishes(1) .
    then show ?thesis by (rule tinvI) (use worker_finishes nd in simp)
  next
    case (worker_wakes i)
    have "tinv_at n M s' p as" unfolding worker_wakes(1)
      by (rule tinv_works [OF I worker_wakes(2)]) (use worker_wakes in simp_all)
    then show ?thesis by (rule tinvI) (use worker_wakes nd in simp)
  next
    case (destroy_starts r q)
    then have op: "queue_close p = 0" "pool_close p = 0" using qc pc by auto
    let ?pc = "if as = [] then 1 else 0 :: int"
    have rq: "q = closing (ps s) p 1 ?pc" "destroyer_after r = (if as = [] then D_closed else D_waiting)"
      using destroy_ok [OF rep op] destroy_starts(3) by (auto split: if_splits)
    have "tinv_at n M s' (p\<lparr>queue_close := 1, pool_close := ?pc\<rparr>) as"
      unfolding destroy_starts(1) rq
      by (rule tinv_dest [OF I]) (use closing_ok [OF rep] op M in simp_all)
    then show ?thesis by (rule tinvI) (use destroy_starts rq in simp)
  next
    case destroy_wakes
    have "tinv_at n M s' p as" using I unfolding destroy_wakes(1)
      by (simp add: tinv_parts) (use destroy_wakes(2) in auto)
    then show ?thesis by (rule tinvI) (use destroy_wakes in simp)
  next
    case (destroy_retries r q)
    then have op: "queue_close p \<noteq> 0" "pool_close p = 0" using qc pc by auto
    let ?p = "if as = [] then p\<lparr>pool_close := 1\<rparr> else p"
    have rq: "q = (if as = [] then closing (ps s) p (queue_close p) 1 else ps s)"
      "destroyer_after r = (if as = [] then D_closed else D_waiting)"
      using destroy_woken_ok [OF rep op(2)] destroy_retries(3) by (auto split: if_splits)
    have "tinv_at n M s' ?p as"
      unfolding destroy_retries(1) rq
      by (rule tinv_dest [OF I]) (use closing_ok [OF rep, of "queue_close p" 1] rep op M in \<open>cases "as = []"; simp add: mx\<close>)+
    then show ?thesis by (rule tinvI) (use destroy_retries rq in simp)
  next
    case destroy_broadcasts
    have cl': "pool_close p \<noteq> 0" using pc destroy_broadcasts(2) by simp
    have w: "wake_worker x = W_running b \<longleftrightarrow> x = W_running b" "wake_worker x = W_exited \<longleftrightarrow> x = W_exited"
      "wake_worker x \<noteq> W_waiting" "wake_producer y \<noteq> P_waiting cb a" for x b y cb a
      by (cases x; simp)+ (cases y; simp)
    have "tinv_at n M s' p as" using I cl' unfolding destroy_broadcasts(1) tinv_at_def jobs_owned_def
      by (simp add: w) (use destroy_broadcasts(2) in auto)
    then show ?thesis by (rule tinvI) (use destroy_broadcasts in simp)
  next
    case (destroy_frees q)
    then have cl': "pool_close p \<noteq> 0" using pc by simp
    then have as: "as = []" using cl by simp
    have "thread_num p = int n" "pthreads (ps s) = Some (replicate n True)" using I by (simp_all add: tinv_at_def)
    from destroy_free_ok [OF rep [unfolded as] this] destroy_frees(4) have
      q: "pool q = None" "pthreads q = None" "jobs q = jobs (ps s)" by auto
    have "jobs (ps s) b = None" for b using I destroy_frees(3) as unfolding tinv_at_def jobs_owned_def by auto
    moreover have "prods s t \<noteq> P_waiting cb a" for t cb a using I cl' by (auto simp: tinv_at_def)
    ultimately show ?thesis using I as q destroy_frees unfolding tinv_at_def by (auto simp: tinv_def)
  qed
qed

interpretation pool_steps: invariant_steps "tstep n" "\<lambda>s. 0 < M \<and> tinv n M s" for n M
proof
  show "tstep n s s' \<Longrightarrow> 0 < M \<and> tinv n M s \<Longrightarrow> 0 < M \<and> tinv n M s'" for s s'
    using tinv_step tinv_step_done by blast
qed

lemma reachable_tinv:
  assumes "treachable n M out_of_mem s" and "0 < M" and "M \<le> INT_MAX"
  shows "tinv n M s"
  using pool_steps.inv_steps tinv_init [OF assms(2,3)] assms(1,2) unfolding treachable_def by blast

subsection \<open>Consequences for every reachable state\<close>

lemma reachable_at:
  assumes "treachable n M out_of_mem s" and "0 < M" and "M \<le> INT_MAX" and "dest s \<noteq> D_done"
  obtains p as where "tinv_at n M s p as" "pool_rep (ps s) p as" "pool_list (ps s) = map (job_of (ps s)) as"
proof -
  from reachable_tinv [OF assms(1-3)] assms(4) obtain p as where "tinv_at n M s p as"
    by (auto simp: tinv_def)
  moreover from this have "pool_rep (ps s) p as" by (simp add: tinv_at_def)
  ultimately show ?thesis using that pool_rep_list by blast
qed

lemma add_job_total:
  assumes r: "pool_rep s p as"
  shows "\<exists>r q. threadpool_add_job cb a s = Inr (r, q)"
proof (cases "queue_close p \<noteq> 0 \<or> pool_close p \<noteq> 0")
  case True
  from add_job_refuses(2) [OF r this] show ?thesis by blast
next
  case False
  then have op: "queue_close p = 0" "pool_close p = 0" by simp_all
  have "int (length as) \<le> queue_max_num p" using r by (simp add: pool_rep_def)
  then consider "int (length as) = queue_max_num p" | "int (length as) < queue_max_num p" "joom s (jalloc s)"
    | "int (length as) < queue_max_num p" "\<not> joom s (jalloc s)" unfolding le_less by blast
  then show ?thesis
    by cases (use add_job_refuses(1,3) [OF r _ op] add_job_ok(1) [OF r _ op] in blast)+
qed

lemma take_job_total:
  assumes "pool_rep s p as" and "pool_close p \<noteq> 0 \<longrightarrow> as = []"
  shows "\<exists>r q. threadpool_function s = Inr (r, q)"
proof (cases "pool_close p = 0")
  case True
  then show ?thesis using take_job_waits [of s p] take_job_ok(1) [of s p] assms(1) by (cases as) auto
next
  case False
  then show ?thesis using take_job_exits [OF assms(1)] by simp
qed

text \<open>C26: no job is lost, duplicated or reordered, and the queue is bounded: as long as the
  pool exists, the jobs accepted so far are those started, in the same order, followed by
  those queued, of which there are at most \<open>queue_max_num\<close>.\<close>

theorem pool_jobs_fifo:
  assumes "treachable n M out_of_mem s" and "0 < M" and "M \<le> INT_MAX" and "dest s \<noteq> D_done"
  shows "accepted s = started s @ pool_list (ps s) \<and> int (length (pool_list (ps s))) \<le> M"
proof -
  obtain p as where "tinv_at n M s p as" "pool_rep (ps s) p as" "pool_list (ps s) = map (job_of (ps s)) as"
    by (rule reachable_at [OF assms])
  then show ?thesis by (auto simp: tinv_at_def pool_rep_def)
qed

text \<open>C28: as long as the pool exists, no critical section of any thread goes wrong, those of
  \<open>threadpool_destroy\<close> included: no freed or missing job is touched, nothing is freed twice, no
  counter overflows, no thread locks a mutex it holds, and what the destruction joins, destroys
  and frees is there.\<close>

theorem pool_never_goes_wrong:
  assumes "treachable n M out_of_mem s" and "0 < M" and "M \<le> INT_MAX" and "dest s \<noteq> D_done"
  shows "(\<exists>r q. threadpool_add_job cb a (ps s) = Inr (r, q)) \<and>
     (\<exists>r q. threadpool_function (ps s) = Inr (r, q)) \<and>
     (\<forall>i < n. \<forall>b. works s i = W_running b \<longrightarrow> (\<exists>x q. run_job b (ps s) = Inr (x, q))) \<and>
     (\<exists>r q. threadpool_destroy (ps s) = Inr (r, q)) \<and>
     (dest s = D_woken \<longrightarrow> (\<exists>r q. destroy_woken (ps s) = Inr (r, q))) \<and>
     (dest s = D_joining \<longrightarrow> (\<exists>q. destroy_free (ps s) = Inr q))"
proof (intro conjI allI impI)
  obtain p as where I: "tinv_at n M s p as" "pool_rep (ps s) p as"
    by (rule reachable_at [OF assms])
  then have cl: "pool_close p \<noteq> 0 \<longrightarrow> as = []" by (simp add: tinv_at_def)
  show "\<exists>r q. threadpool_add_job cb a (ps s) = Inr (r, q)" by (rule add_job_total [OF I(2)])
  show "\<exists>r q. threadpool_function (ps s) = Inr (r, q)" by (rule take_job_total [OF I(2) cl])
  show "\<exists>x q. run_job b (ps s) = Inr (x, q)" if "i < n" "works s i = W_running b" for i b
  proof -
    from that I(1) have b: "b \<notin> set as" "b \<noteq> 0" "jobs (ps s) b \<noteq> None"
      by (auto simp: tinv_at_def jobs_owned_def)
    then obtain j where "jobs (ps s) b = Some j" by auto
    from run_job_ok(1) [OF I(2) b(1,2) this] show ?thesis by blast
  qed
  show "\<exists>r q. threadpool_destroy (ps s) = Inr (r, q)" by (rule destroy_total [OF I(2)])
  show "\<exists>r q. destroy_woken (ps s) = Inr (r, q)" if "dest s = D_woken"
    using that I destroy_woken_ok [OF I(2)] by (auto simp: tinv_at_def)
  show "\<exists>q. destroy_free (ps s) = Inr q" if "dest s = D_joining"
  proof -
    from that I(1) have "as = []" "thread_num p = int n" "pthreads (ps s) = Some (replicate n True)"
      by (auto simp: tinv_at_def)
    then show ?thesis using destroy_free_ok [of "ps s" p] I(2) by auto
  qed
qed

text \<open>C27: no wakeup is lost.  While the pool is open and there is a queued job or a producer
  waiting for room, every worker is awake: it runs a job, or it can take one at once.\<close>

theorem pool_no_lost_wakeup:
  assumes "treachable n M out_of_mem s" and "0 < M" and "M \<le> INT_MAX"
    and "dest s \<notin> {D_closed, D_joining, D_done}"
    and "pool_list (ps s) \<noteq> [] \<or> (\<exists>t cb a. prods s t = P_waiting cb a)" and "i < n"
  shows "(\<exists>b. works s i = W_running b) \<or>
     works s i = W_ready \<and> (\<exists>b s'. tstep n s s' \<and> works s' i = W_running b)"
proof -
  from assms(4) have "dest s \<noteq> D_done" by simp
  then obtain p as where I: "tinv_at n M s p as" "pool_rep (ps s) p as" "pool_list (ps s) = map (job_of (ps s)) as"
    by (rule reachable_at [OF assms(1-3)])
  from I(1) assms(4) have op: "pool_close p = 0" by (auto simp: tinv_at_def)
  have ne: "as \<noteq> []"
    using assms(5) I(1,3) assms(2) by (auto simp: tinv_at_def)
  then obtain b bs where as: "as = b # bs" by (cases as) auto
  show ?thesis
  proof (cases "works s i")
    case W_ready
    from tstep.worker_takes [OF assms(6) W_ready take_job_ok(1) [OF I(2) [unfolded as] op]]
    show ?thesis using W_ready by fastforce
  next
    case W_waiting
    then show ?thesis using I(1) assms(6) ne by (auto simp: tinv_at_def)
  next
    case W_exited
    then show ?thesis using I(1) assms(6) op by (auto simp: tinv_at_def)
  qed simp
qed

text \<open>C29: when \<open>threadpool_destroy\<close> has returned, every accepted job has been started, every
  worker has ended, and no job, no pool and no array of threads is left on the heap.\<close>

theorem pool_destroy_complete:
  assumes "treachable n M out_of_mem s" and "0 < M" and "M \<le> INT_MAX" and "dest s = D_done"
  shows "accepted s = started s \<and> (\<forall>i < n. works s i = W_exited) \<and>
     jobs (ps s) = (\<lambda>_. None) \<and> pool (ps s) = None \<and> pthreads (ps s) = None"
  using reachable_tinv [OF assms(1-3)] assms(4) by (simp add: tinv_def)

subsection \<open>A producer that outlives the pool\<close>

definition mk_pool :: "int \<Rightarrow> int \<Rightarrow> addr \<Rightarrow> int \<Rightarrow> (addr \<Rightarrow> job option) \<Rightarrow> nat \<Rightarrow> pstate" where
  "mk_pool qc pc h cur J k =
     \<lparr>pool = Some \<lparr>thread_num = 1, queue_max_num = 1, jhead = h, jtail = h, pmutex = Unlocked, conds = [True, True, True],
        queue_cur_num = cur, queue_close = qc, pool_close = pc\<rparr>,
      pthreads = Some [True], jobs = J, jalloc = k, joom = (\<lambda>_. False)\<rparr>"

definition mk_sys ::
    "pstate \<Rightarrow> producer \<Rightarrow> producer \<Rightarrow> worker \<Rightarrow> destroyer \<Rightarrow> (nat \<times> nat) list \<Rightarrow> (nat \<times> nat) list \<Rightarrow> tsys" where
  "mk_sys q p0 p1 w d acc st =
     \<lparr>ps = q, prods = (\<lambda>_. P_idle)(0 := p0, 1 := p1), works = (\<lambda>_. W_ready)(0 := w), dest = d,
      accepted = acc, started = st\<rparr>"

lemmas race_eval = mk_pool_def threadpool_add_job_def threadpool_function_def threadpool_destroy_def
  destroy_woken_def destroy_drain_def enqueue_job_def dequeue_job_def run_job_def free_job_def
  destroy_free_def join_threads_def cond_destroy_def free_pthreads_def pool_eval lock_pool_def unlock_pool_def int_inc_def INT_MAX_def Let_def

definition one_job :: "addr \<Rightarrow> job option" where
  "one_job = [1 \<mapsto> \<lparr>callback_function = 7, arg = 0, jnext = 0\<rparr>]"

lemma race_sections:
  shows "threadpool_add_job 7 0 (mk_pool 0 0 0 0 (\<lambda>_. None) 0) = Inr (Add_ret 0 True, mk_pool 0 0 1 1 one_job 1)"
    and "threadpool_add_job 8 0 (mk_pool 0 0 1 1 one_job 1) = Inr (Add_wait, mk_pool 0 0 1 1 one_job 1)"
    and "threadpool_destroy (mk_pool 0 0 1 1 one_job 1) = Inr (Destroy_wait, mk_pool 1 0 1 1 one_job 1)"
    and "threadpool_function (mk_pool 1 0 1 1 one_job 1) = Inr (Take_job 1 True True, mk_pool 1 0 0 0 one_job 1)"
    and "destroy_woken (mk_pool 1 0 0 0 one_job 1) = Inr (Destroy_closed, mk_pool 1 1 0 0 one_job 1)"
    and "run_job 1 (mk_pool 1 1 0 0 one_job 1) = Inr ((7, 0), mk_pool 1 1 0 0 (\<lambda>_. None) 1)"
    and "threadpool_function (mk_pool 1 1 0 0 (\<lambda>_. None) 1) = Inr (Take_exit, mk_pool 1 1 0 0 (\<lambda>_. None) 1)"
    and "destroy_free (mk_pool 1 1 0 0 (\<lambda>_. None) 1) =
           Inr \<lparr>pool = None, pthreads = None, jobs = (\<lambda>_. None), jalloc = 1, joom = (\<lambda>_. False)\<rparr>"
    and "job_of (mk_pool 1 0 1 1 one_job 1) 1 = (7, 0)"
  by (simp_all add: race_eval one_job_def job_of_def)

lemma mk_sys_upd:
  "(mk_sys q p0 p1 w d acc st)\<lparr>prods := (prods (mk_sys q p0 p1 w d acc st))(0 := x)\<rparr> = mk_sys q x p1 w d acc st"
  "(mk_sys q p0 p1 w d acc st)\<lparr>prods := (prods (mk_sys q p0 p1 w d acc st))(1 := x)\<rparr> = mk_sys q p0 x w d acc st"
  "prods (mk_sys q p0 p1 w d acc st) 0 = p0" "prods (mk_sys q p0 p1 w d acc st) 1 = p1"
  "works (mk_sys q p0 p1 w d acc st) 0 = w" "dest (mk_sys q p0 p1 w d acc st) = d"
  "ps (mk_sys q p0 p1 w d acc st) = q"
  by (auto simp: mk_sys_def fun_eq_iff)

lemma wake_fun: "wake_worker \<circ> (\<lambda>_. W_ready)(0 := w) = (\<lambda>_. W_ready)(0 := wake_worker w)"
  "wake_producer \<circ> (\<lambda>_. P_idle)(0 := x, Suc 0 := y) = (\<lambda>_. P_idle)(0 := wake_producer x, Suc 0 := wake_producer y)"
  "(\<lambda>_. P_idle)(Suc 0 := y, 0 := x) = (\<lambda>_. P_idle)(0 := x, Suc 0 := y)"
  by (auto simp: fun_eq_iff)

text \<open>The run: producer 1 waits in a full pool of one worker; then the pool is destroyed.\<close>

definition full_pool :: tsys where
  "full_pool = mk_sys (mk_pool 0 0 1 1 one_job 1) P_idle (P_waiting 8 0) W_ready D_none [(7, 0)] []"

lemma race_full: "treachable 1 1 (\<lambda>_. False) full_pool"
proof -
  let ?J = one_job
  let ?N = "\<lambda>_. None" and ?A = "[(7, 0)] :: (nat \<times> nat) list"
  note R = race_sections
  note U = mk_sys_def wake_fun wake_destroyer_def R(9) [simplified]
  have s0: "fresh_pool 1 1 (\<lambda>_. False) = mk_sys (mk_pool 0 0 0 0 ?N 0) P_idle P_idle W_ready D_none [] []"
    by (auto simp: fresh_pool_def new_pool_def init_state_def threadpool_init_def mk_sys_def mk_pool_def fun_eq_iff)
  let ?S = "\<lambda>x y. tstep 1 x y"
  have "?S (mk_sys (mk_pool 0 0 0 0 ?N 0) P_idle P_idle W_ready D_none [] [])
           (mk_sys (mk_pool 0 0 0 0 ?N 0) (P_calling 7 0) P_idle W_ready D_none [] [])"
    using tstep.call [where t = 0 and s = "mk_sys (mk_pool 0 0 0 0 ?N 0) P_idle P_idle W_ready D_none [] []"]
    unfolding mk_sys_upd by blast
  moreover have "?S (mk_sys (mk_pool 0 0 0 0 ?N 0) (P_calling 7 0) P_idle W_ready D_none [] [])
           (mk_sys (mk_pool 0 0 1 1 ?J 1) P_idle P_idle W_ready D_none ?A [])"
    using tstep.add_returns [where n = 1 and t = 0 and cb = 7 and a = 0 and r = 0 and woke = True and
        s = "mk_sys (mk_pool 0 0 0 0 ?N 0) (P_calling 7 0) P_idle W_ready D_none [] []"] R(1)
    by (simp add: U)
  moreover have "?S (mk_sys (mk_pool 0 0 1 1 ?J 1) P_idle P_idle W_ready D_none ?A [])
           (mk_sys (mk_pool 0 0 1 1 ?J 1) P_idle (P_calling 8 0) W_ready D_none ?A [])"
    using tstep.call [where t = 1 and s = "mk_sys (mk_pool 0 0 1 1 ?J 1) P_idle P_idle W_ready D_none ?A []"]
    unfolding mk_sys_upd by blast
  moreover have "?S (mk_sys (mk_pool 0 0 1 1 ?J 1) P_idle (P_calling 8 0) W_ready D_none ?A [])
           (mk_sys (mk_pool 0 0 1 1 ?J 1) P_idle (P_waiting 8 0) W_ready D_none ?A [])"
    using tstep.add_waits [where n = 1 and t = 1 and cb = 8 and a = 0 and
        s = "mk_sys (mk_pool 0 0 1 1 ?J 1) P_idle (P_calling 8 0) W_ready D_none ?A []"] R(2)
    by (simp add: U)
  ultimately show ?thesis unfolding treachable_def s0 full_pool_def
    by (meson rtranclp.rtrancl_into_rtrancl rtranclp.rtrancl_refl)
qed

lemma race_run:
  "treachable 1 1 (\<lambda>_. False)
     (mk_sys \<lparr>pool = None, pthreads = None, jobs = (\<lambda>_. None), jalloc = 1, joom = (\<lambda>_. False)\<rparr>
        P_idle (P_calling 8 0) W_exited D_done [(7, 0)] [(7, 0)])"
proof -
  let ?J = one_job
  let ?N = "\<lambda>_. None" and ?A = "[(7, 0)] :: (nat \<times> nat) list"
  note R = race_sections
  note U = mk_sys_def wake_fun wake_destroyer_def R(9) [simplified]
  let ?S = "\<lambda>x y. tstep 1 x y"
  have "?S (mk_sys (mk_pool 0 0 1 1 ?J 1) P_idle (P_waiting 8 0) W_ready D_none ?A [])
           (mk_sys (mk_pool 1 0 1 1 ?J 1) P_idle (P_waiting 8 0) W_ready D_waiting ?A [])"
    using tstep.destroy_starts [where n = 1 and r = Destroy_wait and
        s = "mk_sys (mk_pool 0 0 1 1 ?J 1) P_idle (P_waiting 8 0) W_ready D_none ?A []"] R(3)
    by (simp add: U)
  moreover have "?S (mk_sys (mk_pool 1 0 1 1 ?J 1) P_idle (P_waiting 8 0) W_ready D_waiting ?A [])
           (mk_sys (mk_pool 1 0 0 0 ?J 1) P_idle (P_calling 8 0) (W_running 1) D_woken ?A ?A)"
    using tstep.worker_takes [where n = 1 and i = 0 and b = 1 and emptied = True and unfull = True and
        s = "mk_sys (mk_pool 1 0 1 1 ?J 1) P_idle (P_waiting 8 0) W_ready D_waiting ?A []"] R(4)
    by (simp add: U)
  moreover have "?S (mk_sys (mk_pool 1 0 0 0 ?J 1) P_idle (P_calling 8 0) (W_running 1) D_woken ?A ?A)
           (mk_sys (mk_pool 1 1 0 0 ?J 1) P_idle (P_calling 8 0) (W_running 1) D_closed ?A ?A)"
    using tstep.destroy_retries [where n = 1 and r = Destroy_closed and
        s = "mk_sys (mk_pool 1 0 0 0 ?J 1) P_idle (P_calling 8 0) (W_running 1) D_woken ?A ?A"] R(5)
    by (simp add: U)
  moreover have "?S (mk_sys (mk_pool 1 1 0 0 ?J 1) P_idle (P_calling 8 0) (W_running 1) D_closed ?A ?A)
           (mk_sys (mk_pool 1 1 0 0 ?J 1) P_idle (P_calling 8 0) (W_running 1) D_joining ?A ?A)"
    using tstep.destroy_broadcasts [where n = 1 and
        s = "mk_sys (mk_pool 1 1 0 0 ?J 1) P_idle (P_calling 8 0) (W_running 1) D_closed ?A ?A"]
    by (simp add: U)
  moreover have "?S (mk_sys (mk_pool 1 1 0 0 ?J 1) P_idle (P_calling 8 0) (W_running 1) D_joining ?A ?A)
           (mk_sys (mk_pool 1 1 0 0 ?N 1) P_idle (P_calling 8 0) W_ready D_joining ?A ?A)"
    using tstep.worker_finishes [where n = 1 and i = 0 and b = 1 and
        s = "mk_sys (mk_pool 1 1 0 0 ?J 1) P_idle (P_calling 8 0) (W_running 1) D_joining ?A ?A"] R(6)
    by (simp add: U)
  moreover have "?S (mk_sys (mk_pool 1 1 0 0 ?N 1) P_idle (P_calling 8 0) W_ready D_joining ?A ?A)
           (mk_sys (mk_pool 1 1 0 0 ?N 1) P_idle (P_calling 8 0) W_exited D_joining ?A ?A)"
    using tstep.worker_exits [where n = 1 and i = 0 and
        s = "mk_sys (mk_pool 1 1 0 0 ?N 1) P_idle (P_calling 8 0) W_ready D_joining ?A ?A"] R(7)
    by (simp add: U)
  moreover have "?S (mk_sys (mk_pool 1 1 0 0 ?N 1) P_idle (P_calling 8 0) W_exited D_joining ?A ?A)
           (mk_sys \<lparr>pool = None, pthreads = None, jobs = ?N, jalloc = 1, joom = (\<lambda>_. False)\<rparr>
              P_idle (P_calling 8 0) W_exited D_done ?A ?A)"
    using tstep.destroy_frees [where n = 1 and
        s = "mk_sys (mk_pool 1 1 0 0 ?N 1) P_idle (P_calling 8 0) W_exited D_joining ?A ?A"] R(8)
    by (simp add: U)
  ultimately show ?thesis using race_full unfolding treachable_def full_pool_def
    by (meson rtranclp.rtrancl_into_rtrancl rtranclp.rtrancl_refl)
qed

text \<open>C30: \<open>threadpool_destroy\<close> waits for the workers but not for the producers.  A producer that
  waits in \<open>threadpool_add_job\<close> can be woken, and take the mutex again only after the pool
  has been freed.\<close>

theorem producer_uses_freed_pool:
  "\<exists>s t cb a. treachable 1 1 (\<lambda>_. False) s \<and> prods s t = P_calling cb a \<and>
     threadpool_add_job cb a (ps s) = Inl Bad_pointer"
  using race_run freed_pool(1) mk_sys_upd(4,7) by (metis pstate.select_convs(1))


subsection \<open>The properties at concrete states\<close>

lemma pool_jobs_fifo_witness:
  "accepted full_pool = started full_pool @ pool_list (ps full_pool) \<and>
   int (length (pool_list (ps full_pool))) \<le> 1"
  by (rule pool_jobs_fifo [OF race_full]) (simp_all add: full_pool_def mk_sys_def INT_MAX_def)

lemma pool_never_goes_wrong_witness:
  "(\<exists>r q. threadpool_function (ps full_pool) = Inr (r, q)) \<and> (\<exists>r q. threadpool_destroy (ps full_pool) = Inr (r, q))"
  using pool_never_goes_wrong [OF race_full] by (simp add: full_pool_def mk_sys_def INT_MAX_def)

lemma pool_no_lost_wakeup_witness:
  "\<exists>b s'. tstep 1 full_pool s' \<and> works s' 0 = W_running b"
proof -
  have "works full_pool 0 = W_ready" "dest full_pool = D_none" "prods full_pool 1 = P_waiting 8 0"
    by (simp_all add: full_pool_def mk_sys_def)
  with pool_no_lost_wakeup [OF race_full, of 0] show ?thesis by (simp add: INT_MAX_def) blast
qed

lemma pool_destroy_complete_witness:
  "\<exists>s. treachable 1 1 (\<lambda>_. False) s \<and> dest s = D_done \<and> accepted s = started s \<and> jobs (ps s) = (\<lambda>_. None) \<and>
     pthreads (ps s) = None"
proof -
  let ?s = "mk_sys \<lparr>pool = None, pthreads = None, jobs = (\<lambda>_. None), jalloc = 1, joom = (\<lambda>_. False)\<rparr>
        P_idle (P_calling 8 0) W_exited D_done [(7, 0)] [(7, 0)]"
  have d: "dest ?s = D_done" by (simp add: mk_sys_def)
  have "(0 :: int) < 1" "1 \<le> INT_MAX" by (simp_all add: INT_MAX_def)
  from pool_destroy_complete [OF race_run this d] race_run d show ?thesis by blast
qed

end
