(* ===== verification/Dueros_Handle.thy ===== *)
theory Dueros_Handle
  imports C_Text
begin

text \<open>
  \<^verbatim>\<open>dueros_handle.c\<close>: the frames sent to the DuerOS process.  A frame is the type as an
  \<open>int\<close>, then the fields, separated by a backquote and ended by a newline.  The optional
  arguments are a list, the byte order of the machine and the outcomes of \<open>malloc\<close> and
  \<open>calloc\<close> are arguments.  A string is the list of its characters without the terminating NUL.
\<close>

subsection \<open>Bytes of an \<open>int\<close>\<close>

definition int_bytes :: "bool \<Rightarrow> int \<Rightarrow> char list" where
  \<comment> \<open>the object representation of a 32-bit \<open>int\<close>; the flag is for big-endian machines\<close>
  "int_bytes big n =
     (let bs = map (\<lambda>k. char_of (n div 2 ^ (8 * k))) [0, 1, 2, 3 :: nat]
      in if big then rev bs else bs)"

definition bytes_int :: "bool \<Rightarrow> char list \<Rightarrow> int" where
  "bytes_int big bs =
     (let u = foldr (\<lambda>c v. of_char c + 256 * v) (if big then rev bs else bs) 0
      in if u < 2 ^ 31 then u else u - 2 ^ 32)"

subsection \<open>Operations\<close>

definition BUTTON :: int where "BUTTON = 0"
definition URL :: int where "URL = 1"
definition DIRECT_URL_BUFSIZE :: nat where "DIRECT_URL_BUFSIZE = 1024"
definition DIRECT_BUTTON_BUFSIZE :: nat where "DIRECT_BUTTON_BUFSIZE = 64"
definition DELIMITER :: char where "DELIMITER = CHR ''`''"
definition TERMINATOR :: char where "TERMINATOR = CHR 0x0A"

record BUF_INF =
  bi_buf :: "char list"
  bi_len :: nat

definition put_at :: "char list \<Rightarrow> nat \<Rightarrow> char list \<Rightarrow> char list res" where
  \<comment> \<open>\<open>memcpy(&dest[i], bs, ..)\<close>, or \<open>dest[i] = c\<close> for one byte\<close>
  "put_at dest i bs =
     (if i + length bs \<le> length dest then Inr (take i dest @ bs @ drop (i + length bs) dest)
      else Inl Out_of_bounds)"

fun button_args :: "bool \<Rightarrow> nat \<Rightarrow> int list \<Rightarrow> char list \<Rightarrow> nat \<Rightarrow> (char list \<times> nat) res" where
  \<comment> \<open>the loop over the optional arguments; the first argument is the number of rounds left\<close>
  "button_args big 0 args dest i = Inr (dest, i)"
| "button_args big (Suc k) [] dest i = Inl Bad_vararg"
| "button_args big (Suc k) (para # args) dest i =
     bind_ok (put_at dest i (int_bytes big para)) (\<lambda>d1.
     bind_ok (put_at d1 (i + 4) [DELIMITER]) (\<lambda>d2.
       button_args big k args d2 (i + 5)))"

definition format_duer_button_data ::
    "bool \<Rightarrow> bool \<Rightarrow> bool \<Rightarrow> int \<Rightarrow> int \<Rightarrow> int list \<Rightarrow> BUF_INF option res" where
  "format_duer_button_data big malloc_ok calloc_ok nargs src args =
     (if \<not> malloc_ok then Inr None
      else
        bind_ok (put_at (replicate DIRECT_BUTTON_BUFSIZE NUL) 0 (int_bytes big BUTTON)) (\<lambda>d1.
        bind_ok (put_at d1 4 [DELIMITER]) (\<lambda>d2.
        bind_ok (put_at d2 5 (int_bytes big src)) (\<lambda>d3.
        bind_ok (put_at d3 9 [DELIMITER]) (\<lambda>d4.
        bind_ok (button_args big (nat (nargs - 1)) args d4 10) (\<lambda>(d5, i).
        bind_ok (put_at d5 (i - 1) [TERMINATOR]) (\<lambda>dest.
          if calloc_ok then Inr (Some \<lparr>bi_buf = dest, bi_len = i\<rparr>) else Inr None)))))))"

definition vsprintf_at :: "char list \<Rightarrow> nat \<Rightarrow> string \<Rightarrow> char list res" where
  \<comment> \<open>\<open>vsprintf(&dest[i], fmt, args)\<close>; only a format without conversions has a meaning here\<close>
  "vsprintf_at dest i fmt =
     (if CHR ''%'' \<in> set fmt then Inl Format_directive else put_at dest i (fmt @ [NUL]))"

fun string_args :: "nat \<Rightarrow> string list \<Rightarrow> char list \<Rightarrow> nat \<Rightarrow> (char list \<times> nat) res" where
  "string_args 0 args dest i = Inr (dest, i)"
| "string_args (Suc k) [] dest i = Inl Bad_vararg"
| "string_args (Suc k) (para # args) dest i =
     bind_ok (vsprintf_at dest i para) (\<lambda>d1.
     bind_ok (put_at d1 (i + length para) [DELIMITER]) (\<lambda>d2.
       string_args k args d2 (i + length para + 1)))"

definition format_duer_string_data ::
    "bool \<Rightarrow> bool \<Rightarrow> bool \<Rightarrow> int \<Rightarrow> string \<Rightarrow> string list \<Rightarrow> BUF_INF option res" where
  "format_duer_string_data big malloc_ok calloc_ok nargs src args =
     (if \<not> malloc_ok then Inr None
      else
        bind_ok (put_at (replicate DIRECT_URL_BUFSIZE NUL) 0 (int_bytes big URL)) (\<lambda>d1.
        bind_ok (put_at d1 4 [DELIMITER]) (\<lambda>d2.
        bind_ok (vsprintf_at d2 5 src) (\<lambda>d3.
        bind_ok (put_at d3 (5 + length src) [DELIMITER]) (\<lambda>d4.
        bind_ok (string_args (nat (nargs - 1)) args d4 (5 + length src + 1)) (\<lambda>(d5, i).
        bind_ok (put_at d5 (i - 1) [TERMINATOR]) (\<lambda>dest.
          if calloc_ok then Inr (Some \<lparr>bi_buf = dest, bi_len = i\<rparr>) else Inl Null_deref)))))))"

definition format_duer_binary_data ::
    "bool \<Rightarrow> bool \<Rightarrow> bool \<Rightarrow> char list \<Rightarrow> 32 word \<Rightarrow> BUF_INF option res" where
  "format_duer_binary_data big malloc_ok calloc_ok bytes n =
     (if \<not> malloc_ok then Inr None
      else
        bind_ok (put_at (replicate DIRECT_URL_BUFSIZE NUL) 0 (int_bytes big URL)) (\<lambda>d1.
        bind_ok (put_at d1 4 [DELIMITER]) (\<lambda>d2.
        bind_ok (guard_ok (unat n \<le> length bytes) Out_of_bounds) (\<lambda>_.
        bind_ok (put_at d2 5 (take (unat n) bytes)) (\<lambda>d3.
        bind_ok (put_at d3 (5 + unat n) [TERMINATOR]) (\<lambda>dest.
          if calloc_ok then Inr (Some \<lparr>bi_buf = dest, bi_len = 5 + unat n + 1\<rparr>) else Inl Null_deref))))))"

subsection \<open>Frames\<close>

definition joined :: "char list list \<Rightarrow> char list" where
  \<comment> \<open>the fields, each followed by a delimiter, the last one by the terminator\<close>
  "joined fs = butlast (concat (map (\<lambda>f. f @ [DELIMITER]) fs)) @ [TERMINATOR]"

lemma length_int_bytes [simp]: "length (int_bytes big n) = 4"
  by (simp add: int_bytes_def Let_def)

lemma put_at_end:
  assumes "length bs \<le> k"
  shows "put_at (pre @ replicate k NUL) (length pre) bs = Inr ((pre @ bs) @ replicate (k - length bs) NUL)"
  using assms by (simp add: put_at_def)

lemma put_at_end':
  assumes "i = length pre"
  shows "put_at (pre @ replicate k NUL) i bs =
     (if length bs \<le> k then Inr ((pre @ bs) @ replicate (k - length bs) NUL) else Inl Out_of_bounds)"
  using assms by (auto simp: put_at_def)

lemma put_at_last:
  "put_at ((pre @ [c]) @ rest) (length pre) [d] = Inr ((pre @ [d]) @ rest)"
  by (simp add: put_at_def)

lemma button_args_ok:
  assumes "i = length pre" and "k \<le> length args"
  shows "button_args big k args (pre @ replicate r NUL) i =
     (if 5 * k \<le> r then
        Inr ((pre @ concat (map (\<lambda>a. int_bytes big a @ [DELIMITER]) (take k args))) @ replicate (r - 5 * k) NUL,
             i + 5 * k)
      else Inl Out_of_bounds)"
  using assms
proof (induction k arbitrary: args pre r i)
  case (Suc k)
  from Suc.prems(2) obtain a as where args: "args = a # as" by (cases args) auto
  show ?case
  proof (cases "5 \<le> r")
    case True
    then have "put_at (pre @ replicate r NUL) i (int_bytes big a) =
        Inr ((pre @ int_bytes big a) @ replicate (r - 4) NUL)"
      using put_at_end' [OF Suc.prems(1), of r "int_bytes big a"] by simp
    moreover have "put_at ((pre @ int_bytes big a) @ replicate (r - 4) NUL) (i + 4) [DELIMITER] =
        Inr ((pre @ int_bytes big a @ [DELIMITER]) @ replicate (r - 5) NUL)"
      using put_at_end' [of "i + 4" "pre @ int_bytes big a" "r - 4" "[DELIMITER]"] Suc.prems(1) True by simp
    moreover have "button_args big k as ((pre @ int_bytes big a @ [DELIMITER]) @ replicate (r - 5) NUL) (i + 5) =
      (if 5 * k \<le> r - 5 then
        Inr (((pre @ int_bytes big a @ [DELIMITER]) @
              concat (map (\<lambda>a. int_bytes big a @ [DELIMITER]) (take k as))) @ replicate (r - 5 - 5 * k) NUL,
             i + 5 + 5 * k)
      else Inl Out_of_bounds)"
      by (rule Suc.IH) (use Suc.prems args in simp_all)
    moreover have "5 * k \<le> r - 5 \<longleftrightarrow> 5 * Suc k \<le> r" using True by auto
    ultimately show ?thesis unfolding args by simp
  next
    case False
    then consider "r < 4" | "r = 4" by linarith
    then show ?thesis
    proof cases
      case 1
      then show ?thesis using put_at_end' [OF Suc.prems(1), of r "int_bytes big a"] args by simp
    next
      case 2
      then show ?thesis using put_at_end' [OF Suc.prems(1), of r "int_bytes big a"] args
          put_at_end' [of "i + 4" "pre @ int_bytes big a" 0 "[DELIMITER]"] Suc.prems(1) by simp
    qed
  qed
qed simp

lemma joined_append:
  "joined (fs @ [f]) = concat (map (\<lambda>f. f @ [DELIMITER]) fs) @ f @ [TERMINATOR]"
  by (simp add: joined_def butlast_append)

lemma joined_snoc:
  "fs \<noteq> [] \<Longrightarrow> \<exists>p. concat (map (\<lambda>f. f @ [DELIMITER]) fs) = p @ [DELIMITER] \<and> joined fs = p @ [TERMINATOR]"
  by (cases fs rule: rev_cases) (simp_all add: joined_append)

definition button_fields :: "bool \<Rightarrow> int \<Rightarrow> int \<Rightarrow> int list \<Rightarrow> char list list" where
  "button_fields big nargs src args =
     map (int_bytes big) (BUTTON # src # take (nat (nargs - 1)) args)"

lemma finish_frame:
  assumes "fs \<noteq> []" and "i = length (concat (map (\<lambda>f. f @ [DELIMITER]) fs))"
  shows "put_at (concat (map (\<lambda>f. f @ [DELIMITER]) fs) @ rest) (i - 1) [TERMINATOR] = Inr (joined fs @ rest)"
proof -
  from joined_snoc [OF assms(1)] obtain p where
    p: "concat (map (\<lambda>f. f @ [DELIMITER]) fs) = p @ [DELIMITER]" "joined fs = p @ [TERMINATOR]" by blast
  show ?thesis using put_at_last [of p DELIMITER rest TERMINATOR] assms(2) unfolding p by simp
qed

lemma button_length: "length (concat (map (\<lambda>f. f @ [DELIMITER]) (map (int_bytes big) xs))) = 5 * length xs"
  by (induction xs) simp_all

lemma button_ok:
  assumes "nat (nargs - 1) \<le> length args"
  shows "format_duer_button_data big True calloc_ok nargs src args =
     (if 10 + 5 * nat (nargs - 1) \<le> 64 then
        Inr (if calloc_ok then
          Some \<lparr>bi_buf = joined (button_fields big nargs src args) @ replicate (54 - 5 * nat (nargs - 1)) NUL,
                bi_len = 10 + 5 * nat (nargs - 1)\<rparr> else None)
      else Inl Out_of_bounds)"
proof -
  let ?k = "nat (nargs - 1)" and ?t = "int_bytes big BUTTON" and ?s = "int_bytes big src"
  let ?pre = "?t @ [DELIMITER] @ ?s @ [DELIMITER]"
  have 1: "put_at (replicate DIRECT_BUTTON_BUFSIZE NUL) 0 ?t = Inr (?t @ replicate 60 NUL)"
    using put_at_end [of ?t 64 "[]"] by (simp add: DIRECT_BUTTON_BUFSIZE_def)
  have 2: "put_at (?t @ replicate 60 NUL) 4 [DELIMITER] = Inr ((?t @ [DELIMITER]) @ replicate 59 NUL)"
    using put_at_end [of "[DELIMITER]" 60 ?t] by simp
  have 3: "put_at ((?t @ [DELIMITER]) @ replicate 59 NUL) 5 ?s = Inr ((?t @ [DELIMITER] @ ?s) @ replicate 55 NUL)"
    using put_at_end [of ?s 59 "?t @ [DELIMITER]"] by simp
  have 4: "put_at ((?t @ [DELIMITER] @ ?s) @ replicate 55 NUL) 9 [DELIMITER] = Inr (?pre @ replicate 54 NUL)"
    using put_at_end [of "[DELIMITER]" 55 "?t @ [DELIMITER] @ ?s"] by simp
  let ?fs = "button_fields big nargs src args"
  have fs: "?pre @ concat (map (\<lambda>a. int_bytes big a @ [DELIMITER]) (take ?k args)) =
      concat (map (\<lambda>f. f @ [DELIMITER]) ?fs)"
    by (simp add: button_fields_def comp_def)
  have 5: "button_args big ?k args (?pre @ replicate 54 NUL) 10 =
     (if 5 * ?k \<le> 54 then Inr (concat (map (\<lambda>f. f @ [DELIMITER]) ?fs) @ replicate (54 - 5 * ?k) NUL, 10 + 5 * ?k)
      else Inl Out_of_bounds)"
    using button_args_ok [of 10 ?pre ?k args big 54] assms unfolding fs [symmetric] by simp
  have "length (concat (map (\<lambda>f. f @ [DELIMITER]) ?fs)) = 10 + 5 * ?k"
    unfolding button_fields_def button_length using assms by (simp add: min_def)
  then have 6: "put_at (concat (map (\<lambda>f. f @ [DELIMITER]) ?fs) @ rest) (9 + 5 * ?k) [TERMINATOR] =
      Inr (joined ?fs @ rest)" for rest
    using finish_frame [of ?fs "10 + 5 * ?k" rest] by (simp add: button_fields_def)
  have le: "10 + 5 * ?k \<le> 64 \<longleftrightarrow> 5 * ?k \<le> 54" by arith
  show ?thesis unfolding format_duer_button_data_def le
    by (simp only: 1 2 3 4 5 bind_ok.simps if_True not_True_eq_False if_False)
      (simp add: 6 del: add_is_0)
qed

lemma bytes_int_bytes:
  assumes "- (2 ^ 31) \<le> n" and "n < 2 ^ 31"
  shows "bytes_int big (int_bytes big n) = n"
proof -
  let ?d = "\<lambda>k :: nat. (n div 2 ^ (8 * k)) mod 256"
  have "foldr (\<lambda>c v. of_char c + 256 * v) (int_bytes False n) 0 =
      ?d 0 + 256 * (?d 1 + 256 * (?d 2 + 256 * ?d 3))"
    by (simp add: int_bytes_def Let_def)
  also have "\<dots> = n mod 2 ^ 32"
  proof -
    have st: "x mod (256 * m) = x mod 256 + 256 * (x div 256 mod m)" if "0 \<le> m" for x m :: int
      using zmod_zmult2_eq [OF that, of x 256] by simp
    define a b c where abc: "a = n div 256" "b = a div 256" "c = b div 256"
    have k: "4294967296 = 256 * (16777216 :: int)" "16777216 = 256 * (65536 :: int)" "65536 = 256 * (256 :: int)"
      by simp_all
    have 1: "n mod 4294967296 = n mod 256 + 256 * (a mod 16777216)" unfolding k(1) abc by (rule st) simp
    have 2: "a mod 16777216 = a mod 256 + 256 * (b mod 65536)" unfolding k(2) abc(2) by (rule st) simp
    have 3: "b mod 65536 = b mod 256 + 256 * (c mod 256)" unfolding k(3) abc(3) by (rule st) simp
    have b: "b = n div 65536" unfolding abc(1,2) k(3) by (rule zdiv_zmult2_eq [symmetric]) simp
    have c: "c = n div 16777216" unfolding abc(3) b k(2) by (subst mult.commute) (rule zdiv_zmult2_eq [symmetric], simp)
    have p: "(2 :: int) ^ (8 * 0) = 1" "(2 :: int) ^ (8 * 1) = 256" "(2 :: int) ^ (8 * 2) = 65536"
      "(2 :: int) ^ (8 * 3) = 16777216" "(2 :: int) ^ 32 = 4294967296" by simp_all
    show ?thesis unfolding p div_by_1 1 2 3 abc(1) [symmetric] b [symmetric] c [symmetric] ..
  qed
  finally have f: "foldr (\<lambda>c v. of_char c + 256 * v) (int_bytes False n) 0 = n mod 2 ^ 32" .
  have "(if big then rev (int_bytes big n) else int_bytes big n) = int_bytes False n"
    by (simp add: int_bytes_def Let_def)
  then have "bytes_int big (int_bytes big n) = (if n mod 2 ^ 32 < 2 ^ 31 then n mod 2 ^ 32 else n mod 2 ^ 32 - 2 ^ 32)"
    using f by (simp only: bytes_int_def Let_def)
  moreover have "n mod 2 ^ 32 = (if 0 \<le> n then n else n + 2 ^ 32)"
    using assms mod_pos_pos_trivial [of "n + 2 ^ 32" "2 ^ 32"] by auto
  ultimately show ?thesis using assms by auto
qed

text \<open>
  Strings: every field but the last leaves a NUL that the next write replaces, so after the
  last field the buffer again ends in zeros.
\<close>

lemma vsprintf_field:
  assumes "CHR ''%'' \<notin> set s" and "i = length pre"
  shows "bind_ok (vsprintf_at (pre @ replicate r NUL) i s) (\<lambda>d. put_at d (i + length s) [DELIMITER]) =
     (if length s + 1 \<le> r then Inr ((pre @ s @ [DELIMITER]) @ replicate (r - (length s + 1)) NUL)
      else Inl Out_of_bounds)"
proof (cases "length s + 1 \<le> r")
  case True
  have "vsprintf_at (pre @ replicate r NUL) i s = Inr ((pre @ s @ [NUL]) @ replicate (r - (length s + 1)) NUL)"
    using put_at_end' [OF assms(2), of r "s @ [NUL]"] True assms(1) by (simp add: vsprintf_at_def)
  then show ?thesis using True assms(2)
    by (simp add: put_at_def)
next
  case False
  then show ?thesis using put_at_end' [OF assms(2), of r "s @ [NUL]"] assms(1)
    by (simp add: vsprintf_at_def)
qed

lemma string_args_ok:
  assumes "i = length pre" and "k \<le> length args" and "\<forall>s \<in> set (take k args). CHR ''%'' \<notin> set s"
  shows "string_args k args (pre @ replicate r NUL) i =
     (let fs = concat (map (\<lambda>s. s @ [DELIMITER]) (take k args)) in
      if length fs \<le> r then Inr ((pre @ fs) @ replicate (r - length fs) NUL, i + length fs)
      else Inl Out_of_bounds)"
  using assms
proof (induction k arbitrary: args pre r i)
  case 0
  then show ?case by simp
next
  case (Suc k)
  from Suc.prems(2) obtain s ss where args: "args = s # ss" by (cases args) auto
  have nf: "CHR ''%'' \<notin> set s" using Suc.prems(3) args by simp
  have step: "string_args (Suc k) args (pre @ replicate r NUL) i =
     bind_ok (bind_ok (vsprintf_at (pre @ replicate r NUL) i s) (\<lambda>d. put_at d (i + length s) [DELIMITER]))
       (\<lambda>d. string_args k ss d (i + length s + 1))"
    by (simp add: args bind_ok_assoc)
  show ?case
  proof (cases "length s + 1 \<le> r")
    case True
    let ?fs = "concat (map (\<lambda>s. s @ [DELIMITER]) (take k ss))"
    have IH: "string_args k ss ((pre @ s @ [DELIMITER]) @ replicate (r - (length s + 1)) NUL) (i + length s + 1) =
      (if length ?fs \<le> r - (length s + 1)
       then Inr (((pre @ s @ [DELIMITER]) @ ?fs) @ replicate (r - (length s + 1) - length ?fs) NUL,
                 i + length s + 1 + length ?fs)
       else Inl Out_of_bounds)"
      using Suc.IH [of "i + length s + 1" "pre @ s @ [DELIMITER]" ss "r - (length s + 1)"] Suc.prems args
      by (simp add: Let_def)
    have eq: "concat (map (\<lambda>s. s @ [DELIMITER]) (take (Suc k) args)) = (s @ [DELIMITER]) @ ?fs"
      by (simp add: args)
    have len: "length ((s @ [DELIMITER]) @ ?fs) = length s + 1 + length ?fs" by simp
    have le: "length ?fs \<le> r - (length s + 1) \<longleftrightarrow> length s + 1 + length ?fs \<le> r" using True by arith
    show ?thesis
      unfolding step vsprintf_field [OF nf Suc.prems(1)] if_P [OF True] bind_ok.simps IH Let_def eq len le
      by (simp add: add.assoc)
  next
    case False
    then show ?thesis unfolding step vsprintf_field [OF nf Suc.prems(1)]
      by (simp add: args Let_def)
  qed
qed

definition string_fields :: "bool \<Rightarrow> int \<Rightarrow> string \<Rightarrow> string list \<Rightarrow> char list list" where
  "string_fields big nargs src args = int_bytes big URL # src # take (nat (nargs - 1)) args"

lemma string_ok:
  fixes src :: string and big :: bool and nargs :: int and args :: "string list"
  assumes "nat (nargs - 1) \<le> length args"
    and "\<forall>s \<in> set (src # take (nat (nargs - 1)) args). CHR ''%'' \<notin> set s"
  defines "n \<equiv> length (joined (string_fields big nargs src args))"
  shows "format_duer_string_data big True True nargs src args =
     (if n \<le> 1024 then
        Inr (Some \<lparr>bi_buf = joined (string_fields big nargs src args) @ replicate (1024 - n) NUL, bi_len = n\<rparr>)
      else Inl Out_of_bounds)"
proof -
  let ?k = "nat (nargs - 1)" and ?t = "int_bytes big URL" and ?D = "[DELIMITER]"
  let ?fs = "string_fields big nargs src args"
  let ?as = "concat (map (\<lambda>s. s @ ?D) (take ?k args))" and ?all = "concat (map (\<lambda>s. s @ ?D) ?fs)"
  have all: "?all = (?t @ ?D @ src @ ?D) @ ?as" by (simp add: string_fields_def)
  have fs: "?fs \<noteq> []" by (simp add: string_fields_def)
  from joined_snoc [OF fs] have n: "n = length ?all" unfolding n_def by auto
  have 1: "put_at (replicate DIRECT_URL_BUFSIZE NUL) 0 ?t = Inr (?t @ replicate 1020 NUL)"
    using put_at_end [of ?t 1024 "[]"] by (simp add: DIRECT_URL_BUFSIZE_def)
  have 2: "put_at (?t @ replicate 1020 NUL) 4 ?D = Inr ((?t @ ?D) @ replicate 1019 NUL)"
    using put_at_end [of ?D 1020 ?t] by simp
  have 3: "bind_ok (vsprintf_at ((?t @ ?D) @ replicate 1019 NUL) 5 src) (\<lambda>d. put_at d (5 + length src) ?D) =
     (if length src + 1 \<le> 1019 then Inr ((?t @ ?D @ src @ ?D) @ replicate (1019 - (length src + 1)) NUL)
      else Inl Out_of_bounds)"
    using vsprintf_field [of src 5 "?t @ ?D" 1019] assms(2) by simp
  have 4: "string_args ?k args ((?t @ ?D @ src @ ?D) @ replicate (1019 - (length src + 1)) NUL) (5 + length src + 1) =
      (if length ?as \<le> 1019 - (length src + 1)
       then Inr (?all @ replicate (1019 - (length src + 1) - length ?as) NUL, 5 + length src + 1 + length ?as)
       else Inl Out_of_bounds)"
    using string_args_ok [of "5 + length src + 1" "?t @ ?D @ src @ ?D" ?k args "1019 - (length src + 1)"] assms(1,2)
    unfolding all by (simp add: Let_def)
  have nl: "n = 5 + length src + 1 + length ?as" unfolding n all by simp
  have 5: "put_at (?all @ rest) (5 + length src + 1 + length ?as - 1) [TERMINATOR] = Inr (joined ?fs @ rest)" for rest
    using finish_frame [OF fs n, of rest] unfolding nl by simp
  have "format_duer_string_data big True True nargs src args =
     bind_ok (bind_ok (vsprintf_at ((?t @ ?D) @ replicate 1019 NUL) 5 src) (\<lambda>d. put_at d (5 + length src) ?D)) (\<lambda>d4.
       bind_ok (string_args ?k args d4 (5 + length src + 1)) (\<lambda>(d5, i).
       bind_ok (put_at d5 (i - 1) [TERMINATOR]) (\<lambda>dest. Inr (Some \<lparr>bi_buf = dest, bi_len = i\<rparr>))))"
    unfolding format_duer_string_data_def 1 bind_ok.simps 2 by (simp add: bind_ok_assoc)
  also have "\<dots> = (if n \<le> 1024 then
        Inr (Some \<lparr>bi_buf = joined ?fs @ replicate (1024 - n) NUL, bi_len = n\<rparr>)
      else Inl Out_of_bounds)"
  proof (cases "length src + 1 \<le> 1019")
    case True
    have "length ?as \<le> 1019 - (length src + 1) \<longleftrightarrow> n \<le> 1024" using True unfolding nl by arith
    moreover have "1019 - (length src + 1) - length ?as = 1024 - n" unfolding nl by arith
    ultimately show ?thesis unfolding 3 if_P [OF True] bind_ok.simps 4
      using 5 by (simp add: nl [symmetric]) (simp add: nl)
  next
    case False
    then have "\<not> n \<le> 1024" unfolding nl by arith
    then show ?thesis unfolding 3 if_not_P [OF False] by simp
  qed
  finally show ?thesis .
qed

lemma binary_ok:
  assumes "unat n \<le> length bytes"
  shows "format_duer_binary_data big True True bytes n =
     (if unat n \<le> 1018 then
        Inr (Some \<lparr>bi_buf = joined [int_bytes big URL, take (unat n) bytes] @ replicate (1018 - unat n) NUL,
                   bi_len = unat n + 6\<rparr>)
      else Inl Out_of_bounds)"
proof -
  let ?t = "int_bytes big URL" and ?D = "[DELIMITER]" and ?b = "take (unat n) bytes"
  have lb: "length ?b = unat n" using assms by simp
  have 1: "put_at (replicate DIRECT_URL_BUFSIZE NUL) 0 ?t = Inr (?t @ replicate 1020 NUL)"
    using put_at_end [of ?t 1024 "[]"] by (simp add: DIRECT_URL_BUFSIZE_def)
  have 2: "put_at (?t @ replicate 1020 NUL) 4 ?D = Inr ((?t @ ?D) @ replicate 1019 NUL)"
    using put_at_end [of ?D 1020 ?t] by simp
  have 3: "put_at ((?t @ ?D) @ replicate 1019 NUL) 5 ?b =
     (if unat n \<le> 1019 then Inr ((?t @ ?D @ ?b) @ replicate (1019 - unat n) NUL) else Inl Out_of_bounds)"
    using put_at_end' [of 5 "?t @ ?D" 1019 ?b] lb by simp
  have 4: "put_at ((?t @ ?D @ ?b) @ replicate (1019 - unat n) NUL) (5 + unat n) [TERMINATOR] =
     (if 1 \<le> 1019 - unat n then Inr ((?t @ ?D @ ?b @ [TERMINATOR]) @ replicate (1018 - unat n) NUL)
      else Inl Out_of_bounds)"
    using put_at_end' [of "5 + unat n" "?t @ ?D @ ?b" "1019 - unat n" "[TERMINATOR]"] lb by simp
  have j: "joined [?t, ?b] = ?t @ ?D @ ?b @ [TERMINATOR]" by (simp add: joined_def butlast_append)
  have e: "format_duer_binary_data big True True bytes n =
     bind_ok (if unat n \<le> 1019 then Inr ((?t @ ?D @ ?b) @ replicate (1019 - unat n) NUL) else Inl Out_of_bounds)
       (\<lambda>d3. bind_ok (put_at d3 (5 + unat n) [TERMINATOR])
       (\<lambda>dest. Inr (Some \<lparr>bi_buf = dest, bi_len = 5 + unat n + 1\<rparr>)))"
    unfolding format_duer_binary_data_def
    using assms by (simp only: 1 2 bind_ok.simps if_True not_True_eq_False if_False guard_ok_True 3)
  show ?thesis
  proof (cases "unat n \<le> 1019")
    case True
    have le: "1 \<le> 1019 - unat n \<longleftrightarrow> unat n \<le> 1018" using True by arith
    show ?thesis unfolding e if_P [OF True] bind_ok.simps 4 le j by simp
  next
    case False
    then show ?thesis unfolding e by simp
  qed
qed

subsection \<open>Reading a frame back\<close>

fun split_at :: "char \<Rightarrow> char list \<Rightarrow> char list list" where
  \<comment> \<open>the pieces between the separators; there is always at least one\<close>
  "split_at d [] = [[]]"
| "split_at d (c # cs) =
     (if c = d then [] # split_at d cs
      else (case split_at d cs of [] \<Rightarrow> [[c]] | p # ps \<Rightarrow> (c # p) # ps))"

lemma split_at_ne: "split_at d cs \<noteq> []"
  by (induction cs) (auto split: list.splits)

lemma split_at_piece: "d \<notin> set f \<Longrightarrow> split_at d f = [f]"
  by (induction f) auto

lemma split_at_append: "d \<notin> set f \<Longrightarrow> split_at d (f @ d # cs) = f # split_at d cs"
  by (induction f) auto

lemma butlast_joined:
  "butlast (joined (f # fs)) = (if fs = [] then f else f @ DELIMITER # butlast (joined fs))"
  by (simp add: joined_def butlast_append concat_eq_Nil_conv)

lemma split_joined:
  assumes "fs \<noteq> []" and "\<forall>f \<in> set fs. DELIMITER \<notin> set f"
  shows "split_at DELIMITER (butlast (joined fs)) = fs"
  using assms
proof (induction fs)
  case (Cons f fs)
  then show ?case by (cases "fs = []") (simp_all add: butlast_joined split_at_piece split_at_append)
qed simp

lemma nth_block:
  fixes fs :: "char list list"
  assumes "\<forall>f \<in> set fs. length f = 5" and "k < length fs"
  shows "take 5 (drop (5 * k) (concat fs @ rest)) = fs ! k"
  using assms
proof (induction fs arbitrary: k)
  case (Cons f fs)
  then show ?case by (cases k) simp_all
qed simp

lemma nth_field:
  assumes "k < length xs"
  shows "take 4 (drop (5 * k) (joined (map (int_bytes big) xs) @ rest)) = int_bytes big (xs ! k)"
proof -
  let ?fs = "map (\<lambda>f. f @ [DELIMITER]) (map (int_bytes big) xs)"
  have xs: "map (int_bytes big) xs \<noteq> []" using assms by auto
  from joined_snoc [OF xs] obtain p where
    p: "concat ?fs = p @ [DELIMITER]" "joined (map (int_bytes big) xs) = p @ [TERMINATOR]" by blast
  have lp: "length p + 1 = 5 * length xs" using button_length [of big xs] p(1) by simp
  have k4: "5 * k + 4 \<le> length p" using lp assms by linarith
  have cut: "take 4 (drop (5 * k) (p @ y)) = take 4 (drop (5 * k) p)" for y
    using k4 by simp
  have "take 4 (drop (5 * k) (joined (map (int_bytes big) xs) @ rest)) = take 4 (drop (5 * k) (concat ?fs @ []))"
    unfolding p append_assoc cut ..
  also have "\<dots> = take 4 (take 5 (drop (5 * k) (concat ?fs @ [])))" by simp
  also have "take 5 (drop (5 * k) (concat ?fs @ [])) = ?fs ! k"
    by (rule nth_block) (use assms in auto)
  also have "take 4 (?fs ! k) = int_bytes big (xs ! k)" using assms by simp
  finally show ?thesis .
qed

subsection \<open>Properties\<close>

text \<open>C31: For a call that passes the arguments it announces, \<open>format_duer_button_data\<close>
  returns the type, the source and the arguments, each as four bytes, with a delimiter between
  them and a terminator at the end, in a zeroed buffer of 64 bytes.  The 64 bytes hold ten
  optional arguments; with an eleventh the function writes past its buffer.\<close>
theorem button_frame:
  assumes "nat (nargs - 1) \<le> length args"
  shows "format_duer_button_data big True calloc_ok nargs src args =
     (if nargs \<le> 11 then
        Inr (if calloc_ok then
          Some \<lparr>bi_buf = joined (button_fields big nargs src args) @ replicate (54 - 5 * nat (nargs - 1)) NUL,
                bi_len = 10 + 5 * nat (nargs - 1)\<rparr> else None)
      else Inl Out_of_bounds)"
proof -
  have "nargs \<le> 11 \<longleftrightarrow> 10 + 5 * nat (nargs - 1) \<le> 64" by arith
  then show ?thesis using button_ok [OF assms, of big calloc_ok src] by simp
qed

theorem button_frame_witness:
  "format_duer_button_data False True True 2 7 [258] =
     Inr (Some \<lparr>bi_buf = joined (button_fields False 2 7 [258]) @ replicate 49 NUL, bi_len = 15\<rparr>) \<and>
   format_duer_button_data False True True 12 7 (replicate 11 0) = Inl Out_of_bounds"
  using button_frame [of 2 "[258]" False True 7] button_frame [of 12 "replicate 11 0" False True 7] by simp

text \<open>Round trip: from the buffer that \<open>format_duer_button_data\<close> returns, a reader
  of the same machine gets back the type, the source and every optional argument at
  multiples of five bytes, whatever their values.\<close>
theorem button_read_back:
  assumes "nat (nargs - 1) \<le> length args"
    and "format_duer_button_data big True True nargs src args = Inr (Some b)"
    and "k < 2 + nat (nargs - 1)"
    and "\<forall>n \<in> set (src # args). - (2 ^ 31) \<le> n \<and> n < 2 ^ 31"
  shows "bytes_int big (take 4 (drop (5 * k) (bi_buf b))) = (BUTTON # src # args) ! k"
proof -
  let ?xs = "BUTTON # src # take (nat (nargs - 1)) args"
  have buf: "bi_buf b = joined (map (int_bytes big) ?xs) @ replicate (54 - 5 * nat (nargs - 1)) NUL"
    using assms(2) unfolding button_ok [OF assms(1)]
    by (auto simp: button_fields_def split: if_splits)
  have k: "k < length ?xs" using assms(1,3) by simp
  have nth: "?xs ! k = (BUTTON # src # args) ! k"
    using assms(3) by (cases k; cases "k - 1") (auto simp: nth_Cons')
  have "?xs ! k \<in> insert BUTTON (set (src # args))"
    using nth_mem [OF k] set_take_subset [of "nat (nargs - 1)" args] by auto
  then have "- (2 ^ 31) \<le> ?xs ! k \<and> ?xs ! k < 2 ^ 31"
    using assms(4) by (auto simp: BUTTON_def)
  then show ?thesis unfolding buf nth_field [OF k] nth [symmetric] by (simp only: bytes_int_bytes)
qed

theorem button_read_back_witness:
  "\<exists>b. format_duer_button_data True True True 2 7 [-258] = Inr (Some b) \<and>
     bytes_int True (take 4 (drop (5 * 2) (bi_buf b))) = -258"
proof -
  obtain b where b: "format_duer_button_data True True True 2 7 [-258] = Inr (Some b)"
    using button_ok [of 2 "[-258]" True True 7] by simp
  show ?thesis using button_read_back [OF _ b, of 2] b by simp
qed

text \<open>C32: For strings without a percent sign, \<open>format_duer_string_data\<close> returns the type
  and the strings, with a delimiter between them and a terminator at the end, in a zeroed
  buffer of 1024 bytes, exactly when they fit; and when no string contains the delimiter,
  splitting the frame at the delimiters gives the strings back.\<close>
theorem string_frame:
  fixes src :: string and big :: bool and nargs :: int and args :: "string list"
  assumes "nat (nargs - 1) \<le> length args"
    and "\<forall>s \<in> set (src # take (nat (nargs - 1)) args). CHR ''%'' \<notin> set s \<and> DELIMITER \<notin> set s"
  defines "fs \<equiv> string_fields big nargs src args"
  shows "format_duer_string_data big True True nargs src args =
     (if length (joined fs) \<le> 1024 then
        Inr (Some \<lparr>bi_buf = joined fs @ replicate (1024 - length (joined fs)) NUL, bi_len = length (joined fs)\<rparr>)
      else Inl Out_of_bounds)
   \<and> split_at DELIMITER (butlast (joined fs)) = int_bytes big URL # src # take (nat (nargs - 1)) args"
proof (rule conjI)
  show "format_duer_string_data big True True nargs src args =
     (if length (joined fs) \<le> 1024 then
        Inr (Some \<lparr>bi_buf = joined fs @ replicate (1024 - length (joined fs)) NUL, bi_len = length (joined fs)\<rparr>)
      else Inl Out_of_bounds)"
    unfolding fs_def using string_ok assms(1,2) by blast
  have "DELIMITER \<notin> set (int_bytes big URL)"
    by (simp add: int_bytes_def Let_def URL_def DELIMITER_def char_of_def)
  then have "\<forall>f \<in> set fs. DELIMITER \<notin> set f"
    using assms(2) by (simp add: fs_def string_fields_def)
  then show "split_at DELIMITER (butlast (joined fs)) = int_bytes big URL # src # take (nat (nargs - 1)) args"
    using split_joined [of fs] by (simp add: fs_def string_fields_def)
qed

theorem string_frame_witness:
  "\<exists>b. format_duer_string_data False True True 2 ''http'' [''on''] = Inr (Some b) \<and> bi_len b = 13"
  using string_frame [of 2 "[''on'']" "''http''" False]
  by (simp add: DELIMITER_def string_fields_def joined_def butlast_append)

text \<open>C33: \<open>format_duer_binary_data\<close> returns the type, a delimiter, the bytes of the caller
  and a terminator in a zeroed buffer of 1024 bytes when there are at most 1018 bytes, and
  writes past the buffer when there are more: it does not check the length it is given.\<close>
theorem binary_frame:
  assumes "unat n \<le> length bytes"
  shows "format_duer_binary_data big True True bytes n =
     (if unat n \<le> 1018 then
        Inr (Some \<lparr>bi_buf = (int_bytes big URL @ DELIMITER # take (unat n) bytes @ [TERMINATOR])
                              @ replicate (1018 - unat n) NUL,
                   bi_len = unat n + 6\<rparr>)
      else Inl Out_of_bounds)"
  using binary_ok [OF assms, of big] by (simp add: joined_def butlast_append)

theorem binary_frame_witness:
  "format_duer_binary_data False True True ''ab'' 2 =
     Inr (Some \<lparr>bi_buf = (int_bytes False URL @ DELIMITER # ''ab'' @ [TERMINATOR]) @ replicate 1016 NUL, bi_len = 8\<rparr>) \<and>
   format_duer_binary_data False True True (replicate 1019 CHR ''x'') 1019 = Inl Out_of_bounds"
  using binary_frame [of 2 "''ab''" False] binary_frame [of 1019 "replicate 1019 CHR ''x''" False]
  by simp

lemma string_result_unchecked:
  assumes "format_duer_string_data big True True nargs src args = Inr (Some b)"
  shows "format_duer_string_data big True False nargs src args = Inl Null_deref"
  using assms by (auto simp: format_duer_string_data_def split: sum.splits prod.splits)

end
