(* ===== verification/Spec2Isabelle.thy ===== *)
theory Spec2Isabelle
  imports Fifo_Graph Linklist_Test Thread_Runs Pool_Loop Message_Queue Sockets Select_Loop Report_Key Test_Mode
    Pool_Threads Dueros_Handle
begin

text \<open>
  A verification development for the serial-line daemon of this repository (the C sources are
  in \<^verbatim>\<open>src/src\<close>).

  \<^bold>\<open>The program.\<close>  The daemon connects a serial line with a named pipe.  \<open>main\<close> opens both and
  creates two message lists; \<open>epoll_start\<close> starts a thread pool of five workers and waits for
  readable descriptors.  Two workers never return: \<open>data_process\<close> takes messages out of the
  receive list and runs the command tables of \<^verbatim>\<open>uart_protocol.c\<close> on them, \<open>send_out_handler\<close>
  takes messages out of the send list and writes them.  The other workers run one receive
  handler for each event; a handler reads, makes a node, and inserts it in the receive list.
  \<open>ready_send_data\<close> is the only way into the send list.  The remaining files are a byte FIFO, the
  formatting of frames for the DuerOS process, a key report over HTTP, a broadcast in test mode,
  and a local-socket server; they share no state with the daemon.

  \<^bold>\<open>Theories.\<close>
    \<^item> \<^verbatim>\<open>Prelude\<close>: results of C code, with undefined behaviour as a value (\<open>c_error\<close>); checked
      arithmetic, arrays, mutexes; the interfaces.  \<open>queue_service\<close> is what the client of a queue
      relies on, \<open>fifo_service\<close> and \<open>bounded_queue\<close> extend it; \<open>invariant_steps\<close> and its extension
      \<open>draining_steps\<close> are what is used of a step relation.
    \<^item> \<^verbatim>\<open>C_Text\<close>, \<^verbatim>\<open>Files\<close>: what is used of the C library (strings, integer conversions, \<open>fgets\<close>), and
      the file helpers of \<^verbatim>\<open>uart_protocol.c\<close>.
    \<^item> \<^verbatim>\<open>Data_Fifo\<close>, \<^verbatim>\<open>Fifo_Graph\<close>: \<^verbatim>\<open>data_fifo.c\<close>.  The abstraction \<open>fifo_list\<close>, the invariant
      \<open>fifo_inv\<close>; \<open>bytes\<close> interprets \<open>fifo_service\<close>.
    \<^item> \<^verbatim>\<open>Linklist\<close>, \<^verbatim>\<open>Linklist_Life\<close>, \<^verbatim>\<open>Channel\<close>: \<^verbatim>\<open>linklist.c\<close> on an explicit heap (\<open>mem\<close>).  \<open>ll_rep\<close>
      says that a list is well-formed, \<open>ll_fp\<close> is its footprint, \<open>agree_on\<close> states that nothing else
      has changed; a channel is a list with the node of its consumer.
      What \<open>destory_singlelinklist\<close> prints is part of its result, and its \<open>%s\<close> of a message without
      a NUL is an error.
    \<^item> \<^verbatim>\<open>Linklist_Test\<close>: the interactive exercise \<open>test\<close> of \<^verbatim>\<open>linklist.c\<close>, with all that it prints.
    \<^item> \<^verbatim>\<open>Uart_State\<close>, \<^verbatim>\<open>Uart_Protocol\<close>, \<^verbatim>\<open>Uart_Pipeline\<close>: the global variables of \<^verbatim>\<open>uart_start.c\<close> and
      \<^verbatim>\<open>uart_protocol.c\<close> (\<open>globals\<close>), the commands, the receive handlers, and one iteration of each
      consumer.  \<^verbatim>\<open>Pipeline\<close> proves that each keeps \<open>sys_inv\<close> and says what it does to the lists.
    \<^item> \<^verbatim>\<open>Daemon\<close>: runs, as sequences of handler executions in any order, and the abstract machine
      (\<open>view\<close>, \<open>spec_step\<close>) that they refine.  \<^verbatim>\<open>Message_Queue\<close>: the receive list as a
      \<open>bounded_queue\<close>.
    \<^item> \<^verbatim>\<open>Serial_Port\<close>, \<^verbatim>\<open>Start_Up\<close>: \<open>set_opt\<close>, \<open>open_port\<close>, \<open>main\<close>, and \<open>epoll_start\<close> before its loop.
      \<^verbatim>\<open>Message_Types\<close>: runs from \<open>main\<close> on, and the shape of the messages in them; there the runs
      also have calls of \<open>ready_send_data\<close> by code that is not in the repository (\<open>act\<close>).
    \<^item> \<^verbatim>\<open>Wake_Up\<close>: test, wait and signal of the two consumers as steps (\<open>wstep\<close>).  \<^verbatim>\<open>Thread_Runs\<close>: every
      state that these reach from \<open>main\<close> is the state after a run, and what awake consumers can finish.
    \<^item> \<^verbatim>\<open>Event_Loop\<close>: the loop of \<open>epoll_start\<close> with queued and running receive jobs, which read and
      store in two steps (\<open>estep\<close>).  Each \<open>EPOLL_CTL_ADD\<close> may fail, which the code does not notice:
      \<open>add_failed\<close> records it.
    \<^item> \<^verbatim>\<open>Thread_Pool\<close>, \<^verbatim>\<open>Pool_Threads\<close>: the critical sections of \<^verbatim>\<open>thread_pool.c\<close>, and their
      interleaving by any number of producers, the workers and a destroyer (\<open>tstep\<close>);
      \<open>job_queue\<close> interprets \<open>fifo_service\<close>.
    \<^item> \<^verbatim>\<open>Pool_Loop\<close>: the loop of \<open>epoll_start\<close> and the receive jobs on the pool of \<^verbatim>\<open>Thread_Pool\<close>
      (\<open>lstep\<close>), and a simulation by \<^verbatim>\<open>Event_Loop\<close>.
    \<^item> \<^verbatim>\<open>Dueros_Handle\<close>, \<^verbatim>\<open>Report_Key\<close>, \<^verbatim>\<open>Test_Mode\<close>, \<^verbatim>\<open>Sockets\<close>, \<^verbatim>\<open>Select_Loop\<close>: \<^verbatim>\<open>dueros_handle.c\<close>,
      \<^verbatim>\<open>report_key.c\<close>, \<^verbatim>\<open>uartd_test_mode.c\<close> with its header, \<^verbatim>\<open>socket_server.c\<close> with the two functions
      that accept a client, and \<open>select_start\<close> of \<^verbatim>\<open>epoll_server.c\<close>.
    \<^item> This theory: properties of the daemon and of single handlers in a state that satisfies
      \<open>sys_inv\<close>, with a concrete run for each.

  \<^bold>\<open>What is shown.\<close>  Each operation does what its abstraction says, on every branch, errors included:
  the FIFO, the message lists and the pool are queues; the daemon is a machine of two queues and
  an output, from \<open>main\<close> on, in every order of handler executions; answers and frames can be read
  back.  For the threads: the invariants of the step relations, that their runs refine the
  abstract machines, that pending work can be finished, and the runs in which the program fails
  (a lost wake-up, two messages swapped, a serial line that is never watched again, a freed mutex
  that is locked).  Where the code goes wrong the theorem says exactly when.

  \<^bold>\<open>Bounds.\<close>  \<open>int\<close> is a mathematical integer whose overflow is an error, so counters carry
  \<open>INT_MAX\<close>: \<open>room_for n\<close> says that the two list counters can grow by \<open>n\<close>.  \<open>size_t\<close> and pointers
  have 32 bits, as for the MIPS compiler that the makefile names: the array \<open>tmp_buf\<close> of 1024 pointers has 4096 bytes.
  Every allocation may fail: \<open>oom\<close> says which requests do, \<open>mem_for n\<close> that the next \<open>n\<close> do not; one
  handler execution makes at most three requests.  The loops of \<open>fifo_put\<close>, \<open>fifo_pop\<close>, \<open>whole_read\<close>,
  \<open>destory_singlelinklist\<close> and \<open>test\<close> have termination proofs.  The loop of \<open>threadpool_destroy\<close>
  over the queued jobs has fuel, one more than the number of jobs ever allocated, which is enough as
  a chain visits a job once.  The read loop of \<open>excute_cmd\<close> need not end, so it is a
  \<open>partial_function\<close> and \<open>excute_cmd_outcome\<close> says exactly when it returns.

  \<^bold>\<open>Parameters.\<close>  The results of system calls, the outcome of each \<open>malloc\<close>, the time of day, the
  contents of files and the indeterminate bytes of uninitialised objects are arguments; so are the
  outcomes that the code ignores, of \<open>epoll_create\<close>, \<open>EPOLL_CTL_ADD\<close> and \<open>pthread_create\<close> (an argument of
  \<open>threadpool_init\<close>; in the daemon the five threads of the pool are created).  Arguments are also
  libcurl, the JSON library, \<open>cdb_get\<close>, \<open>fp_read_file\<close> and the output of a command.  That \<open>fcntl\<close> fails for
  the descriptor \<open>-1\<close>, that the flags of \<^verbatim>\<open>termios.h\<close> do not overlap, and that libcurl hands
  over an answer piece by piece are hypotheses of the theorems that use them.

  \<^bold>\<open>Not modelled.\<close>
    \<^item> The output of the logging functions (\<open>inf\<close>, \<open>err\<close>) of an external library, and with it that
      these are given buffers without a NUL for \<open>%s\<close>.
    \<^item> \<open>usleep\<close>, and real time.
    \<^item> In \<^verbatim>\<open>Daemon\<close> a handler execution is atomic.  The handlers share only the two lists, whose
      operations are critical sections; what happens between these is the subject of the step
      relations.
    \<^item> \<open>init_data_to_bt_onstart\<close>, which \<open>epoll_start\<close> gives to the pool as a third job, and
      \<open>send_to_dueros\<close> are defined nowhere in the sources; a call of the second is an output.  By the
      comment at its call the first sends data: \<^verbatim>\<open>Message_Types\<close> has its calls of
      \<open>ready_send_data\<close> as steps with any data; the other theorems on runs are of the handlers
      in the repository alone.
    \<^item> The branches under \<open>NEED_SOCK_SERVER\<close>, which is 0, in \<open>epoll_start\<close> and \<open>data_parse\<close>; the
      socket handlers that they would register are modelled.
    \<^item> \<open>get_duercfg_volume\<close>, which is between \<open>#if 0\<close> and \<open>#endif\<close>, and the logging macros of \<^verbatim>\<open>debug.h\<close>.
    \<^item> The value of a \<open>va_list\<close> after \<open>vsprintf\<close>: a conversion in a string used as a format is an error.
    \<^item> What a callback of the thread pool does: a callback and its argument are numbers there.
\<close>

section \<open>The daemon\<close>

text \<open>From a state of the running daemon, any sequence of handler executions, in any
  order, succeeds (given memory), keeps the invariant, and does to the two queues and to
  the output exactly what the abstract machine does.\<close>

theorem daemon_refines_queues:
  assumes "sys_inv g" and "list_all event_ok evs"
    and "mem_for (3 * length evs) g" and "room_for (length evs) g"
  shows "\<exists>g'. run evs g = Inr g' \<and> sys_inv g' \<and>
     view_of g' = fold (spec_step (G_uartfd g) (G_pipefd g)) evs (view_of g) \<and>
     G_uartfd g' = G_uartfd g \<and> G_pipefd g' = G_pipefd g"
  using run_sys [OF assms] by blast

text \<open>End to end.  From the start of the daemon, after any run: what has arrived is what
  has been handled followed by what is still in the receive list; the answers to what has
  been handled (each at the time of day at which it was handled) are what has been sent
  followed by what is still in the send list; and the non-empty writes are those of the
  messages sent, in order.\<close>

theorem daemon_end_to_end:
  assumes "\<forall>k < 10 + 3 * length evs. \<not> out_of_mem k" and "list_all event_ok evs"
    and "int (length evs) \<le> INT_MAX"
  shows "\<exists>g0 g handled ts sent'. boot u p out_of_mem = Inr g0 \<and> run evs g0 = Inr g \<and>
     concat (map (arrival u p) evs) = handled @ recv_msgs g \<and>
     subseq ts (clocks evs) \<and> length ts = length handled \<and>
     answers u p ts handled = sent' @ send_msgs g \<and>
     visible (outs g) = wire sent'"
proof -
  have "\<forall>k < 10. \<not> out_of_mem k" using assms(1) by simp
  from boot_sys [OF this, of u p] obtain g0 where
    g0: "boot u p out_of_mem = Inr g0" "sys_ok g0 1 [] 3 []" "outs g0 = []"
      "recv_msgs g0 = []" "send_msgs g0 = []" "G_uartfd g0 = u" "G_pipefd g0 = p"
      "nalloc (heap g0) = 10" "oom (heap g0) = out_of_mem" by blast
  have "mem_for (3 * length evs) g0" "room_for (length evs) g0"
    using g0 assms(1,3) by (simp_all add: mem_for_def room_for_def)
  from run_sys [OF sys_ok_msgs(1) [OF g0(2)] assms(2) this] obtain g where
    g: "run evs g0 = Inr g" "view_of g = fold (spec_step u p) evs (view_of g0)"
    using g0 by auto
  have v: "v_recv (view_of g0) = []" "v_send (view_of g0) = []" "v_out (view_of g0) = []"
    using g0 by (simp_all add: view_of_def visible_def)
  have w: "v_recv (view_of g) = recv_msgs g" "v_send (view_of g) = send_msgs g"
    "v_out (view_of g) = visible (outs g)" by (simp_all add: view_of_def)
  from spec_trace [of "view_of g0" u p evs, folded g(2), unfolded v w append_Nil] g0(1) g(1) show ?thesis
    by metis
qed

text \<open>C3: no message is stuck.  Enough executions of the parser followed by enough of the
  sender answer every pending message and write every answer out, in order.\<close>

theorem daemon_drains:
  assumes "sys_inv g" and "valid_tm t"
    and "length (recv_msgs g) \<le> n" and "length (recv_msgs g) + length (send_msgs g) \<le> k"
    and "mem_for (3 * (n + k)) g" and "room_for (n + k) g"
  shows "\<exists>g'. run (replicate n (Process t) @ replicate k Send) g = Inr g' \<and> sys_inv g' \<and>
     recv_msgs g' = [] \<and> send_msgs g' = [] \<and>
     visible (outs g') = visible (outs g) @
       wire (send_msgs g @ concat (map (response (G_uartfd g) (G_pipefd g) t) (recv_msgs g)))"
  by (rule drain_sys [OF assms])

text \<open>The start establishes the invariant, with both queues empty.\<close>

theorem boot_establishes_invariant:
  assumes "\<forall>k < 10. \<not> out_of_mem k"
  shows "\<exists>g. boot u p out_of_mem = Inr g \<and> sys_inv g \<and> recv_msgs g = [] \<and> send_msgs g = [] \<and>
     epoll_fds g = [u, p]"
  using boot_sys [OF assms, of u p] sys_ok_msgs(1) by blast

subsection \<open>The properties at concrete inputs\<close>

text \<open>A state of the running daemon, for the properties that start from one.\<close>

lemma noon_valid: "valid_tm noon_tm"
  by (simp add: valid_tm_def noon_tm_def)

lemma boot_state:
  obtains g where "boot 3 4 (\<lambda>_. False) = Inr g" "sys_inv g" "recv_msgs g = []" "send_msgs g = []"
    "G_uartfd g = 3" "G_pipefd g = 4" "outs g = []" "mem_for k g" "\<And>n. n < 1000 \<Longrightarrow> room_for n g"
    "oom (heap g) = (\<lambda>_. False)"
proof -
  from boot_sys [of "\<lambda>_. False" 3 4] obtain g where
    "boot 3 4 (\<lambda>_. False) = Inr g" "sys_ok g 1 [] 3 []" "recv_msgs g = []" "send_msgs g = []"
    "G_uartfd g = 3" "G_pipefd g = 4" "outs g = []" "oom (heap g) = (\<lambda>_. False)" by auto
  then show ?thesis
    by (intro that [of g]) (auto intro: sys_ok_msgs(1) simp: mem_for_def room_for_def INT_MAX_def)
qed

text \<open>The state after one message has come through the pipe.\<close>

lemma busy_state:
  obtains g0 g where "boot 3 4 (\<lambda>_. False) = Inr g0" "run [Pipe_readable (Some ''usb!'')] g0 = Inr g"
    "sys_inv g" "recv_msgs g = [\<lparr>m_bytes = ''usb!'', m_fd = 4, m_to = 0\<rparr>]" "send_msgs g = []"
    "G_uartfd g = 3" "G_pipefd g = 4" "visible (outs g) = []" "mem_for k g" "\<And>n. n < 1000 \<Longrightarrow> room_for n g"
proof -
  obtain g where g: "boot 3 4 (\<lambda>_. False) = Inr g" "sys_inv g" "recv_msgs g = []" "send_msgs g = []"
    "G_uartfd g = 3" "G_pipefd g = 4" "outs g = []" "mem_for 3 g" "\<And>n. n < 1000 \<Longrightarrow> room_for n g"
    "oom (heap g) = (\<lambda>_. False)"
    by (rule boot_state [of 3]) blast
  from run_sys [of g "[Pipe_readable (Some ''usb!'')]"] g obtain g' where
    "run [Pipe_readable (Some ''usb!'')] g = Inr g'" "sys_inv g'"
    "view_of g' = fold (spec_step 3 4) [Pipe_readable (Some ''usb!'')] (view_of g)"
    "G_uartfd g' = 3" "G_pipefd g' = 4" "oom (heap g') = (\<lambda>_. False)" by auto
  with g show ?thesis
    by (intro that [of g g'])
      (auto simp: view_of_def received_def chunk_def visible_def mem_for_def room_for_def INT_MAX_def)
qed

lemma daemon_refines_queues_witness:
  "\<exists>g g'. boot 3 4 (\<lambda>_. False) = Inr g \<and>
     run [Pipe_readable (Some ''usb''), Process noon_tm, Send] g = Inr g' \<and> sys_inv g' \<and>
     view_of g' = \<lparr>v_recv = [], v_send = [], v_out = [To_uart ''AXX+USB+OUL&'']\<rparr>"
proof -
  obtain g where g: "boot 3 4 (\<lambda>_. False) = Inr g" "sys_inv g" "recv_msgs g = []" "send_msgs g = []"
    "G_uartfd g = 3" "G_pipefd g = 4" "outs g = []" "mem_for 9 g" "\<And>n. n < 1000 \<Longrightarrow> room_for n g"
    by (rule boot_state [of 9]) blast
  let ?evs = "[Pipe_readable (Some ''usb''), Process noon_tm, Send]"
  have v: "fold (spec_step (G_uartfd g) (G_pipefd g)) ?evs (view_of g) =
      \<lparr>v_recv = [], v_send = [], v_out = [To_uart ''AXX+USB+OUL&'']\<rparr>"
    using g(3-7) by (simp add: view_of_def visible_def received_def chunk_def response_def
        starts_with_def usb_answer_def emitted_def DUER_def UART_def)
  have "list_all event_ok ?evs" "mem_for (3 * length ?evs) g" "room_for (length ?evs) g"
    using g(8,9) by (simp_all add: noon_valid)
  from daemon_refines_queues [OF g(2) this] g(1) show ?thesis
    unfolding v by metis
qed

lemma daemon_end_to_end_witness:
  "\<exists>g0 g handled ts sent'. boot 3 4 (\<lambda>_. False) = Inr g0 \<and>
     run [Pipe_readable (Some ''usb''), Pipe_readable (Some ''x''), Process noon_tm] g0 = Inr g \<and>
     [\<lparr>m_bytes = ''usb'', m_fd = 4, m_to = 0\<rparr>, \<lparr>m_bytes = ''x'', m_fd = 4, m_to = 0\<rparr>] =
       handled @ recv_msgs g \<and>
     subseq ts [noon_tm] \<and> length ts = length handled \<and>
     answers 3 4 ts handled = sent' @ send_msgs g \<and> visible (outs g) = wire sent'"
  using daemon_end_to_end [of "[Pipe_readable (Some ''usb''), Pipe_readable (Some ''x''), Process noon_tm]"
      "\<lambda>_. False" 3 4]
  by (simp add: noon_valid INT_MAX_def received_def chunk_def)

lemma daemon_drains_witness:
  "\<exists>g0 g g'. boot 3 4 (\<lambda>_. False) = Inr g0 \<and> run [Pipe_readable (Some ''usb!'')] g0 = Inr g \<and>
     run (replicate 2 (Process noon_tm) @ replicate 5 Send) g = Inr g' \<and> recv_msgs g' = [] \<and>
     visible (outs g') = [To_uart ''AXX+USB+OUL&'']"
proof -
  obtain g0 g where g: "boot 3 4 (\<lambda>_. False) = Inr g0" "run [Pipe_readable (Some ''usb!'')] g0 = Inr g"
    "sys_inv g" "recv_msgs g = [\<lparr>m_bytes = ''usb!'', m_fd = 4, m_to = 0\<rparr>]" "send_msgs g = []"
    "G_uartfd g = 3" "G_pipefd g = 4" "visible (outs g) = []" "mem_for 21 g" "\<And>n. n < 1000 \<Longrightarrow> room_for n g"
    by (rule busy_state [of 21]) blast
  have w: "wire (send_msgs g @ concat (map (response (G_uartfd g) (G_pipefd g) noon_tm) (recv_msgs g))) =
      [To_uart ''AXX+USB+OUL&'']"
    unfolding g(4-7) by (simp add: response_def starts_with_def usb_answer_def wire_def emitted_def
        visible_def DUER_def UART_def)
  have "length (recv_msgs g) \<le> 2" "length (recv_msgs g) + length (send_msgs g) \<le> 5"
    "mem_for (3 * (2 + 5)) g" "room_for (2 + 5) g" using g by simp_all
  from daemon_drains [OF g(3) noon_valid this] g(1,2,8) show ?thesis
    unfolding w by (metis append_Nil)
qed

lemma boot_establishes_invariant_witness: "\<exists>g. boot 3 4 (\<lambda>_. False) = Inr g \<and> sys_inv g"
  using boot_establishes_invariant [of "\<lambda>_. False" 3 4] by auto

section \<open>The messages\<close>

text \<open>C14: the answer to a time request: for a valid calendar time with a four-digit year, the
  handler queues one message for the serial line, from whose fixed positions the second,
  minute, hour, day, weekday, month and year can be read back.\<close>

theorem time_command_read_back:
  assumes "sys_inv g" and "valid_tm t" and "mem_for 3 g" and "room_for 1 g"
  shows "\<exists>g' bs. Process_AT_TIME_CMD t g = Inr g' \<and> sys_inv g' \<and> recv_msgs g' = recv_msgs g \<and>
     send_msgs g' = send_msgs g @ [\<lparr>m_bytes = bs, m_fd = 0, m_to = UART\<rparr>] \<and> length bs = 24 \<and>
     map (\<lambda>(pos, len). int (field pos len bs)) [(8, 2), (10, 2), (12, 2), (14, 2), (16, 1), (17, 2), (19, 4)] =
       [tm_sec t, tm_min t, tm_hour t, tm_mday t, tm_wday t, tm_mon t + 1, tm_year t + 1900]"
proof -
  obtain sr rs ss sn where ok: "sys_ok g sr rs ss sn" by (rule sys_invE [OF assms(1)])
  have "int (length sn) < INT_MAX" using assms(4) sys_ok_msgs(3) [OF ok] by (simp add: room_for_def)
  from time_cmd_sys [OF ok assms(2) mem_for_alloc [OF assms(3)] this] obtain m' where
    g': "Process_AT_TIME_CMD t g = Inr (g\<lparr>heap := m'\<rparr>)"
      "sys_ok (g\<lparr>heap := m'\<rparr>) sr rs ss (sn @ [nalloc (heap g) + 1])"
      "send_msgs (g\<lparr>heap := m'\<rparr>) = send_msgs g @ [time_answer t]"
      "recv_msgs (g\<lparr>heap := m'\<rparr>) = recv_msgs g" by auto
  have "time_answer t = \<lparr>m_bytes = m_bytes (time_answer t), m_fd = 0, m_to = UART\<rparr>"
    by (simp add: time_answer_def)
  moreover have "map (\<lambda>(pos, len). int (field pos len (m_bytes (time_answer t))))
      [(8, 2), (10, 2), (12, 2), (14, 2), (16, 1), (17, 2), (19, 4)] =
      [tm_sec t, tm_min t, tm_hour t, tm_mday t, tm_wday t, tm_mon t + 1, tm_year t + 1900]"
    using assms(2) unfolding list.map prod.case time_fields [OF assms(2)] by (simp add: valid_tm_def)
  ultimately show ?thesis
    using g' sys_ok_msgs(1) [OF g'(2)] time_text_length [OF assms(2)]
    by (intro exI [of _ "g\<lparr>heap := m'\<rparr>"] exI [of _ "m_bytes (time_answer t)"]) metis
qed

text \<open>C13: one iteration of the parser on a non-empty list: it takes the first message, counts it
  when it is a command of its source, queues the answer, and changes nothing else.\<close>

theorem parser_counts_and_answers:
  assumes "sys_inv g" and "valid_tm t" and "mem_for 3 g" and "room_for 1 g" and "recv_msgs g = x # xs"
  shows "\<exists>m'. data_process t g = Inr (g\<lparr>uart_handle_analy :=
         counted (m_fd x = G_uartfd g \<and> starts_with ''time'' x) (uart_handle_analy g),
       pipe_handle_analy :=
         counted (m_fd x \<noteq> G_uartfd g \<and> m_fd x = G_pipefd g \<and> starts_with ''usb'' x) (pipe_handle_analy g), heap := m'\<rparr>) \<and>
     recv_msgs (g\<lparr>heap := m'\<rparr>) = xs \<and>
     send_msgs (g\<lparr>heap := m'\<rparr>) = send_msgs g @ response (G_uartfd g) (G_pipefd g) t x"
proof -
  let ?g1 = "\<lambda>m'. g\<lparr>uart_handle_analy :=
         counted (m_fd x = G_uartfd g \<and> starts_with ''time'' x) (uart_handle_analy g),
       pipe_handle_analy :=
         counted (m_fd x \<noteq> G_uartfd g \<and> m_fd x = G_pipefd g \<and> starts_with ''usb'' x) (pipe_handle_analy g), heap := m'\<rparr>"
  obtain sr rs ss sn where ok: "sys_ok g sr rs ss sn" by (rule sys_invE [OF assms(1)])
  from sys_ok_msgs(2) [OF ok] assms(5) obtain n rs' where
    rs: "rs = n # rs'" "x = node_msg (heap g) n" by auto
  have "int (length sn) < INT_MAX" using assms(4) sys_ok_msgs(3) [OF ok] by (simp add: room_for_def)
  from data_process_sys [OF ok [unfolded rs(1)] assms(2) mem_for_alloc [OF assms(3)] this]
  obtain m' sn' where m': "data_process t g = Inr (?g1 m')"
     "recv_msgs g = x # recv_msgs (?g1 m')"
     "send_msgs (?g1 m') = send_msgs g @ response (G_uartfd g) (G_pipefd g) t x"
    unfolding rs(2) [symmetric] by blast
  have "recv_msgs (?g1 m') = recv_msgs (g\<lparr>heap := m'\<rparr>)" "send_msgs (?g1 m') = send_msgs (g\<lparr>heap := m'\<rparr>)"
    by (simp_all add: recv_msgs_def send_msgs_def)
  with m' assms(5) show ?thesis by (intro exI [of _ m']) simp
qed

text \<open>C15: reading the serial line: the handler reads at most 1024 times and stores fewer than 1024
  bytes, exactly those of the first reads, up to the first read that fails, returns nothing or
  would fill the buffer; the bytes of a read that would fill the buffer are dropped.\<close>

theorem whole_read_bounded:
  "\<exists>j. whole_read rd (replicate 1024 NUL) 1024 =
       Inr (length (rchunks rd 0 j), rchunks rd 0 j @ replicate (1024 - length (rchunks rd 0 j)) NUL, j + 1) \<and>
     length (rchunks rd 0 j) < 1024 \<and> j + 1 \<le> 1024 \<and>
     (rchunk (rd j) = [] \<or> 1024 \<le> length (rchunks rd 0 j) + length (rchunk (rd j)))"
proof -
  obtain j where "whole_read rd (replicate 1024 NUL) 1024 =
       Inr (length (rchunks rd 0 j), rchunks rd 0 j @ replicate (1024 - length (rchunks rd 0 j)) NUL, Suc j)"
    "length (rchunks rd 0 j) < 1024" "j \<le> length (rchunks rd 0 j)"
    "rchunk (rd j) = [] \<or> 1024 \<le> length (rchunks rd 0 j) + length (rchunk (rd j))"
    by (rule whole_read_cases [of rd]) blast
  then show ?thesis by (intro exI [of _ j]) simp
qed

text \<open>C16: without memory, a receive handler drops the message and changes no list, but
  \<open>ready_send_data\<close> does not check its node and the daemon dereferences null.\<close>

theorem out_of_memory:
  assumes "\<not> alloc_ok (heap g) 3" and "fresh_above (heap g)" and "0 < n"
  shows "ready_send_data port (Some src) n g = Inl Null_deref \<and>
     (\<exists>k. recv_enqueue fd buf n g = Inr (g\<lparr>heap := heap g\<lparr>nalloc := k\<rparr>\<rparr>))"
  using ready_send_oom [OF assms, of port src] recv_enqueue_oom [OF assms(1,2), of fd buf n] by blast

subsection \<open>The properties at concrete inputs\<close>

lemma time_command_read_back_witness:
  "\<exists>g g' bs. boot 3 4 (\<lambda>_. False) = Inr g \<and> Process_AT_TIME_CMD noon_tm g = Inr g' \<and>
     send_msgs g' = [\<lparr>m_bytes = bs, m_fd = 0, m_to = UART\<rparr>] \<and>
     map (\<lambda>(pos, len). int (field pos len bs)) [(8, 2), (10, 2), (12, 2), (14, 2), (16, 1), (17, 2), (19, 4)] =
       [5, 30, 12, 7, 0, 9, 2025]"
proof -
  obtain g where g: "boot 3 4 (\<lambda>_. False) = Inr g" "sys_inv g" "send_msgs g = []" "mem_for 3 g" "room_for 1 g"
    by (rule boot_state [of 3]) simp
  have n: "[tm_sec noon_tm, tm_min noon_tm, tm_hour noon_tm, tm_mday noon_tm, tm_wday noon_tm, tm_mon noon_tm + 1, tm_year noon_tm + 1900] =
      [5, 30, 12, 7, 0, 9, 2025]" by (simp add: noon_tm_def)
  from time_command_read_back [OF g(2) noon_valid g(4,5)] g(1,3) show ?thesis unfolding n by auto
qed

lemma parser_counts_and_answers_witness:
  "\<exists>g0 g m'. boot 3 4 (\<lambda>_. False) = Inr g0 \<and> run [Pipe_readable (Some ''usb!'')] g0 = Inr g \<and>
     data_process noon_tm g = Inr (g\<lparr>pipe_handle_analy := counted True (pipe_handle_analy g), heap := m'\<rparr>) \<and>
     send_msgs (g\<lparr>heap := m'\<rparr>) = [usb_answer]"
proof -
  obtain g0 g where g: "boot 3 4 (\<lambda>_. False) = Inr g0" "run [Pipe_readable (Some ''usb!'')] g0 = Inr g"
    "sys_inv g" "recv_msgs g = [\<lparr>m_bytes = ''usb!'', m_fd = 4, m_to = 0\<rparr>]" "send_msgs g = []"
    "G_uartfd g = 3" "G_pipefd g = 4" "mem_for 3 g" "room_for 1 g"
    by (rule busy_state [of 3]) simp
  have u: "g\<lparr>uart_handle_analy := uart_handle_analy g, pipe_handle_analy := p, heap := m'\<rparr> =
      g\<lparr>pipe_handle_analy := p, heap := m'\<rparr>" for m' p by simp
  from parser_counts_and_answers [OF g(3) noon_valid g(8,9,4)] g(1,2,5-7) show ?thesis
    by (auto simp: counted_def starts_with_def response_def u)
qed

lemma out_of_memory_witness:
  "\<exists>g. ready_send_data UART (Some ''abc'') 3 g = Inl Null_deref"
proof -
  let ?m = "\<lparr>nodes = (\<lambda>_. None), infs = (\<lambda>_. None), bufs = (\<lambda>_. None), heads = (\<lambda>_. None),
                nalloc = 0, oom = (\<lambda>_. True)\<rparr>"
  let ?g = "\<lparr>heap = ?m, G_uartfd = 3, G_epollfd = 0, G_pipefd = 4, G_sockfd = 0,
        G_recv_linklist = 0, G_send_linklist = 0, uart_handle_analy = [], pipe_handle_analy = [],
        epoll_fds = [], dp_node = 0, so_node = 0, outs = []\<rparr>"
  have "\<not> alloc_ok (heap ?g) 3" "fresh_above (heap ?g)" by (auto simp: alloc_ok_def fresh_above_def intro: exI [of _ 0])
  from out_of_memory [OF this, of 3 UART "''abc''"] show ?thesis by (intro exI [of _ ?g]) simp
qed

end
